(* ===== verification/Prelude.thy ===== *)
theory Prelude
  imports Main "HOL-Library.Word"
begin

text \<open>
  Shared vocabulary of the development: the outcomes a VM routine can have besides returning a
  value, the C integer types at their width, and the generic facts on lists that several
  components use.

  \<^item> \<open>vm_error\<close> names the Java exceptions the modelled routines throw and the two ways the VM
    itself gives up (\<open>vm_abort\<close> and a failed \<open>assert\<close>). A routine that can fail returns
    \<open>vm_error + 'a\<close>.
  \<^item> \<open>option\<close> is used for pointers (\<open>NULL\<close> is \<open>None\<close>) and for accesses outside an array.
  \<^item> The word sizes are those of a 64-bit target (\<open>SIZEOF_VOID_P = 8\<close>).
\<close>

type_synonym u1 = "8 word"
type_synonym u2 = "16 word"
type_synonym u4 = "32 word"
type_synonym s4 = "32 word"
type_synonym s8 = "64 word"
type_synonym size_t = "64 word"
type_synonym uintptr_t = "64 word"

datatype vm_error =
    NullPointerException
  | IllegalMonitorStateException
  | InterruptedException
  | LinkageError string
  | ClassFormatError string
  | InternalError string
  | IllegalAccessException
  | Vm_abort string
  | Assertion_failed

type_synonym 'a result = "vm_error + 'a"

text \<open>Sequencing of code that can fail.\<close>

fun rbind :: "'a result \<Rightarrow> ('a \<Rightarrow> 'b result) \<Rightarrow> 'b result" where
  "rbind (Inl e) f = Inl e"
| "rbind (Inr x) f = f x"

lemma rbind_Inr: "rbind m f = Inr y \<longleftrightarrow> (\<exists>x. m = Inr x \<and> f x = Inr y)"
  by (cases m) auto

text \<open>Facts that evaluate the operations of a component on a branch.\<close>
named_theorems cacao_simps

text \<open>Facts that say an operation keeps a component's invariant.\<close>
named_theorems cacao_inv

section \<open>Words read back as numbers\<close>

lemma unat_of_nat_small:
  "n < 2 ^ LENGTH('a) \<Longrightarrow> unat (word_of_nat n :: 'a::len word) = n"
  by (rule of_nat_inverse [OF refl])

lemma ucast_unat: "(ucast (w :: 'a::len word) :: 'b::len word) = word_of_nat (unat w)"
  by (simp only: ucast_eq uint_nat of_int_of_nat_eq)

lemma ucast_of_nat_small:
  "n < 2 ^ LENGTH('a) \<Longrightarrow> ucast (word_of_nat n :: 'a::len word) = (word_of_nat n :: 'b::len word)"
  by (simp add: ucast_unat unat_of_nat_small)

lemma sint_of_nat_small:
  "n < 2 ^ (LENGTH('a) - 1) \<Longrightarrow> sint (word_of_nat n :: 'a::len word) = int n"
proof -
  assume "n < 2 ^ (LENGTH('a) - 1)"
  then have "int n < 2 ^ (LENGTH('a) - 1)" by simp
  then show ?thesis
    by (simp add: signed_of_nat signed_take_bit_int_eq_self order_trans [of _ 0])
qed

lemma unat_eqI: "unat v = unat w \<Longrightarrow> v = w"
  by (simp add: word_unat_eq_iff)

section \<open>Options\<close>

lemma option_eqI: "(\<And>x. a = Some x \<longleftrightarrow> b = Some x) \<Longrightarrow> a = b"
  by (cases a; cases b) auto

section \<open>Chained tables\<close>

text \<open>A table of chains seen as one list, split at a slot.\<close>

lemma concat_split:
  "i < length xss \<Longrightarrow> concat xss = concat (take i xss) @ xss ! i @ concat (drop (Suc i) xss)"
proof -
  assume "i < length xss"
  then have "xss = take i xss @ xss ! i # drop (Suc i) xss" by (rule id_take_nth_drop)
  then have "concat xss = concat (take i xss @ xss ! i # drop (Suc i) xss)" by simp
  then show ?thesis by simp
qed

lemma concat_update:
  "i < length xss \<Longrightarrow> concat (xss[i := ys]) = concat (take i xss) @ ys @ concat (drop (Suc i) xss)"
  by (simp add: upd_conv_take_nth_drop)

end
