(* ===== verification/Lockword.thy ===== *)
theory Lockword
  imports Prelude
begin

unbundle bit_operations_syntax

text \<open>
  The lockword of an object header (\<^verbatim>\<open>src/src/threads/lockword.hpp\<close>): one pointer-sized word
  that is either a thin lock (thread index, recursion count, shape bit 0) or a pointer to a lock
  record with the shape bit set. The class \<open>Lockword\<close> wraps a reference to the word; here each
  method is a function of the word, and a method that assigns to it returns the new word.
\<close>

section \<open>Constants\<close>

definition THIN_LOCK_SHAPE_BIT :: uintptr_t where
  "THIN_LOCK_SHAPE_BIT = 0x01"

definition THIN_UNLOCKED :: uintptr_t where
  "THIN_UNLOCKED = 0"

definition THIN_LOCK_COUNT_SHIFT :: nat where
  "THIN_LOCK_COUNT_SHIFT = 1"

definition THIN_LOCK_COUNT_SIZE :: nat where
  "THIN_LOCK_COUNT_SIZE = 8"

definition THIN_LOCK_COUNT_MAX :: int where
  "THIN_LOCK_COUNT_MAX = push_bit THIN_LOCK_COUNT_SIZE 1 - 1"

definition THIN_LOCK_COUNT_MASK :: uintptr_t where
  "THIN_LOCK_COUNT_MASK = push_bit THIN_LOCK_COUNT_SHIFT (of_int THIN_LOCK_COUNT_MAX)"

definition THIN_LOCK_TID_SHIFT :: nat where
  "THIN_LOCK_TID_SHIFT = THIN_LOCK_COUNT_SIZE + THIN_LOCK_COUNT_SHIFT"

section \<open>Methods\<close>

text \<open>The shift happens on \<open>int32_t\<close>; the result is sign-extended when it is or-ed with the
  pointer-sized \<open>THIN_UNLOCKED\<close>.\<close>

definition pre_compute_thinlock :: "s4 \<Rightarrow> uintptr_t" where
  "pre_compute_thinlock index =
     scast (push_bit THIN_LOCK_TID_SHIFT index) OR THIN_UNLOCKED"

definition is_thin_lock :: "uintptr_t \<Rightarrow> bool" where
  "is_thin_lock lw \<longleftrightarrow> lw AND THIN_LOCK_SHAPE_BIT = 0"

definition is_fat_lock :: "uintptr_t \<Rightarrow> bool" where
  "is_fat_lock lw \<longleftrightarrow> lw AND THIN_LOCK_SHAPE_BIT \<noteq> 0"

definition is_unlocked :: "uintptr_t \<Rightarrow> bool" where
  "is_unlocked lw \<longleftrightarrow> lw = THIN_UNLOCKED"

text \<open>\<open>Atomic::compare_and_swap\<close> returns the old value and stores the new one when the old one
  was the expected one.\<close>

definition compare_and_swap :: "uintptr_t \<Rightarrow> uintptr_t \<Rightarrow> uintptr_t \<Rightarrow> uintptr_t \<times> uintptr_t" where
  "compare_and_swap cell oldval newval = ((if cell = oldval then newval else cell), cell)"

definition lw_lock :: "uintptr_t \<Rightarrow> uintptr_t \<Rightarrow> uintptr_t \<times> bool" where
  "lw_lock lw thinlock =
     (let (lw', oldlockword) = compare_and_swap lw THIN_UNLOCKED thinlock
      in (lw', is_unlocked oldlockword))"

definition lw_unlock :: "uintptr_t \<Rightarrow> uintptr_t" where
  "lw_unlock lw = THIN_UNLOCKED"

definition get_thin_lock :: "uintptr_t \<Rightarrow> uintptr_t" where
  "get_thin_lock lw = lw"

definition get_thin_lock_without_count :: "uintptr_t \<Rightarrow> uintptr_t" where
  "get_thin_lock_without_count lw = lw AND NOT THIN_LOCK_COUNT_MASK"

definition get_thin_lock_count :: "uintptr_t \<Rightarrow> s4" where
  "get_thin_lock_count lw =
     signed_drop_bit THIN_LOCK_COUNT_SHIFT (ucast (lw AND THIN_LOCK_COUNT_MASK))"

definition get_thin_lock_thread_index :: "uintptr_t \<Rightarrow> s4" where
  "get_thin_lock_thread_index lw = ucast (drop_bit THIN_LOCK_TID_SHIFT lw)"

definition get_fat_lock :: "uintptr_t \<Rightarrow> uintptr_t" where
  "get_fat_lock lw = lw AND NOT THIN_LOCK_SHAPE_BIT"

definition lw_set_record :: "uintptr_t \<Rightarrow> uintptr_t" where
  "lw_set_record lr = lr OR THIN_LOCK_SHAPE_BIT"

definition is_max_thin_lock_count :: "uintptr_t \<Rightarrow> bool" where
  "is_max_thin_lock_count lw \<longleftrightarrow> sint (get_thin_lock_count lw) \<ge> THIN_LOCK_COUNT_MAX"

text \<open>The two counter updates assert that the counter field does not overflow into its
  neighbours.\<close>

definition increase_thin_lock_count :: "uintptr_t \<Rightarrow> uintptr_t result" where
  "increase_thin_lock_count lw =
     (if sint (get_thin_lock_count lw) < THIN_LOCK_COUNT_MAX
      then Inr (lw + push_bit THIN_LOCK_COUNT_SHIFT 1)
      else Inl Assertion_failed)"

definition decrease_thin_lock_count :: "uintptr_t \<Rightarrow> uintptr_t result" where
  "decrease_thin_lock_count lw =
     (if sint (get_thin_lock_count lw) > 0
      then Inr (lw - push_bit THIN_LOCK_COUNT_SHIFT 1)
      else Inl Assertion_failed)"

lemmas lockword_consts = THIN_LOCK_SHAPE_BIT_def THIN_UNLOCKED_def THIN_LOCK_COUNT_SHIFT_def
  THIN_LOCK_COUNT_SIZE_def THIN_LOCK_COUNT_MAX_def THIN_LOCK_COUNT_MASK_def
  THIN_LOCK_TID_SHIFT_def

section \<open>The fields of a thin lock\<close>

text \<open>A thin lockword is determined by its thread index field and its count field. The lemmas of
  this section read and update the fields of \<open>thinword\<close>, so that no client looks at bits.\<close>

definition thinword :: "nat \<Rightarrow> nat \<Rightarrow> uintptr_t" where
  "thinword idx c = word_of_nat (idx * 512 + c * 2)"

lemma unat_thinword:
  assumes "idx < 2 ^ 55" "c < 256"
  shows "unat (thinword idx c) = idx * 512 + c * 2"
proof -
  have "idx * 512 + c * 2 < 2 ^ LENGTH(64)"
    using assms by simp
  then show ?thesis
    unfolding thinword_def by (rule of_nat_inverse [OF refl])
qed

lemma bit_count_mask: "bit THIN_LOCK_COUNT_MASK n \<longleftrightarrow> 1 \<le> n \<and> n \<le> 8"
proof -
  have eq: "THIN_LOCK_COUNT_MASK = push_bit 1 (mask 8)"
    by (simp add: lockword_consts mask_eq_exp_minus_1 push_bit_eq_mult)
  show ?thesis
    unfolding eq bit_push_bit_iff bit_mask_iff by auto
qed

lemma and_count_mask_even:
  fixes lw :: uintptr_t
  assumes "even lw"
  shows "lw AND THIN_LOCK_COUNT_MASK = take_bit 9 lw"
proof (rule bit_word_eqI)
  fix n assume "n < LENGTH(64)"
  show "bit (lw AND THIN_LOCK_COUNT_MASK) n \<longleftrightarrow> bit (take_bit 9 lw) n"
    using assms by (cases n) (auto simp: bit_count_mask bit_simps simp flip: bit_0)
qed

lemma and_not_count_mask_even:
  fixes lw :: uintptr_t
  assumes "even lw"
  shows "lw AND NOT THIN_LOCK_COUNT_MASK = push_bit 9 (drop_bit 9 lw)"
proof (rule bit_word_eqI)
  fix n assume "n < LENGTH(64)"
  then show "bit (lw AND NOT THIN_LOCK_COUNT_MASK) n \<longleftrightarrow> bit (push_bit 9 (drop_bit 9 lw)) n"
    using assms by (cases n) (auto simp: bit_count_mask bit_simps simp flip: bit_0)
qed

lemma even_thinword: "even (thinword idx c)"
  by (simp add: thinword_def)

lemma thinword_is_thin: "is_thin_lock (thinword idx c)" "\<not> is_fat_lock (thinword idx c)"
  using even_thinword by (simp_all add: is_thin_lock_def is_fat_lock_def lockword_consts
      and_one_eq even_iff_mod_2_eq_zero)

lemma drop_thinword:
  assumes "idx < 2 ^ 55" "c < 256"
  shows "drop_bit 9 (thinword idx c) = word_of_nat idx"
proof -
  have "idx < 2 ^ LENGTH(64)" using assms by simp
  then have "unat (word_of_nat idx :: uintptr_t) = idx"
    by (rule of_nat_inverse [OF refl])
  moreover have "unat (drop_bit 9 (thinword idx c)) = idx"
    using assms by (simp add: unat_div_distrib unat_thinword drop_bit_eq_div)
  ultimately show ?thesis by (simp add: word_unat_eq_iff)
qed

lemma thinword_without_count:
  assumes "idx < 2 ^ 55" "c < 256"
  shows "get_thin_lock_without_count (thinword idx c) = thinword idx 0"
  unfolding get_thin_lock_without_count_def and_not_count_mask_even [OF even_thinword]
    drop_thinword [OF assms]
  by (simp add: thinword_def push_bit_eq_mult)

lemma thinword_count:
  assumes "idx < 2 ^ 55" "c < 256"
  shows "sint (get_thin_lock_count (thinword idx c)) = int c"
proof -
  obtain n where n: "n = c * 2" "n < 512" using assms by simp
  have "unat (take_bit 9 (thinword idx c)) = n"
    using assms n by (simp add: unat_mod_distrib unat_thinword take_bit_eq_mod)
  then have "take_bit 9 (thinword idx c) = word_of_nat n"
    using n(2) by (intro unat_eqI) (simp add: unat_of_nat_small)
  moreover have "sint (word_of_nat n :: s4) = int n"
    using n(2) by (intro sint_of_nat_small) simp
  moreover have "ucast (word_of_nat n :: uintptr_t) = (word_of_nat n :: s4)"
    using n(2) by (intro ucast_of_nat_small) simp
  ultimately show ?thesis
    unfolding get_thin_lock_count_def and_count_mask_even [OF even_thinword]
    using n(1) by (simp only: THIN_LOCK_COUNT_SHIFT_def sint_signed_drop_bit_eq drop_bit_eq_div)
      simp
qed

lemma thinword_index:
  assumes "idx < 2 ^ 31" "c < 256"
  shows "get_thin_lock_thread_index (thinword idx c) = word_of_nat idx"
proof -
  have "drop_bit 9 (thinword idx c) = word_of_nat idx"
    using assms by (intro drop_thinword) simp_all
  then show ?thesis
    using assms by (simp add: get_thin_lock_thread_index_def lockword_consts ucast_of_nat_small)
qed

lemma pre_compute_thinlock_thinword:
  assumes "idx < 2 ^ 22"
  shows "pre_compute_thinlock (word_of_nat idx) = thinword idx 0"
proof -
  obtain n where n: "n = idx * 512" "n < 2 ^ 31" using assms by simp
  have "push_bit 9 (word_of_nat idx :: s4) = word_of_nat n"
    using n(1) by (simp add: push_bit_eq_mult)
  moreover have "sint (word_of_nat n :: s4) = int n"
    using n(2) by (intro sint_of_nat_small) simp
  ultimately show ?thesis
    using n(1) by (simp add: pre_compute_thinlock_def lockword_consts thinword_def scast_eq)
qed

lemma thinword_Suc: "thinword idx (Suc c) = thinword idx c + 2 ^ THIN_LOCK_COUNT_SHIFT"
  by (simp add: thinword_def lockword_consts algebra_simps)

lemma increase_thinword:
  assumes "idx < 2 ^ 55" "c < 255"
  shows "increase_thin_lock_count (thinword idx c) = Inr (thinword idx (Suc c))"
proof -
  have "sint (get_thin_lock_count (thinword idx c)) = int c"
    using assms by (simp add: thinword_count)
  then show ?thesis
    using assms by (simp add: increase_thin_lock_count_def thinword_Suc THIN_LOCK_COUNT_MAX_def
        THIN_LOCK_COUNT_SIZE_def)
qed

lemma decrease_thinword:
  assumes "idx < 2 ^ 55" "c < 255"
  shows "decrease_thin_lock_count (thinword idx (Suc c)) = Inr (thinword idx c)"
proof -
  have "sint (get_thin_lock_count (thinword idx (Suc c))) = int (Suc c)"
    using assms by (intro thinword_count) simp_all
  then show ?thesis
    by (simp add: decrease_thin_lock_count_def thinword_Suc)
qed

lemma is_max_thinword:
  assumes "idx < 2 ^ 55" "c < 256"
  shows "is_max_thin_lock_count (thinword idx c) \<longleftrightarrow> c = 255"
  using assms by (auto simp: is_max_thin_lock_count_def thinword_count lockword_consts)

lemma thinword_inj:
  assumes "idx < 2 ^ 55" "c < 256" "idx' < 2 ^ 55" "c' < 256"
  shows "thinword idx c = thinword idx' c' \<longleftrightarrow> idx = idx' \<and> c = c'"
proof
  assume "thinword idx c = thinword idx' c'"
  then have "idx * 512 + c * 2 = idx' * 512 + c' * 2"
    using unat_thinword [OF assms(1,2)] unat_thinword [OF assms(3,4)] by simp
  then have eq: "c + 256 * idx = c' + 256 * idx'" by simp
  have "(c + 256 * idx) mod 256 = c" "(c' + 256 * idx') mod 256 = c'"
    using assms(2,4) by simp_all
  with eq have "c = c'" by metis
  with eq show "idx = idx' \<and> c = c'" by simp
qed simp

section \<open>Fat locks\<close>

lemma set_record_is_fat: "is_fat_lock (lw_set_record lr)" "\<not> is_thin_lock (lw_set_record lr)"
proof -
  have "bit ((lr OR 1) AND 1) 0" by (simp add: bit_simps)
  then have "(lr OR 1) AND 1 \<noteq> 0" by (metis bit_0_eq bot_apply bot_bool_def)
  then show "is_fat_lock (lw_set_record lr)" "\<not> is_thin_lock (lw_set_record lr)"
    by (simp_all add: is_fat_lock_def is_thin_lock_def lw_set_record_def lockword_consts)
qed

lemma get_set_record: "even lr \<Longrightarrow> get_fat_lock (lw_set_record lr) = lr"
  by (auto simp: get_fat_lock_def lw_set_record_def lockword_consts bit_eq_iff bit_simps bit_0)

lemma thin_or_fat: "is_thin_lock lw \<longleftrightarrow> \<not> is_fat_lock lw"
  by (simp add: is_thin_lock_def is_fat_lock_def)

end
