(* ===== verification/KeyedTable.thy ===== *)
theory KeyedTable
  imports Prelude
begin

text \<open>
  The interface of the chained hash tables of the VM, as their clients use them. The lock record
  table and the class cache both keep entries that carry their own key (\<open>lr->object\<close>,
  \<open>c->name\<close>), look an entry up by key, and enter a new entry for a key that has none; the table
  may rehash when an entry is entered. The class cache also changes entries in place.
\<close>

locale keyed_table =
  fixes invar :: "'s \<Rightarrow> bool"
    and lookup :: "'s \<Rightarrow> 'k \<Rightarrow> 'e option"
    and enter :: "'s \<Rightarrow> 'e \<Rightarrow> 's"
    and key :: "'e \<Rightarrow> 'k"
  assumes lookup_key: "invar s \<Longrightarrow> lookup s k = Some e \<Longrightarrow> key e = k"
    and enter_invar: "invar s \<Longrightarrow> lookup s (key e) = None \<Longrightarrow> invar (enter s e)"
    and enter_lookup: "invar s \<Longrightarrow> lookup s (key e) = None \<Longrightarrow>
      lookup (enter s e) = (lookup s)(key e \<mapsto> e)"
begin

lemma lookup_entered_same:
  "invar s \<Longrightarrow> lookup s (key e) = None \<Longrightarrow> lookup (enter s e) (key e) = Some e"
  by (simp add: enter_lookup)

lemma lookup_entered_other:
  "invar s \<Longrightarrow> lookup s (key e) = None \<Longrightarrow> k \<noteq> key e \<Longrightarrow> lookup (enter s e) k = lookup s k"
  by (simp add: enter_lookup)

text \<open>Entering a whole list of entries with fresh, distinct keys: every old and every new entry
  is found again, however often the table rehashed on the way.\<close>

lemma enters_lookup:
  assumes "invar s" and "distinct (map key es)" and "\<forall>e \<in> set es. lookup s (key e) = None"
  shows "invar (fold (\<lambda>e t. enter t e) es s) \<and>
    lookup (fold (\<lambda>e t. enter t e) es s) = lookup s ++ map_of (map (\<lambda>e. (key e, e)) es)"
  using assms
proof (induction es arbitrary: s)
  case Nil
  then show ?case by simp
next
  case (Cons e es)
  have inv: "invar (enter s e)" and look: "lookup (enter s e) = (lookup s)(key e \<mapsto> e)"
    using Cons.prems by (auto simp: enter_invar enter_lookup)
  have fresh: "\<forall>e' \<in> set es. lookup (enter s e) (key e') = None"
    using Cons.prems by (auto simp: look image_iff)
  have "distinct (map key es)" using Cons.prems by simp
  note IH = Cons.IH [OF inv this fresh, unfolded look]
  have "map_of (map (\<lambda>e. (key e, e)) es) (key e) = None"
    using Cons.prems by (auto simp: map_of_eq_None_iff)
  then have "(lookup s)(key e \<mapsto> e) ++ map_of (map (\<lambda>e. (key e, e)) es) =
      lookup s ++ (map_of (map (\<lambda>e. (key e, e)) es))(key e \<mapsto> e)"
    by (intro ext) (auto simp: map_add_def split: option.splits)
  with IH show ?case by (simp add: fun_upd_def)
qed

end

text \<open>A table whose entries are also changed in place, keeping their key.\<close>

locale keyed_table_update = keyed_table +
  fixes update :: "'s \<Rightarrow> 'k \<Rightarrow> ('e \<Rightarrow> 'e) \<Rightarrow> 's"
  assumes update_invar: "invar s \<Longrightarrow> (\<forall>e. key (f e) = key e) \<Longrightarrow> invar (update s k f)"
    and update_lookup: "invar s \<Longrightarrow> (\<forall>e. key (f e) = key e) \<Longrightarrow>
      lookup (update s k f) = (lookup s)(k := map_option f (lookup s k))"
begin

lemma update_other:
  "invar s \<Longrightarrow> (\<forall>e. key (f e) = key e) \<Longrightarrow> k' \<noteq> k \<Longrightarrow> lookup (update s k f) k' = lookup s k'"
  by (simp add: update_lookup)

text \<open>The pattern of every writer of the class cache: make sure the key has an entry, then change
  that entry.\<close>

lemma enter_then_update:
  assumes "invar s" and "lookup s (key e) = None" and "\<forall>e. key (f e) = key e"
  shows "lookup (update (enter s e) (key e) f) = (lookup s)(key e \<mapsto> f e)"
  using assms by (simp add: update_lookup enter_lookup enter_invar)

end

end
