(* ===== verification/LockTable.thy ===== *)
theory LockTable
  imports KeyedTable
begin

text \<open>
  The hash table of lock records (\<^verbatim>\<open>src/src/threads/lock.cpp\<close>, "hashtable mapping objects to
  lock records"). A slot is the list of the records on its \<open>hashlink\<close> chain, head first. The
  object a record belongs to (\<open>lr->object\<close>) is read through the function \<open>obj\<close>, so that the
  table shares the record heap with the monitor code; \<open>hc\<close> is \<open>heap_hashcode\<close> of an object.
  The size and the number of entries are \<open>u4\<close> in the source and natural numbers here: the products
  \<open>entries * 3\<close> and \<open>size * 2 + 1\<close> wrap only from about a thousand million records on, a case that the model does not cover.

  The monitor code relies on the interface \<open>keyed_table\<close>: a partial map from objects to records
  that only \<open>lht_enter\<close> extends. The interpretation \<open>lht\<close> shows that the chained table with its
  rehashing provides it.
\<close>

section \<open>The table and its operations\<close>

record 'r lock_hashtable_t =
  lht_size :: nat
  lht_entries :: nat
  lht_ptr :: "'r list list"

definition LOCK_INITIAL_HASHTABLE_SIZE :: nat where
  "LOCK_INITIAL_HASHTABLE_SIZE = 1613"

definition lock_hashtable_init :: "'r lock_hashtable_t" where
  "lock_hashtable_init =
     \<lparr> lht_size = LOCK_INITIAL_HASHTABLE_SIZE, lht_entries = 0,
       lht_ptr = replicate LOCK_INITIAL_HASHTABLE_SIZE [] \<rparr>"

definition lht_slot :: "('o \<Rightarrow> u4) \<Rightarrow> nat \<Rightarrow> 'o \<Rightarrow> nat" where
  "lht_slot hc sz o' = unat (hc o') mod sz"

text \<open>One pass of the rehash loop: the record becomes the head of its new chain.\<close>

definition lht_rehash1 ::
  "('o \<Rightarrow> u4) \<Rightarrow> ('r \<Rightarrow> 'o) \<Rightarrow> nat \<Rightarrow> 'r \<Rightarrow> 'r list list \<Rightarrow> 'r list list" where
  "lht_rehash1 hc obj newsize lr newtable =
     (let newslot = lht_slot hc newsize (obj lr)
      in newtable[newslot := lr # newtable ! newslot])"

definition lock_hashtable_grow ::
  "('o \<Rightarrow> u4) \<Rightarrow> ('r \<Rightarrow> 'o) \<Rightarrow> 'r lock_hashtable_t \<Rightarrow> 'r lock_hashtable_t" where
  "lock_hashtable_grow hc obj ht =
     (let oldsize = lht_size ht;
          newsize = oldsize * 2 + 1;
          newtable = fold (lht_rehash1 hc obj newsize) (concat (lht_ptr ht)) (replicate newsize [])
      in ht\<lparr>lht_ptr := newtable, lht_size := newsize\<rparr>)"

text \<open>The search loop of \<open>lock_hashtable_get\<close> on one chain.\<close>

fun lht_search :: "('r \<Rightarrow> 'o) \<Rightarrow> 'o \<Rightarrow> 'r list \<Rightarrow> 'r option" where
  "lht_search obj o' [] = None"
| "lht_search obj o' (lr # chain) = (if obj lr = o' then Some lr else lht_search obj o' chain)"

definition lht_lookup ::
  "('o \<Rightarrow> u4) \<Rightarrow> ('r \<Rightarrow> 'o) \<Rightarrow> 'r lock_hashtable_t \<Rightarrow> 'o \<Rightarrow> 'r option" where
  "lht_lookup hc obj ht o' = lht_search obj o' (lht_ptr ht ! lht_slot hc (lht_size ht) o')"

text \<open>Entering a new record: head of its chain, one more entry, and growth when the load passes
  4/3.\<close>

definition lht_enter ::
  "('o \<Rightarrow> u4) \<Rightarrow> ('r \<Rightarrow> 'o) \<Rightarrow> 'r lock_hashtable_t \<Rightarrow> 'r \<Rightarrow> 'r lock_hashtable_t" where
  "lht_enter hc obj ht lr =
     (let slot = lht_slot hc (lht_size ht) (obj lr);
          ht1 = ht\<lparr>lht_ptr := (lht_ptr ht)[slot := lr # lht_ptr ht ! slot],
                   lht_entries := lht_entries ht + 1\<rparr>
      in if lht_entries ht1 * 3 > lht_size ht1 * 4 then lock_hashtable_grow hc obj ht1 else ht1)"

text \<open>Unlinking a record from its chain; the code asserts that it is there.\<close>

fun lht_unlink :: "'r \<Rightarrow> 'r list \<Rightarrow> 'r list result" where
  "lht_unlink lr [] = Inl Assertion_failed"
| "lht_unlink lr (x # xs) =
     (if x = lr then Inr xs
      else case lht_unlink lr xs of Inl e \<Rightarrow> Inl e | Inr ys \<Rightarrow> Inr (x # ys))"

definition lock_hashtable_remove ::
  "('o \<Rightarrow> u4) \<Rightarrow> 'r lock_hashtable_t \<Rightarrow> 'o \<Rightarrow> 'r \<Rightarrow> 'r lock_hashtable_t result" where
  "lock_hashtable_remove hc ht o' lr =
     (let slot = lht_slot hc (lht_size ht) o'
      in case lht_unlink lr (lht_ptr ht ! slot) of
           Inl e \<Rightarrow> Inl e
         | Inr chain \<Rightarrow> Inr (ht\<lparr>lht_ptr := (lht_ptr ht)[slot := chain],
                                 lht_entries := lht_entries ht - 1\<rparr>))"

text \<open>The cleanup of the exact garbage collector drops the records whose object reference was
  cleared. The entry counter is left as it is.\<close>

definition lock_hashtable_cleanup ::
  "('r \<Rightarrow> 'o option) \<Rightarrow> 'r lock_hashtable_t \<Rightarrow> 'r lock_hashtable_t" where
  "lock_hashtable_cleanup objopt ht =
     ht\<lparr>lht_ptr := map (filter (\<lambda>lr. objopt lr \<noteq> None)) (lht_ptr ht)\<rparr>"

section \<open>Well-formed tables\<close>

definition chains_ok :: "('o \<Rightarrow> u4) \<Rightarrow> ('r \<Rightarrow> 'o) \<Rightarrow> nat \<Rightarrow> 'r list list \<Rightarrow> bool" where
  "chains_ok hc obj sz ptr \<longleftrightarrow>
     length ptr = sz \<and> (\<forall>i < sz. \<forall>lr \<in> set (ptr ! i). lht_slot hc sz (obj lr) = i)"

definition lht_records :: "'r lock_hashtable_t \<Rightarrow> 'r set" where
  "lht_records ht = set (concat (lht_ptr ht))"

definition lht_inv :: "('o \<Rightarrow> u4) \<Rightarrow> ('r \<Rightarrow> 'o) \<Rightarrow> 'r lock_hashtable_t \<Rightarrow> bool" where
  "lht_inv hc obj ht \<longleftrightarrow>
     0 < lht_size ht \<and> chains_ok hc obj (lht_size ht) (lht_ptr ht) \<and>
     inj_on obj (lht_records ht) \<and> lht_entries ht = length (concat (lht_ptr ht))"

lemma lht_slot_less: "0 < sz \<Longrightarrow> lht_slot hc sz o' < sz"
  by (simp add: lht_slot_def)

lemma lht_search_Some:
  "lht_search obj o' chain = Some lr \<Longrightarrow> lr \<in> set chain \<and> obj lr = o'"
  by (induction chain) (auto split: if_splits)

lemma lht_search_None:
  "lht_search obj o' chain = None \<longleftrightarrow> (\<forall>lr \<in> set chain. obj lr \<noteq> o')"
  by (induction chain) auto

lemma chains_ok_member:
  assumes "chains_ok hc obj sz ptr" and "0 < sz"
  shows "lr \<in> set (concat ptr) \<longleftrightarrow> lr \<in> set (ptr ! lht_slot hc sz (obj lr))"
proof
  assume "lr \<in> set (concat ptr)"
  then obtain i where "i < length ptr" "lr \<in> set (ptr ! i)"
    by (auto simp: in_set_conv_nth) (metis in_set_conv_nth)
  with assms show "lr \<in> set (ptr ! lht_slot hc sz (obj lr))"
    by (auto simp: chains_ok_def)
next
  assume "lr \<in> set (ptr ! lht_slot hc sz (obj lr))"
  with assms show "lr \<in> set (concat ptr)"
    by (auto simp: chains_ok_def lht_slot_less intro!: bexI [of _ "ptr ! lht_slot hc sz (obj lr)"])
qed

text \<open>A lookup in a well-formed table answers by membership, whatever the slot count.\<close>

lemma lht_lookup_iff:
  assumes "lht_inv hc obj ht"
  shows "lht_lookup hc obj ht o' = Some lr \<longleftrightarrow> lr \<in> lht_records ht \<and> obj lr = o'"
proof -
  have m: "x \<in> lht_records ht \<longleftrightarrow> x \<in> set (lht_ptr ht ! lht_slot hc (lht_size ht) (obj x))" for x
    using assms chains_ok_member unfolding lht_inv_def lht_records_def by metis
  have inj: "inj_on obj (lht_records ht)"
    using assms by (simp add: lht_inv_def)
  show ?thesis
  proof
    assume "lht_lookup hc obj ht o' = Some lr"
    then show "lr \<in> lht_records ht \<and> obj lr = o'"
      using lht_search_Some m unfolding lht_lookup_def by fastforce
  next
    assume lr: "lr \<in> lht_records ht \<and> obj lr = o'"
    then have "lht_lookup hc obj ht o' \<noteq> None"
      using m [of lr] by (auto simp: lht_lookup_def lht_search_None)
    then obtain lr' where lr': "lht_lookup hc obj ht o' = Some lr'" by auto
    then have "lr' \<in> set (lht_ptr ht ! lht_slot hc (lht_size ht) (obj lr')) \<and> obj lr' = o'"
      using lht_search_Some unfolding lht_lookup_def by fastforce
    with lr m inj have "lr' = lr" unfolding inj_on_def by blast
    with lr' show "lht_lookup hc obj ht o' = Some lr" by simp
  qed
qed

section \<open>Rehashing and entering\<close>

lemma push_chain_props:
  fixes lr :: 'r
  assumes "chains_ok hc obj sz ptr" and "0 < sz"
  defines "slot \<equiv> lht_slot hc sz (obj lr)"
  shows "chains_ok hc obj sz (ptr[slot := lr # ptr ! slot])"
    and "set (concat (ptr[slot := lr # ptr ! slot])) = insert lr (set (concat ptr))"
    and "length (concat (ptr[slot := lr # ptr ! slot])) = Suc (length (concat ptr))"
proof -
  have slot: "slot < length ptr"
    using assms lht_slot_less by (simp add: chains_ok_def)
  show "chains_ok hc obj sz (ptr[slot := lr # ptr ! slot])"
    using assms slot by (auto simp: chains_ok_def nth_list_update)
  show "set (concat (ptr[slot := lr # ptr ! slot])) = insert lr (set (concat ptr))"
    unfolding concat_update [OF slot] concat_split [OF slot] by auto
  show "length (concat (ptr[slot := lr # ptr ! slot])) = Suc (length (concat ptr))"
    unfolding concat_update [OF slot] concat_split [OF slot] by simp
qed

lemma rehash_fold_props:
  assumes "0 < sz"
  shows "chains_ok hc obj sz tab \<Longrightarrow>
    chains_ok hc obj sz (fold (lht_rehash1 hc obj sz) lrs tab) \<and>
    set (concat (fold (lht_rehash1 hc obj sz) lrs tab)) = set lrs \<union> set (concat tab) \<and>
    length (concat (fold (lht_rehash1 hc obj sz) lrs tab)) = length lrs + length (concat tab)"
proof (induction lrs arbitrary: tab)
  case Nil
  then show ?case by simp
next
  case (Cons lr lrs)
  have "chains_ok hc obj sz (lht_rehash1 hc obj sz lr tab)"
    unfolding lht_rehash1_def Let_def using Cons.prems assms by (rule push_chain_props)
  note IH = Cons.IH [OF this]
  show ?case
    using IH push_chain_props(2,3) [OF Cons.prems assms, of lr]
    by (simp add: lht_rehash1_def [of hc obj sz lr tab] Let_def del: set_concat)
qed

lemma grow_records: "0 < lht_size ht \<Longrightarrow> lht_records (lock_hashtable_grow hc obj ht) = lht_records ht"
  and grow_inv: "lht_inv hc obj ht \<Longrightarrow> lht_inv hc obj (lock_hashtable_grow hc obj ht)"
proof -
  have ok: "chains_ok hc obj n (replicate n [])" for n
    by (simp add: chains_ok_def)
  have empty: "set (concat (replicate n [])) = {}" "length (concat (replicate n [])) = 0" for n
    by (induction n) simp_all
  have pos: "0 < lht_size ht * 2 + 1" by simp
  note props = rehash_fold_props [OF pos ok, of "concat (lht_ptr ht)"]
  show rec: "0 < lht_size ht \<Longrightarrow> lht_records (lock_hashtable_grow hc obj ht) = lht_records ht"
    using props empty by (simp add: lht_records_def lock_hashtable_grow_def Let_def del: set_concat)
  show "lht_inv hc obj ht \<Longrightarrow> lht_inv hc obj (lock_hashtable_grow hc obj ht)"
    using props empty rec
    by (simp add: lht_inv_def lock_hashtable_grow_def lht_records_def Let_def del: set_concat)
qed

lemma enter_records_inv:
  assumes "lht_inv hc obj ht" and "\<forall>lr' \<in> lht_records ht. obj lr' \<noteq> obj lr"
  shows "lht_inv hc obj (lht_enter hc obj ht lr)"
    and "lht_records (lht_enter hc obj ht lr) = insert lr (lht_records ht)"
proof -
  define slot where "slot = lht_slot hc (lht_size ht) (obj lr)"
  define ht1 where "ht1 = ht\<lparr>lht_ptr := (lht_ptr ht)[slot := lr # lht_ptr ht ! slot],
                   lht_entries := lht_entries ht + 1\<rparr>"
  have ok: "chains_ok hc obj (lht_size ht) (lht_ptr ht)" "0 < lht_size ht"
    using assms(1) by (simp_all add: lht_inv_def)
  note push = push_chain_props [OF ok, of lr, folded slot_def]
  have rec1: "lht_records ht1 = insert lr (lht_records ht)"
    using push by (simp add: ht1_def lht_records_def)
  have inv1: "lht_inv hc obj ht1"
    using assms push rec1
    by (auto simp: lht_inv_def ht1_def inj_on_insert)
  have enter: "lht_enter hc obj ht lr =
      (if lht_entries ht1 * 3 > lht_size ht1 * 4 then lock_hashtable_grow hc obj ht1 else ht1)"
    by (simp add: lht_enter_def ht1_def slot_def Let_def)
  show "lht_inv hc obj (lht_enter hc obj ht lr)"
    using inv1 by (simp add: enter grow_inv)
  show "lht_records (lht_enter hc obj ht lr) = insert lr (lht_records ht)"
    using rec1 inv1 by (simp add: enter grow_records lht_inv_def)
qed

lemma init_inv: "lht_inv hc obj lock_hashtable_init" "lht_records lock_hashtable_init = {}"
proof -
  have "concat (replicate n []) = []" for n by (induction n) simp_all
  then show "lht_inv hc obj lock_hashtable_init" "lht_records lock_hashtable_init = {}"
    by (simp_all add: lht_inv_def lock_hashtable_init_def lht_records_def chains_ok_def
        LOCK_INITIAL_HASHTABLE_SIZE_def del: concat_replicate_trivial)
qed

section \<open>Removing a record\<close>

lemma lht_unlink_found:
  "lr \<in> set chain \<Longrightarrow> lht_unlink lr chain = Inr (remove1 lr chain)"
  by (induction chain) auto

lemma lht_unlink_missing:
  "lr \<notin> set chain \<Longrightarrow> lht_unlink lr chain = Inl Assertion_failed"
  by (induction chain) auto

text \<open>The table only depends on the objects of the records it holds, so the client may create
  records beside it.\<close>

lemma lht_inv_cong:
  assumes "\<forall>lr \<in> lht_records ht. obj lr = obj' lr"
  shows "lht_inv hc obj ht \<longleftrightarrow> lht_inv hc obj' ht"
proof -
  have "obj lr = obj' lr" if "i < length (lht_ptr ht)" "lr \<in> set (lht_ptr ht ! i)" for i lr
    using assms that by (auto simp: lht_records_def)
  then have "chains_ok hc obj (lht_size ht) (lht_ptr ht) \<longleftrightarrow>
      chains_ok hc obj' (lht_size ht) (lht_ptr ht)"
    by (auto simp: chains_ok_def)
  moreover have "inj_on obj (lht_records ht) \<longleftrightarrow> inj_on obj' (lht_records ht)"
    using assms by (intro inj_on_cong) auto
  ultimately show ?thesis by (simp add: lht_inv_def)
qed

lemma lht_lookup_cong:
  assumes "lht_inv hc obj ht" "\<forall>lr \<in> lht_records ht. obj lr = obj' lr"
  shows "lht_lookup hc obj' ht = lht_lookup hc obj ht"
proof
  fix o'
  have "lht_lookup hc obj' ht o' = Some r \<longleftrightarrow> lht_lookup hc obj ht o' = Some r" for r
    using assms lht_inv_cong [OF assms(2)] by (auto simp: lht_lookup_iff)
  then show "lht_lookup hc obj' ht o' = lht_lookup hc obj ht o'"
    by (metis not_Some_eq)
qed

lemma remove_inv:
  assumes inv: "lht_inv hc obj ht" and lr: "lr \<in> lht_records ht" and dist: "distinct (concat (lht_ptr ht))"
  obtains ht' where "lock_hashtable_remove hc ht (obj lr) lr = Inr ht'" "lht_inv hc obj ht'"
    "lht_records ht' = lht_records ht - {lr}"
proof -
  define slot where "slot = lht_slot hc (lht_size ht) (obj lr)"
  define ht' where "ht' = ht\<lparr>lht_ptr := (lht_ptr ht)[slot := remove1 lr (lht_ptr ht ! slot)],
                                 lht_entries := lht_entries ht - 1\<rparr>"
  have ok: "chains_ok hc obj (lht_size ht) (lht_ptr ht)" "0 < lht_size ht"
    using inv by (simp_all add: lht_inv_def)
  then have slot: "slot < length (lht_ptr ht)"
    by (simp add: slot_def chains_ok_def lht_slot_less)
  have mem: "lr \<in> set (lht_ptr ht ! slot)"
    using lr ok chains_ok_member unfolding lht_records_def slot_def by metis
  then have run: "lock_hashtable_remove hc ht (obj lr) lr = Inr ht'"
    by (simp add: lock_hashtable_remove_def lht_unlink_found ht'_def slot_def Let_def)
  note upd = concat_update [OF slot] and split = concat_split [OF slot]
  have rec: "lht_records ht' = lht_records ht - {lr}"
    using dist mem unfolding lht_records_def ht'_def by (auto simp: upd split simp del: set_concat)
  have "lht_inv hc obj ht'"
    unfolding lht_inv_def
  proof (intro conjI)
    show "0 < lht_size ht'" using ok by (simp add: ht'_def)
    show "chains_ok hc obj (lht_size ht') (lht_ptr ht')"
      using ok slot by (auto simp: chains_ok_def ht'_def nth_list_update dest: notin_set_remove1)
    show "inj_on obj (lht_records ht')"
      using inv by (auto simp: rec lht_inv_def intro: inj_on_subset)
    obtain n where "length (lht_ptr ht ! slot) = Suc n"
      using mem by (cases "lht_ptr ht ! slot") auto
    then show "lht_entries ht' = length (concat (lht_ptr ht'))"
      using inv mem by (simp add: ht'_def lht_inv_def upd split length_remove1)
  qed
  with run rec show thesis using that by blast
qed

section \<open>The interface\<close>

interpretation lht: keyed_table "lht_inv hc obj" "lht_lookup hc obj" "lht_enter hc obj" obj
  for hc :: "'o \<Rightarrow> u4" and obj :: "'r \<Rightarrow> 'o"
proof unfold_locales
  fix s :: "'r lock_hashtable_t" and k e
  assume inv: "lht_inv hc obj s"
  show "lht_lookup hc obj s k = Some e \<Longrightarrow> obj e = k"
    using inv by (simp add: lht_lookup_iff)
  assume none: "lht_lookup hc obj s (obj e) = None"
  have fresh: "\<forall>lr' \<in> lht_records s. obj lr' \<noteq> obj e"
    using none lht_lookup_iff [OF inv] by (metis option.distinct(1))
  show inv': "lht_inv hc obj (lht_enter hc obj s e)"
    using inv fresh by (rule enter_records_inv)
  show "lht_lookup hc obj (lht_enter hc obj s e) = (lht_lookup hc obj s)(obj e \<mapsto> e)"
  proof
    fix k'
    have "lht_lookup hc obj (lht_enter hc obj s e) k' = Some r \<longleftrightarrow>
        ((lht_lookup hc obj s)(obj e \<mapsto> e)) k' = Some r" for r
      using lht_lookup_iff [OF inv] lht_lookup_iff [OF inv'] enter_records_inv(2) [OF inv fresh] fresh
      by auto
    then show "lht_lookup hc obj (lht_enter hc obj s e) k' = ((lht_lookup hc obj s)(obj e \<mapsto> e)) k'"
      by (metis not_Some_eq)
  qed
qed

end
