(* ===== verification/Monitor.thy ===== *)
theory Monitor
  imports Lockword LockTable
begin

text \<open>
  Java monitors (\<^verbatim>\<open>src/src/threads/lock.cpp\<close>, \<^verbatim>\<open>lockword.cpp\<close>): thin locks in the
  object header, inflation to lock records, and the flat-lock-contention (FLC) protocol by which a
  thread asks the holder of a thin lock to inflate it.

  The routines run concurrently, so each is cut into atomic steps at its accesses to memory that
  other threads write without holding a mutex: the lockword of an object and the FLC bit of a
  thread. What lies between two such accesses touches only data the thread holds a mutex for, its
  own fields, or a lock record that no other thread uses while this thread owns the monitor. The
  program counter \<open>pc\<close> of a thread names the point it has reached, with the locals of the
  routine as arguments.

  \<^item> A thread is named by its index (\<open>t->index\<close>), an object by a number; \<open>None\<close> is \<open>NULL\<close>.
  \<^item> Lock records live in \<open>lr_heap\<close>, addressed by pointer. The address \<open>NEW(lock_record_t)\<close>
    returns is an argument of the step.
  \<^item> The FLC list, linked through \<open>flc_next\<close> in the source, is the list of the thread indices on it.
  \<^item> \<open>lr->count\<close> is a natural number: the 32-bit counter needs two thousand million nested enters
    to overflow.
\<close>

section \<open>State\<close>

type_synonym tid = nat
type_synonym objref = nat

text \<open>A recursive pthread mutex: its holder and how often the holder has locked it.\<close>

type_synonym mutex = "(tid \<times> nat) option"

record lock_record_t =
  lr_object :: "objref option"
  lr_owner :: "tid option"
  lr_count :: nat
  lr_mutex :: mutex
  lr_waiters :: "tid list"

record threadobject =
  th_thinlock :: uintptr_t
  flc_bit :: bool
  flc_list :: "tid list"
  flc_object :: "objref option"
  flc_lock :: mutex
  th_signaled :: bool
  th_interrupted :: bool

text \<open>What a routine does after \<open>notify_flc_waiters\<close> returns.\<close>

datatype cont = Return_true | Then_wait uintptr_t bool

datatype pc =
    Done "bool result"
  | Enter_retry objref
  | Enter_cas objref uintptr_t
  | Enter_failed objref uintptr_t
  | Enter_fat objref uintptr_t
  | Flc_start objref uintptr_t
  | Flc_lock objref tid
  | Flc_reread objref tid bool
  | Flc_wait objref tid
  | Exit_start objref
  | Exit_loaded objref uintptr_t
  | Exit_unlocked objref
  | Notify_flc objref cont
  | Notify_flc_loop objref "tid list" cont
  | Wait_start objref bool
  | Wait_loaded objref uintptr_t bool
  | Wait_record objref uintptr_t bool
  | Waiting objref uintptr_t nat bool
  | Wait_woken objref uintptr_t nat
  | Notify_start objref bool
  | Notify_loaded objref uintptr_t bool
  | Crashed vm_error

record vmstate =
  lockword :: "objref \<Rightarrow> uintptr_t"
  lr_heap :: "uintptr_t \<Rightarrow> lock_record_t option"
  lock_hashtable :: "uintptr_t lock_hashtable_t"
  threads :: "tid \<Rightarrow> threadobject"
  active :: "tid list"
  pcs :: "tid \<Rightarrow> pc"

text \<open>Events of the monitor as a Java program sees them: a nested or first enter, an exit, and the
  release and re-acquisition of a monitor held \<open>n\<close> times around a wait.\<close>

datatype event =
    Ev_enter tid objref
  | Ev_exit tid objref
  | Ev_wait_release tid objref nat
  | Ev_wait_acquire tid objref nat

text \<open>The outcome of a piece of code: it blocks on a mutex or a condition, it fails (a failed
  assertion or a wild pointer), or it runs.\<close>

datatype 'a run = Blocks | Fails vm_error | Runs 'a

fun run_bind :: "'a run \<Rightarrow> ('a \<Rightarrow> 'b run) \<Rightarrow> 'b run" where
  "run_bind Blocks f = Blocks"
| "run_bind (Fails e) f = Fails e"
| "run_bind (Runs x) f = f x"

lemma run_bind_Runs: "run_bind m f = Runs y \<longleftrightarrow> (\<exists>x. m = Runs x \<and> f x = Runs y)"
  by (cases m) auto

definition set_pc :: "tid \<Rightarrow> pc \<Rightarrow> vmstate \<Rightarrow> vmstate" where
  "set_pc t p s = s\<lparr>pcs := (pcs s)(t := p)\<rparr>"

definition upd_thread :: "tid \<Rightarrow> (threadobject \<Rightarrow> threadobject) \<Rightarrow> vmstate \<Rightarrow> vmstate" where
  "upd_thread t f s = s\<lparr>threads := (threads s)(t := f (threads s t))\<rparr>"

definition set_lockword :: "objref \<Rightarrow> uintptr_t \<Rightarrow> vmstate \<Rightarrow> vmstate" where
  "set_lockword ob w s = s\<lparr>lockword := (lockword s)(ob := w)\<rparr>"

definition deref :: "vmstate \<Rightarrow> uintptr_t \<Rightarrow> lock_record_t run" where
  "deref s lr = (case lr_heap s lr of None \<Rightarrow> Fails (Vm_abort ''wild lock record'') | Some r \<Rightarrow> Runs r)"

definition set_lr :: "uintptr_t \<Rightarrow> lock_record_t \<Rightarrow> vmstate \<Rightarrow> vmstate" where
  "set_lr lr r s = s\<lparr>lr_heap := (lr_heap s)(lr \<mapsto> r)\<rparr>"

lemma set_pc_sel [simp]:
  "lockword (set_pc t p s) = lockword s" "lr_heap (set_pc t p s) = lr_heap s"
  "lock_hashtable (set_pc t p s) = lock_hashtable s" "threads (set_pc t p s) = threads s"
  "active (set_pc t p s) = active s" "pcs (set_pc t p s) = (pcs s)(t := p)"
  by (simp_all add: set_pc_def)

lemma upd_thread_sel [simp]:
  "lockword (upd_thread t f s) = lockword s" "lr_heap (upd_thread t f s) = lr_heap s"
  "lock_hashtable (upd_thread t f s) = lock_hashtable s"
  "threads (upd_thread t f s) = (threads s)(t := f (threads s t))"
  "active (upd_thread t f s) = active s" "pcs (upd_thread t f s) = pcs s"
  by (simp_all add: upd_thread_def)

lemma set_lockword_sel [simp]:
  "lockword (set_lockword ob w s) = (lockword s)(ob := w)" "lr_heap (set_lockword ob w s) = lr_heap s"
  "lock_hashtable (set_lockword ob w s) = lock_hashtable s"
  "threads (set_lockword ob w s) = threads s" "active (set_lockword ob w s) = active s"
  "pcs (set_lockword ob w s) = pcs s"
  by (simp_all add: set_lockword_def)

lemma set_lr_sel [simp]:
  "lockword (set_lr lr r s) = lockword s" "lr_heap (set_lr lr r s) = (lr_heap s)(lr \<mapsto> r)"
  "lock_hashtable (set_lr lr r s) = lock_hashtable s"
  "threads (set_lr lr r s) = threads s" "active (set_lr lr r s) = active s"
  "pcs (set_lr lr r s) = pcs s"
  by (simp_all add: set_lr_def)

section \<open>Mutexes\<close>

definition mutex_lock :: "tid \<Rightarrow> mutex \<Rightarrow> mutex run" where
  "mutex_lock t m = (case m of None \<Rightarrow> Runs (Some (t, 1))
     | Some (u, n) \<Rightarrow> if u = t then Runs (Some (u, n + 1)) else Blocks)"

definition mutex_unlock :: "tid \<Rightarrow> mutex \<Rightarrow> mutex run" where
  "mutex_unlock t m = (case m of None \<Rightarrow> Fails (Vm_abort ''pthread_mutex_unlock failed'')
     | Some (u, n) \<Rightarrow> if u \<noteq> t then Fails (Vm_abort ''pthread_mutex_unlock failed'')
                      else Runs (if n = 1 then None else Some (u, n - 1)))"

section \<open>Lock records\<close>

definition lock_record_new :: lock_record_t where
  "lock_record_new =
     \<lparr> lr_object = None, lr_owner = None, lr_count = 0, lr_mutex = None, lr_waiters = [] \<rparr>"

definition lock_record_free :: "uintptr_t \<Rightarrow> vmstate \<Rightarrow> vmstate" where
  "lock_record_free lr s = s\<lparr>lr_heap := (lr_heap s)(lr := None)\<rparr>"

text \<open>The object of a record as the hash table reads it.\<close>

definition lr_obj :: "(uintptr_t \<Rightarrow> lock_record_t option) \<Rightarrow> uintptr_t \<Rightarrow> objref option" where
  "lr_obj h lr = (case h lr of None \<Rightarrow> None | Some r \<Rightarrow> lr_object r)"

text \<open>\<open>hc\<close> is \<open>heap_hashcode\<close>; \<open>newlr\<close> is the address a new record gets.\<close>

definition lock_hashtable_get ::
  "(objref option \<Rightarrow> u4) \<Rightarrow> uintptr_t \<Rightarrow> objref \<Rightarrow> vmstate \<Rightarrow> vmstate \<times> uintptr_t" where
  "lock_hashtable_get hc newlr ob s =
     (let lw_cache = lockword s ob
      in if is_fat_lock lw_cache then (s, get_fat_lock lw_cache)
         else case lht_lookup hc (lr_obj (lr_heap s)) (lock_hashtable s) (Some ob) of
                Some lr \<Rightarrow> (s, lr)
              | None \<Rightarrow>
                  (let s1 = set_lr newlr (lock_record_new\<lparr>lr_object := Some ob\<rparr>) s
                   in (s1\<lparr>lock_hashtable :=
                            lht_enter hc (lr_obj (lr_heap s1)) (lock_hashtable s1) newlr\<rparr>, newlr)))"

definition lock_record_enter :: "tid \<Rightarrow> uintptr_t \<Rightarrow> vmstate \<Rightarrow> vmstate run" where
  "lock_record_enter t lr s =
     run_bind (deref s lr) (\<lambda>r. run_bind (mutex_lock t (lr_mutex r))
       (\<lambda>m. Runs (set_lr lr (r\<lparr>lr_mutex := m, lr_owner := Some t\<rparr>) s)))"

definition lock_record_exit :: "tid \<Rightarrow> uintptr_t \<Rightarrow> vmstate \<Rightarrow> vmstate run" where
  "lock_record_exit t lr s =
     run_bind (deref s lr) (\<lambda>r. run_bind (mutex_unlock t (lr_mutex r))
       (\<lambda>m. Runs (set_lr lr (r\<lparr>lr_owner := None, lr_mutex := m\<rparr>) s)))"

text \<open>\<open>Lockword::inflate\<close>, called through \<open>lock_inflate\<close> or directly.\<close>

definition lock_inflate :: "tid \<Rightarrow> objref \<Rightarrow> uintptr_t \<Rightarrow> vmstate \<Rightarrow> vmstate run" where
  "lock_inflate t ob lr s =
     (let lw = lockword s ob
      in if is_fat_lock lw then (if get_fat_lock lw = lr then Runs s else Fails Assertion_failed)
         else if get_thin_lock_without_count lw \<noteq> th_thinlock (threads s t) then Fails Assertion_failed
         else run_bind (deref s lr) (\<lambda>r.
           Runs (set_lockword ob (lw_set_record lr)
             (set_lr lr (r\<lparr>lr_count := nat (sint (get_thin_lock_count lw))\<rparr>) s))))"

text \<open>The three places that inflate (count overflow, FLC notification, wait) do so by fetching the
  record, entering it and installing it.\<close>

definition get_enter_inflate ::
  "(objref option \<Rightarrow> u4) \<Rightarrow> uintptr_t \<Rightarrow> tid \<Rightarrow> objref \<Rightarrow> vmstate \<Rightarrow> (vmstate \<times> uintptr_t) run" where
  "get_enter_inflate hc newlr t ob s =
     (case lock_hashtable_get hc newlr ob s of (s1, lr) \<Rightarrow>
        run_bind (lock_record_enter t lr s1) (\<lambda>s2.
          run_bind (lock_inflate t ob lr s2) (\<lambda>s3. Runs (s3, lr))))"

definition lr_add_count :: "uintptr_t \<Rightarrow> vmstate \<Rightarrow> vmstate run" where
  "lr_add_count lr s = run_bind (deref s lr) (\<lambda>r. Runs (set_lr lr (r\<lparr>lr_count := lr_count r + 1\<rparr>) s))"

section \<open>Flat lock contention\<close>

text \<open>\<open>ThreadList::get_thread_by_index\<close> on the active, started threads.\<close>

definition get_thread_by_index :: "vmstate \<Rightarrow> s4 \<Rightarrow> tid option" where
  "get_thread_by_index s index = (if unat index \<in> set (active s) then Some (unat index) else None)"

definition sable_flc_start :: "uintptr_t \<Rightarrow> tid \<Rightarrow> objref \<Rightarrow> vmstate \<Rightarrow> vmstate run" where
  "sable_flc_start lw_cache t ob s =
     (case get_thread_by_index s (get_thin_lock_thread_index lw_cache) of
        None \<Rightarrow> Runs (set_pc t (Enter_retry ob) s)
      | Some t_other \<Rightarrow> Runs (set_pc t (Flc_lock ob t_other) s))"

definition sable_flc_lock :: "tid \<Rightarrow> tid \<Rightarrow> objref \<Rightarrow> vmstate \<Rightarrow> vmstate run" where
  "sable_flc_lock t_other t ob s =
     run_bind (mutex_lock t (flc_lock (threads s t_other))) (\<lambda>m.
       Runs (set_pc t (Flc_reread ob t_other (flc_bit (threads s t_other)))
         (upd_thread t_other (\<lambda>x. x\<lparr>flc_lock := m, flc_bit := True\<rparr>) s)))"

text \<open>With the mutex held and the bit set, the lockword is read again; if it still names the same
  thread, the current thread enqueues itself and waits, which releases the mutex.\<close>

definition sable_flc_reread :: "tid \<Rightarrow> bool \<Rightarrow> tid \<Rightarrow> objref \<Rightarrow> vmstate \<Rightarrow> vmstate run" where
  "sable_flc_reread t_other old_flc t ob s =
     (let lw_cache = lockword s ob
      in run_bind (mutex_unlock t (flc_lock (threads s t_other))) (\<lambda>m.
           if is_thin_lock lw_cache \<and> unat (get_thin_lock_thread_index lw_cache) = t_other
           then Runs (set_pc t (Flc_wait ob t_other)
                  (upd_thread t_other (\<lambda>x. x\<lparr>flc_list := t # flc_list x, flc_lock := m\<rparr>)
                    (upd_thread t (\<lambda>x. x\<lparr>flc_object := Some ob\<rparr>) s)))
           else Runs (set_pc t (Enter_retry ob)
                  (upd_thread t_other (\<lambda>x. x\<lparr>flc_bit := old_flc, flc_lock := m\<rparr>) s))))"

text \<open>A wake-up, possibly spurious, in the waiting loop: the condition re-acquires the mutex, and
  the loop either ends or waits again.\<close>

definition sable_flc_wake :: "tid \<Rightarrow> tid \<Rightarrow> objref \<Rightarrow> vmstate \<Rightarrow> vmstate run" where
  "sable_flc_wake t_other t ob s =
     run_bind (mutex_lock t (flc_lock (threads s t_other))) (\<lambda>m.
       if flc_object (threads s t) = None then Runs (set_pc t (Enter_retry ob) s)
       else if flc_bit (threads s t_other) then Runs s
       else Fails Assertion_failed)"

definition notify_flc_begin :: "tid \<Rightarrow> objref \<Rightarrow> cont \<Rightarrow> vmstate \<Rightarrow> vmstate run" where
  "notify_flc_begin t ob k s =
     run_bind (mutex_lock t (flc_lock (threads s t))) (\<lambda>m.
       Runs (set_pc t (Notify_flc_loop ob (flc_list (threads s t)) k)
         (upd_thread t (\<lambda>x. x\<lparr>flc_lock := m\<rparr>) s)))"

definition notify_flc_iter ::
  "(objref option \<Rightarrow> u4) \<Rightarrow> uintptr_t \<Rightarrow> tid \<Rightarrow> objref \<Rightarrow> tid \<Rightarrow> tid list \<Rightarrow> cont \<Rightarrow> vmstate \<Rightarrow> vmstate run" where
  "notify_flc_iter hc newlr t ob current rest k s =
     run_bind
       (if flc_object (threads s current) \<noteq> Some ob then
          (case flc_object (threads s current) of
             None \<Rightarrow> Fails (Vm_abort ''null object'')
           | Some ob' \<Rightarrow>
               if is_thin_lock (lockword s ob')
               then run_bind (get_enter_inflate hc newlr t ob' s) (\<lambda>(s', lr). Runs s')
               else Runs s)
        else Runs s)
       (\<lambda>s1. Runs (set_pc t (Notify_flc_loop ob rest k)
          (upd_thread current (\<lambda>x. x\<lparr>flc_object := None\<rparr>) s1)))"

definition notify_flc_end :: "tid \<Rightarrow> objref \<Rightarrow> cont \<Rightarrow> vmstate \<Rightarrow> vmstate run" where
  "notify_flc_end t ob k s =
     run_bind (mutex_unlock t (flc_lock (threads s t))) (\<lambda>m.
       Runs (set_pc t (case k of Return_true \<Rightarrow> Done (Inr True) | Then_wait lr timed \<Rightarrow> Wait_record ob lr timed)
         (upd_thread t (\<lambda>x. x\<lparr>flc_list := [], flc_bit := False, flc_lock := m\<rparr>) s)))"

section \<open>Entering and leaving a monitor\<close>

definition enter_read :: "tid \<Rightarrow> objref \<Rightarrow> vmstate \<Rightarrow> vmstate run" where
  "enter_read t ob s = Runs (set_pc t (Enter_cas ob (lockword s ob)) s)"

definition enter_cas :: "tid \<Rightarrow> objref \<Rightarrow> uintptr_t \<Rightarrow> vmstate \<Rightarrow> (vmstate \<times> event list) run" where
  "enter_cas t ob lw_cache s =
     (let (lw', res) = lw_lock (lockword s ob) (th_thinlock (threads s t)); s1 = set_lockword ob lw' s
      in if res then Runs (set_pc t (Done (Inr True)) s1, [Ev_enter t ob])
         else Runs (set_pc t (Enter_failed ob lw_cache) s1, []))"

definition enter_failed ::
  "(objref option \<Rightarrow> u4) \<Rightarrow> uintptr_t \<Rightarrow> tid \<Rightarrow> objref \<Rightarrow> uintptr_t \<Rightarrow> vmstate \<Rightarrow> (vmstate \<times> event list) run" where
  "enter_failed hc newlr t ob lw_cache s =
     (if get_thin_lock_without_count lw_cache = th_thinlock (threads s t) then
        (if \<not> is_max_thin_lock_count lw_cache then
           (case increase_thin_lock_count (lockword s ob) of
              Inl e \<Rightarrow> Fails e
            | Inr lw' \<Rightarrow> Runs (set_pc t (Done (Inr True)) (set_lockword ob lw' s), [Ev_enter t ob]))
         else
           run_bind (get_enter_inflate hc newlr t ob s) (\<lambda>(s1, lr).
             run_bind (lr_add_count lr s1) (\<lambda>s2.
               Runs (set_pc t (Notify_flc ob Return_true) s2, [Ev_enter t ob]))))
      else if is_fat_lock lw_cache then
        (let lr = get_fat_lock lw_cache
         in run_bind (deref s lr) (\<lambda>r.
              if lr_owner r = Some t then
                run_bind (lr_add_count lr s) (\<lambda>s1.
                  Runs (set_pc t (Done (Inr True)) s1, [Ev_enter t ob]))
              else Runs (set_pc t (Enter_fat ob lr) s, [])))
      else Runs (set_pc t (Flc_start ob lw_cache) s, []))"

definition enter_fat :: "tid \<Rightarrow> objref \<Rightarrow> uintptr_t \<Rightarrow> vmstate \<Rightarrow> (vmstate \<times> event list) run" where
  "enter_fat t ob lr s =
     run_bind (lock_record_enter t lr s) (\<lambda>s1.
       run_bind (deref s1 lr) (\<lambda>r.
         if lr_count r = 0 then Runs (set_pc t (Done (Inr True)) s1, [Ev_enter t ob])
         else Fails Assertion_failed))"

definition exit_read :: "tid \<Rightarrow> objref \<Rightarrow> vmstate \<Rightarrow> vmstate run" where
  "exit_read t ob s = Runs (set_pc t (Exit_loaded ob (lockword s ob)) s)"

definition exit_loaded :: "tid \<Rightarrow> objref \<Rightarrow> uintptr_t \<Rightarrow> vmstate \<Rightarrow> (vmstate \<times> event list) run" where
  "exit_loaded t ob lw_cache s =
     (if get_thin_lock lw_cache = th_thinlock (threads s t) then
        Runs (set_pc t (Exit_unlocked ob) (set_lockword ob (lw_unlock (lockword s ob)) s), [Ev_exit t ob])
      else if get_thin_lock_without_count lw_cache = th_thinlock (threads s t) then
        (case decrease_thin_lock_count (lockword s ob) of
           Inl e \<Rightarrow> Fails e
         | Inr lw' \<Rightarrow> Runs (set_pc t (Done (Inr True)) (set_lockword ob lw' s), [Ev_exit t ob]))
      else if is_fat_lock lw_cache then
        (let lr = get_fat_lock lw_cache
         in run_bind (deref s lr) (\<lambda>r.
              if lr_owner r \<noteq> Some t then
                Runs (set_pc t (Done (Inl IllegalMonitorStateException)) s, [])
              else if lr_count r \<noteq> 0 then
                Runs (set_pc t (Done (Inr True)) (set_lr lr (r\<lparr>lr_count := lr_count r - 1\<rparr>) s),
                      [Ev_exit t ob])
              else run_bind (lock_record_exit t lr s) (\<lambda>s1.
                Runs (set_pc t (Done (Inr True)) s1, [Ev_exit t ob]))))
      else Runs (set_pc t (Done (Inl IllegalMonitorStateException)) s, []))"

definition exit_check_flc :: "tid \<Rightarrow> objref \<Rightarrow> vmstate \<Rightarrow> vmstate run" where
  "exit_check_flc t ob s =
     Runs (set_pc t (if flc_bit (threads s t) then Notify_flc ob Return_true else Done (Inr True)) s)"

section \<open>Wait and notify\<close>

definition lock_record_add_waiter :: "tid \<Rightarrow> lock_record_t \<Rightarrow> lock_record_t" where
  "lock_record_add_waiter t r = r\<lparr>lr_waiters := lr_waiters r @ [t]\<rparr>"

definition lock_record_remove_waiter :: "tid \<Rightarrow> lock_record_t \<Rightarrow> lock_record_t" where
  "lock_record_remove_waiter t r = r\<lparr>lr_waiters := removeAll t (lr_waiters r)\<rparr>"

definition wait_read :: "tid \<Rightarrow> objref \<Rightarrow> bool \<Rightarrow> vmstate \<Rightarrow> vmstate run" where
  "wait_read t ob timed s = Runs (set_pc t (Wait_loaded ob (lockword s ob) timed) s)"

definition wait_loaded ::
  "(objref option \<Rightarrow> u4) \<Rightarrow> uintptr_t \<Rightarrow> tid \<Rightarrow> objref \<Rightarrow> uintptr_t \<Rightarrow> bool \<Rightarrow> vmstate \<Rightarrow> vmstate run" where
  "wait_loaded hc newlr t ob lw_cache timed s =
     (if is_fat_lock lw_cache then
        (let lr = get_fat_lock lw_cache
         in run_bind (deref s lr) (\<lambda>r.
              if lr_owner r \<noteq> Some t
              then Runs (set_pc t (Done (Inl IllegalMonitorStateException)) s)
              else Runs (set_pc t (Wait_record ob lr timed) s)))
      else if get_thin_lock_without_count lw_cache \<noteq> th_thinlock (threads s t) then
        Runs (set_pc t (Done (Inl IllegalMonitorStateException)) s)
      else run_bind (get_enter_inflate hc newlr t ob s) (\<lambda>(s1, lr).
        Runs (set_pc t (Notify_flc ob (Then_wait lr timed)) s1)))"

text \<open>\<open>lock_record_wait\<close> up to the point where the monitor is released, the wait itself, and the
  part after the thread was notified, interrupted or timed out. \<open>expired\<close> says that the current
  time is past the wake-up time.\<close>

definition lock_record_wait_release ::
  "tid \<Rightarrow> objref \<Rightarrow> uintptr_t \<Rightarrow> bool \<Rightarrow> vmstate \<Rightarrow> (vmstate \<times> event list) run" where
  "lock_record_wait_release t ob lr timed s =
     run_bind (deref s lr) (\<lambda>r.
       let lockcount = lr_count r; r1 = (lock_record_add_waiter t r)\<lparr>lr_count := 0\<rparr>
       in run_bind (lock_record_exit t lr (set_lr lr r1 s)) (\<lambda>s1.
            Runs (set_pc t (Waiting ob lr lockcount timed) s1, [Ev_wait_release t ob (lockcount + 1)])))"

definition threads_wait_with_timeout ::
  "bool \<Rightarrow> tid \<Rightarrow> objref \<Rightarrow> uintptr_t \<Rightarrow> nat \<Rightarrow> bool \<Rightarrow> vmstate \<Rightarrow> vmstate run" where
  "threads_wait_with_timeout expired t ob lr lockcount timed s =
     (if th_interrupted (threads s t) \<or> th_signaled (threads s t) \<or> (timed \<and> expired)
      then Runs (set_pc t (Wait_woken ob lr lockcount) s)
      else Blocks)"

definition lock_record_wait_reenter ::
  "tid \<Rightarrow> objref \<Rightarrow> uintptr_t \<Rightarrow> nat \<Rightarrow> vmstate \<Rightarrow> (vmstate \<times> event list) run" where
  "lock_record_wait_reenter t ob lr lockcount s =
     run_bind (lock_record_enter t lr s) (\<lambda>s1.
       run_bind (deref s1 lr) (\<lambda>r.
         let s2 = set_lr lr ((lock_record_remove_waiter t r)\<lparr>lr_count := lockcount\<rparr>) s1;
             th = threads s2 t;
             wasinterrupted = (\<not> th_signaled th \<and> th_interrupted th);
             s3 = upd_thread t (\<lambda>x. x\<lparr>th_interrupted := (th_signaled x \<and> th_interrupted x),
                                        th_signaled := False\<rparr>) s2
         in Runs (set_pc t (Done (if wasinterrupted then Inl InterruptedException else Inr True)) s3,
                  [Ev_wait_acquire t ob (lockcount + 1)])))"

fun lock_record_notify :: "bool \<Rightarrow> tid list \<Rightarrow> vmstate \<Rightarrow> vmstate" where
  "lock_record_notify one [] s = s"
| "lock_record_notify one (waiter # ws) s =
     (if th_signaled (threads s waiter) then lock_record_notify one ws s
      else let s1 = upd_thread waiter (\<lambda>x. x\<lparr>th_signaled := True\<rparr>) s
           in if one then s1 else lock_record_notify one ws s1)"

definition notify_read :: "tid \<Rightarrow> objref \<Rightarrow> bool \<Rightarrow> vmstate \<Rightarrow> vmstate run" where
  "notify_read t ob one s = Runs (set_pc t (Notify_loaded ob (lockword s ob) one) s)"

definition notify_loaded :: "tid \<Rightarrow> objref \<Rightarrow> uintptr_t \<Rightarrow> bool \<Rightarrow> vmstate \<Rightarrow> vmstate run" where
  "notify_loaded t ob lw_cache one s =
     (if is_fat_lock lw_cache then
        run_bind (deref s (get_fat_lock lw_cache)) (\<lambda>r.
          if lr_owner r \<noteq> Some t
          then Runs (set_pc t (Done (Inl IllegalMonitorStateException)) s)
          else Runs (set_pc t (Done (Inr True)) (lock_record_notify one (lr_waiters r) s)))
      else if get_thin_lock_without_count lw_cache \<noteq> th_thinlock (threads s t)
      then Runs (set_pc t (Done (Inl IllegalMonitorStateException)) s)
      else Runs (set_pc t (Done (Inr True)) s))"

definition lock_is_held_by_current_thread :: "tid \<Rightarrow> objref \<Rightarrow> vmstate \<Rightarrow> bool" where
  "lock_is_held_by_current_thread t ob s =
     (let lw_cache = lockword s ob
      in if is_fat_lock lw_cache
         then (case lr_heap s (get_fat_lock lw_cache) of None \<Rightarrow> False | Some r \<Rightarrow> lr_owner r = Some t)
         else get_thin_lock_without_count lw_cache = th_thinlock (threads s t))"

section \<open>Running a thread\<close>

definition quiet :: "vmstate run \<Rightarrow> (vmstate \<times> event list) run" where
  "quiet m = run_bind m (\<lambda>s. Runs (s, []))"

text \<open>One step of thread \<open>t\<close> from the point its program counter names.\<close>

definition exec ::
  "(objref option \<Rightarrow> u4) \<Rightarrow> uintptr_t \<Rightarrow> bool \<Rightarrow> tid \<Rightarrow> vmstate \<Rightarrow> (vmstate \<times> event list) run" where
  "exec hc newlr expired t s = (case pcs s t of
     Done r \<Rightarrow> Blocks
   | Enter_retry ob \<Rightarrow> quiet (enter_read t ob s)
   | Enter_cas ob lw \<Rightarrow> enter_cas t ob lw s
   | Enter_failed ob lw \<Rightarrow> enter_failed hc newlr t ob lw s
   | Enter_fat ob lr \<Rightarrow> enter_fat t ob lr s
   | Flc_start ob lw \<Rightarrow> quiet (sable_flc_start lw t ob s)
   | Flc_lock ob u \<Rightarrow> quiet (sable_flc_lock u t ob s)
   | Flc_reread ob u old \<Rightarrow> quiet (sable_flc_reread u old t ob s)
   | Flc_wait ob u \<Rightarrow> quiet (sable_flc_wake u t ob s)
   | Exit_start ob \<Rightarrow> quiet (exit_read t ob s)
   | Exit_loaded ob lw \<Rightarrow> exit_loaded t ob lw s
   | Exit_unlocked ob \<Rightarrow> quiet (exit_check_flc t ob s)
   | Notify_flc ob k \<Rightarrow> quiet (notify_flc_begin t ob k s)
   | Notify_flc_loop ob ws k \<Rightarrow> (case ws of
         [] \<Rightarrow> quiet (notify_flc_end t ob k s)
       | w # ws' \<Rightarrow> quiet (notify_flc_iter hc newlr t ob w ws' k s))
   | Wait_start ob timed \<Rightarrow> quiet (wait_read t ob timed s)
   | Wait_loaded ob lw timed \<Rightarrow> quiet (wait_loaded hc newlr t ob lw timed s)
   | Wait_record ob lr timed \<Rightarrow> lock_record_wait_release t ob lr timed s
   | Waiting ob lr n timed \<Rightarrow> quiet (threads_wait_with_timeout expired t ob lr n timed s)
   | Wait_woken ob lr n \<Rightarrow> lock_record_wait_reenter t ob lr n s
   | Notify_start ob one \<Rightarrow> quiet (notify_read t ob one s)
   | Notify_loaded ob lw one \<Rightarrow> quiet (notify_loaded t ob lw one s)
   | Crashed e \<Rightarrow> Blocks)"

text \<open>The calls a Java program makes; entering or leaving the monitor of \<open>null\<close> throws.\<close>

datatype call = Call_enter "objref option" | Call_exit "objref option"
  | Call_wait objref bool | Call_notify objref bool

fun call_pc :: "call \<Rightarrow> pc" where
  "call_pc (Call_enter None) = Done (Inl NullPointerException)"
| "call_pc (Call_enter (Some ob)) = Enter_retry ob"
| "call_pc (Call_exit None) = Done (Inl NullPointerException)"
| "call_pc (Call_exit (Some ob)) = Exit_start ob"
| "call_pc (Call_wait ob timed) = Wait_start ob timed"
| "call_pc (Call_notify ob one) = Notify_start ob one"

definition lock_notify_object :: "objref \<Rightarrow> call" where
  "lock_notify_object ob = Call_notify ob True"

definition lock_notify_all_object :: "objref \<Rightarrow> call" where
  "lock_notify_all_object ob = Call_notify ob False"

definition threads_thread_interrupt :: "tid \<Rightarrow> vmstate \<Rightarrow> vmstate" where
  "threads_thread_interrupt t s = upd_thread t (\<lambda>x. x\<lparr>th_interrupted := True\<rparr>) s"

text \<open>An address \<open>NEW\<close> may return: not in use, and aligned, so that the shape bit is free.\<close>

definition fresh_lr :: "vmstate \<Rightarrow> uintptr_t \<Rightarrow> bool" where
  "fresh_lr s p \<longleftrightarrow> lr_heap s p = None \<and> get_fat_lock p = p"

inductive lstep :: "(objref option \<Rightarrow> u4) \<Rightarrow> vmstate \<Rightarrow> event list \<Rightarrow> vmstate \<Rightarrow> bool" for hc where
  lstep_call: "t \<in> set (active s) \<Longrightarrow> pcs s t = Done r \<Longrightarrow> lstep hc s [] (set_pc t (call_pc c) s)"
| lstep_run: "t \<in> set (active s) \<Longrightarrow> fresh_lr s newlr \<Longrightarrow>
    exec hc newlr expired t s = Runs (s', evs) \<Longrightarrow> lstep hc s evs s'"
| lstep_fail: "t \<in> set (active s) \<Longrightarrow> fresh_lr s newlr \<Longrightarrow>
    exec hc newlr expired t s = Fails e \<Longrightarrow> lstep hc s [] (set_pc t (Crashed e) s)"
| lstep_interrupt: "t \<in> set (active s) \<Longrightarrow> lstep hc s [] (threads_thread_interrupt t s)"

text \<open>The threads that run are those with the given indices; nothing is locked, and no record
  exists.\<close>

definition init_thread :: "tid \<Rightarrow> threadobject" where
  "init_thread t = \<lparr> th_thinlock = pre_compute_thinlock (word_of_nat t), flc_bit = False,
     flc_list = [], flc_object = None, flc_lock = None, th_signaled = False, th_interrupted = False \<rparr>"

definition init_state :: "tid list \<Rightarrow> vmstate" where
  "init_state ts = \<lparr> lockword = (\<lambda>_. THIN_UNLOCKED), lr_heap = (\<lambda>_. None),
     lock_hashtable = lock_hashtable_init, threads = init_thread, active = ts,
     pcs = (\<lambda>_. Done (Inr True)) \<rparr>"

inductive reach :: "(objref option \<Rightarrow> u4) \<Rightarrow> tid list \<Rightarrow> event list \<Rightarrow> vmstate \<Rightarrow> bool" for hc ts where
  reach_init: "reach hc ts [] (init_state ts)"
| reach_step: "reach hc ts tr s \<Longrightarrow> lstep hc s evs s' \<Longrightarrow> reach hc ts (tr @ evs) s'"

inductive_cases lstep_elim: "lstep hc s evs s'"

end
