(* ===== verification/MonitorInv.thy ===== *)
theory MonitorInv
  imports Monitor
begin

text \<open>
  The invariant of the monitor protocol. \<open>mem_inv\<close> says what lockwords, lock records and the lock
  record table look like; \<open>pc_mem\<close> and \<open>pc_flc\<close> say what a thread may rely on at each program
  point, and \<open>flc_inv\<close> says who is on whose FLC list. A step of one thread changes the memory only
  as \<open>guar\<close> allows, which is what the facts of every other thread are stable under.
\<close>

section \<open>The shapes of a lockword\<close>

datatype lview = Free | Thin tid nat | Fat uintptr_t

fun word_of :: "lview \<Rightarrow> uintptr_t" where
  "word_of Free = 0"
| "word_of (Thin t c) = thinword t c"
| "word_of (Fat lr) = lw_set_record lr"

text \<open>Thread indices that fit the thin lock, and record addresses that leave the shape bit free.\<close>

fun view_ok :: "lview \<Rightarrow> bool" where
  "view_ok Free \<longleftrightarrow> True"
| "view_ok (Thin t c) \<longleftrightarrow> 0 < t \<and> t < 2 ^ 22 \<and> c < 256"
| "view_ok (Fat lr) \<longleftrightarrow> get_fat_lock lr = lr"

lemma small_idx: "t < 2 ^ 22 \<Longrightarrow> t < (2::nat) ^ 55" "t < 2 ^ 22 \<Longrightarrow> t < (2::nat) ^ 31"
  by simp_all

lemma get_fat_even: "get_fat_lock lr = lr \<Longrightarrow> even lr"
proof -
  have "even (get_fat_lock lr)"
    by (simp add: get_fat_lock_def lockword_consts even_and_iff even_not_iff)
  then show "get_fat_lock lr = lr \<Longrightarrow> even lr" by simp
qed

lemma zero_thinword: "0 = thinword 0 0"
  by (simp add: thinword_def)

lemma is_fat_word_of: "is_fat_lock (word_of v) \<longleftrightarrow> (\<exists>lr. v = Fat lr)"
  using thinword_is_thin(2) [of 0 0]
  by (cases v) (auto simp: thinword_is_thin set_record_is_fat simp flip: zero_thinword)

lemma is_thin_word_of: "is_thin_lock (word_of v) \<longleftrightarrow> (\<forall>lr. v \<noteq> Fat lr)"
  by (simp add: thin_or_fat is_fat_word_of)

lemma get_fat_word_of: "view_ok (Fat lr) \<Longrightarrow> get_fat_lock (word_of (Fat lr)) = lr"
  by (simp add: get_set_record get_fat_even)

lemma without_count_fat_odd: "is_fat_lock lw \<Longrightarrow> odd (get_thin_lock_without_count lw)"
proof -
  assume "is_fat_lock lw"
  then have "bit lw 0"
    by (simp add: is_fat_lock_def lockword_consts and_one_eq bit_0 even_iff_mod_2_eq_zero)
  then have "bit (get_thin_lock_without_count lw) 0"
    by (simp add: get_thin_lock_without_count_def bit_and_iff bit_not_iff bit_count_mask)
  then show ?thesis by (simp add: bit_0)
qed

text \<open>The comparison by which every routine decides whether the current thread holds the thin
  lock.\<close>

lemma owner_test:
  assumes "view_ok v" "0 < t" "t < 2 ^ 22"
  shows "get_thin_lock_without_count (word_of v) = thinword t 0 \<longleftrightarrow> (\<exists>c. v = Thin t c)"
proof (cases v)
  case Free
  have "get_thin_lock_without_count (thinword 0 0) = thinword 0 0"
    by (rule thinword_without_count) simp_all
  moreover have "thinword 0 0 \<noteq> thinword t 0"
    using assms by (simp add: thinword_inj small_idx)
  ultimately show ?thesis using Free by (simp flip: zero_thinword)
next
  case (Thin i c)
  then show ?thesis
    using assms by (auto simp: thinword_without_count thinword_inj small_idx)
next
  case (Fat lr)
  then show ?thesis
    using without_count_fat_odd [of "word_of v"] even_thinword [of t 0]
    by (auto simp: set_record_is_fat)
qed

lemma word_of_inj:
  assumes "view_ok v" "view_ok w"
  shows "word_of v = word_of w \<longleftrightarrow> v = w"
proof
  assume eq: "word_of v = word_of w"
  show "v = w"
  proof (cases "\<exists>lr. v = Fat lr")
    case True
    then show ?thesis
      using eq assms is_fat_word_of [of v] is_fat_word_of [of w] get_fat_word_of
      by (metis view_ok.simps(3))
  next
    case False
    then have nf: "\<not> is_fat_lock (word_of w)" using eq is_fat_word_of by metis
    show ?thesis
    proof (cases v)
      case Free
      then show ?thesis
        using eq assms nf by (cases w) (auto simp: zero_thinword thinword_inj set_record_is_fat)
    next
      case (Thin t c)
      then show ?thesis
        using eq assms nf by (cases w) (auto simp: zero_thinword thinword_inj set_record_is_fat)
    qed (use False in simp)
  qed
qed simp

lemma thin_lock_eq:
  assumes "view_ok v" "0 < t" "t < 2 ^ 22"
  shows "get_thin_lock (word_of v) = thinword t 0 \<longleftrightarrow> v = Thin t 0"
  using word_of_inj [OF assms(1), of "Thin t 0"] assms by (simp add: get_thin_lock_def)

lemma index_test:
  assumes "view_ok v" "0 < t"
  shows "is_thin_lock (word_of v) \<and> unat (get_thin_lock_thread_index (word_of v)) = t
    \<longleftrightarrow> (\<exists>c. v = Thin t c)"
proof (cases v)
  case Free
  have "get_thin_lock_thread_index (thinword 0 0) = word_of_nat 0" by (rule thinword_index) simp_all
  then show ?thesis using Free assms by (simp flip: zero_thinword)
next
  case (Thin i c)
  then show ?thesis using assms
    by (auto simp: thinword_index thinword_is_thin small_idx unat_of_nat_small)
qed (simp add: set_record_is_fat)

lemma unat_index_thin:
  "view_ok (Thin t c) \<Longrightarrow> unat (get_thin_lock_thread_index (thinword t c)) = t"
  using index_test [of "Thin t c" t] by simp

section \<open>Who holds a monitor\<close>

text \<open>The abstract owner of an object's monitor and how often it has entered it.\<close>

definition holder_of :: "uintptr_t \<Rightarrow> (uintptr_t \<Rightarrow> lock_record_t option) \<Rightarrow> (tid \<times> nat) option" where
  "holder_of lw h =
     (if is_fat_lock lw
      then (case h (get_fat_lock lw) of None \<Rightarrow> None
            | Some r \<Rightarrow> map_option (\<lambda>t. (t, lr_count r + 1)) (lr_owner r))
      else if lw = 0 then None
      else Some (unat (get_thin_lock_thread_index lw), nat (sint (get_thin_lock_count lw)) + 1))"

definition holder :: "vmstate \<Rightarrow> objref \<Rightarrow> (tid \<times> nat) option" where
  "holder s ob = holder_of (lockword s ob) (lr_heap s)"

definition owns :: "vmstate \<Rightarrow> tid \<Rightarrow> objref \<Rightarrow> bool" where
  "owns s t ob \<longleftrightarrow> (\<exists>n. holder s ob = Some (t, n))"

lemma holder_of_Free [simp]: "holder_of 0 h = None"
  using is_fat_word_of [of Free] by (simp add: holder_of_def)

lemma holder_of_thin: "view_ok (Thin t c) \<Longrightarrow> holder_of (thinword t c) h = Some (t, c + 1)"
  using word_of_inj [of "Thin t c" Free]
  by (simp add: holder_of_def unat_index_thin thinword_is_thin thinword_count)

lemma holder_of_fat:
  "view_ok (Fat lr) \<Longrightarrow> h lr = Some r \<Longrightarrow>
    holder_of (lw_set_record lr) h = map_option (\<lambda>t. (t, lr_count r + 1)) (lr_owner r)"
  using get_fat_word_of [of lr] by (simp add: holder_of_def set_record_is_fat)

section \<open>Well-formed memory\<close>

definition valid_view :: "vmstate \<Rightarrow> objref \<Rightarrow> lview \<Rightarrow> bool" where
  "valid_view s ob v \<longleftrightarrow> view_ok v \<and>
     (case v of Free \<Rightarrow> True | Thin t c \<Rightarrow> t \<in> set (active s)
      | Fat lr \<Rightarrow> lr_obj (lr_heap s) lr = Some ob)"

definition rec_ok :: "vmstate \<Rightarrow> uintptr_t \<Rightarrow> lock_record_t \<Rightarrow> bool" where
  "rec_ok s lr r \<longleftrightarrow> get_fat_lock lr = lr \<and>
     (\<exists>ob. lr_object r = Some ob \<and> (lr_owner r \<noteq> None \<longrightarrow> lockword s ob = lw_set_record lr)) \<and>
     lr_mutex r = map_option (\<lambda>t. (t, 1)) (lr_owner r) \<and>
     (lr_owner r = None \<longrightarrow> lr_count r = 0) \<and>
     (\<forall>t. lr_owner r = Some t \<longrightarrow> t \<in> set (active s))"

definition mem_inv :: "(objref option \<Rightarrow> u4) \<Rightarrow> vmstate \<Rightarrow> bool" where
  "mem_inv hc s \<longleftrightarrow>
     (\<forall>t \<in> set (active s). 0 < t \<and> t < 2 ^ 22 \<and> th_thinlock (threads s t) = thinword t 0) \<and>
     (\<forall>ob. \<exists>v. valid_view s ob v \<and> lockword s ob = word_of v) \<and>
     (\<forall>lr r. lr_heap s lr = Some r \<longrightarrow> rec_ok s lr r) \<and>
     lht_inv hc (lr_obj (lr_heap s)) (lock_hashtable s) \<and>
     lht_records (lock_hashtable s) = dom (lr_heap s)"

lemma mem_invD:
  assumes "mem_inv hc s"
  shows "t \<in> set (active s) \<Longrightarrow> 0 < t" "t \<in> set (active s) \<Longrightarrow> t < 2 ^ 22"
    "t \<in> set (active s) \<Longrightarrow> th_thinlock (threads s t) = thinword t 0"
    "lr_heap s lr = Some r \<Longrightarrow> rec_ok s lr r"
    "lht_inv hc (lr_obj (lr_heap s)) (lock_hashtable s)"
    "lht_records (lock_hashtable s) = dom (lr_heap s)"
  using assms by (auto simp: mem_inv_def)

lemma view_exists:
  assumes "mem_inv hc s"
  obtains v where "valid_view s ob v" "lockword s ob = word_of v"
  using assms unfolding mem_inv_def by blast

lemma valid_view_ok: "valid_view s ob v \<Longrightarrow> view_ok v"
  by (simp add: valid_view_def)

text \<open>Each object has at most one record, by the invariant of the table.\<close>

lemma record_unique:
  assumes "mem_inv hc s" "lr_heap s p = Some r" "lr_heap s q = Some r'" "lr_object r = lr_object r'"
  shows "p = q"
proof -
  have "inj_on (lr_obj (lr_heap s)) (dom (lr_heap s))"
    using mem_invD(5,6) [OF assms(1)] by (simp add: lht_inv_def)
  then show ?thesis using assms(2-4) by (auto simp: inj_on_def lr_obj_def dom_def)
qed

lemma view_Fat_record:
  assumes "mem_inv hc s" "lockword s ob = lw_set_record lr" "get_fat_lock lr = lr"
  obtains r where "lr_heap s lr = Some r" "lr_object r = Some ob" "rec_ok s lr r"
    "holder s ob = map_option (\<lambda>t. (t, lr_count r + 1)) (lr_owner r)"
proof -
  obtain v where v: "valid_view s ob v" "lockword s ob = word_of v" using assms view_exists by blast
  then have "v = Fat lr"
    using assms(2,3) word_of_inj [of v "Fat lr"] by (simp add: valid_view_ok)
  then have "lr_obj (lr_heap s) lr = Some ob" using v by (simp add: valid_view_def)
  then obtain r where r: "lr_heap s lr = Some r" "lr_object r = Some ob"
    by (auto simp: lr_obj_def split: option.splits)
  show thesis
    using that [OF r] r assms mem_invD(4) [OF assms(1)] by (simp add: holder_def holder_of_fat)
qed

lemma holder_view:
  assumes "mem_inv hc s" "valid_view s ob v" "lockword s ob = word_of v"
  shows "holder s ob = (case v of Free \<Rightarrow> None | Thin t c \<Rightarrow> Some (t, c + 1)
    | Fat lr \<Rightarrow> (case lr_heap s lr of None \<Rightarrow> None
        | Some r \<Rightarrow> map_option (\<lambda>t. (t, lr_count r + 1)) (lr_owner r)))"
  using assms
  by (cases v) (auto simp: holder_def valid_view_def holder_of_thin holder_of_fat lr_obj_def split: option.splits)

lemma holder_active:
  assumes "mem_inv hc s" "holder s ob = Some (t, n)"
  shows "t \<in> set (active s)"
proof -
  obtain v where v: "valid_view s ob v" "lockword s ob = word_of v" using assms view_exists by blast
  show ?thesis
  proof (cases v)
    case (Fat lr)
    then obtain r where "lr_heap s lr = Some r" "lr_owner r = Some t"
      using trans [OF holder_view [OF assms(1) v, symmetric] assms(2)]
      by (auto simp: map_option_eq_Some split: option.splits)
    then show ?thesis using mem_invD(4) [OF assms(1)] by (auto simp: rec_ok_def)
  qed (use holder_view [OF assms(1) v] assms(2) v(1) in \<open>auto simp: valid_view_def\<close>)
qed

section \<open>The changes a step makes to memory\<close>

lemma valid_view_cong:
  "active s' = active s \<Longrightarrow> lr_obj (lr_heap s') = lr_obj (lr_heap s) \<Longrightarrow> valid_view s' = valid_view s"
  by (simp add: valid_view_def fun_eq_iff split: lview.splits)

lemma rec_ok_cong: "active s' = active s \<Longrightarrow> lockword s' = lockword s \<Longrightarrow> rec_ok s' = rec_ok s"
  by (simp add: rec_ok_def fun_eq_iff)

lemma mem_inv_cong:
  assumes "mem_inv hc s" "lockword s' = lockword s" "lr_heap s' = lr_heap s" "active s' = active s"
    "lock_hashtable s' = lock_hashtable s" "\<And>t. th_thinlock (threads s' t) = th_thinlock (threads s t)"
  shows "mem_inv hc s'" "holder s' = holder s"
  using assms valid_view_cong [of s' s] rec_ok_cong [of s' s]
  by (simp_all add: mem_inv_def holder_def [abs_def])

lemma rec_ok_set_lockword:
  "rec_ok s lr r \<Longrightarrow> lr_object r \<noteq> Some ob \<or> lr_owner r = None \<Longrightarrow> rec_ok (set_lockword ob w s) lr r"
  by (auto simp: rec_ok_def)

text \<open>Writing an unlocked or thin lockword over an unlocked or thin one.\<close>

lemma set_thin_mem:
  assumes inv: "mem_inv hc s" and v: "lockword s ob = word_of v" "valid_view s ob v" "\<forall>lr. v \<noteq> Fat lr"
    and w: "valid_view s ob w" "\<forall>lr. w \<noteq> Fat lr"
  shows "mem_inv hc (set_lockword ob (word_of w) s)"
    and "holder (set_lockword ob (word_of w) s) =
      (holder s)(ob := (case w of Thin t c \<Rightarrow> Some (t, c + 1) | _ \<Rightarrow> None))"
proof -
  let ?s = "set_lockword ob (word_of w) s"
  have free: "lr_owner r = None" if "lr_heap s lr = Some r" "lr_object r = Some ob" for lr r
  proof (rule ccontr)
    assume "lr_owner r \<noteq> None"
    then have "word_of v = word_of (Fat lr)" "view_ok (Fat lr)"
      using mem_invD(4) [OF inv that(1)] that(2) v(1) by (auto simp: rec_ok_def)
    then show False using word_of_inj [of v "Fat lr"] v by (simp add: valid_view_ok)
  qed
  have "\<exists>x. valid_view ?s ob' x \<and> lockword ?s ob' = word_of x" for ob'
    using w view_exists [OF inv, of ob'] valid_view_cong [of ?s s]
    by (cases "ob' = ob") (simp_all, blast+)
  moreover have "rec_ok ?s lr r" if "lr_heap s lr = Some r" for lr r
    using mem_invD(4) [OF inv that] free [OF that] by (blast intro: rec_ok_set_lockword)
  ultimately show "mem_inv hc ?s"
    using inv by (simp add: mem_inv_def)
  show "holder ?s = (holder s)(ob := (case w of Thin t c \<Rightarrow> Some (t, c + 1) | _ \<Rightarrow> None))"
    using w by (auto simp: holder_def fun_eq_iff valid_view_def holder_of_thin split: lview.splits)
qed

text \<open>Changing a lock record in place.\<close>

lemma lr_obj_set_lr: "lr_object r' = lr_obj h lr \<Longrightarrow> lr_obj (h(lr \<mapsto> r')) = lr_obj h"
  by (auto simp: lr_obj_def fun_eq_iff)

lemma set_lr_mem:
  assumes inv: "mem_inv hc s" and r: "lr_heap s lr = Some r" "lr_object r' = lr_object r"
    and ok: "rec_ok s lr r'"
  shows "mem_inv hc (set_lr lr r' s)"
proof -
  have obj: "lr_obj ((lr_heap s)(lr \<mapsto> r')) = lr_obj (lr_heap s)"
    using r by (intro lr_obj_set_lr) (simp add: lr_obj_def)
  have "rec_ok (set_lr lr r' s) = rec_ok s" by (rule rec_ok_cong) simp_all
  moreover have "valid_view (set_lr lr r' s) = valid_view s" by (rule valid_view_cong) (simp_all add: obj)
  moreover have "dom ((lr_heap s)(lr \<mapsto> r')) = dom (lr_heap s)" using r by auto
  ultimately show ?thesis
    using inv ok unfolding mem_inv_def by (simp add: obj)
qed

lemma set_lr_holder:
  assumes inv: "mem_inv hc s" and lw: "lockword s ob = lw_set_record lr" "get_fat_lock lr = lr"
  shows "holder (set_lr lr r' s) = (holder s)(ob := map_option (\<lambda>t. (t, lr_count r' + 1)) (lr_owner r'))"
proof
  fix ob'
  obtain v where v: "valid_view s ob' v" "lockword s ob' = word_of v" using inv view_exists by blast
  show "holder (set_lr lr r' s) ob' =
      ((holder s)(ob := map_option (\<lambda>t. (t, lr_count r' + 1)) (lr_owner r'))) ob'"
  proof (cases "ob' = ob")
    case True
    then show ?thesis using lw by (simp add: holder_def holder_of_fat)
  next
    case False
    obtain r where "lr_heap s lr = Some r" "lr_object r = Some ob" using view_Fat_record [OF inv lw] by metis
    then have "v \<noteq> Fat lr" using v(1) False by (auto simp: valid_view_def lr_obj_def)
    then show ?thesis
      using v False get_fat_word_of is_fat_word_of [of v]
      by (cases v) (auto simp: holder_def holder_of_def valid_view_def)
  qed
qed

text \<open>Fetching the record of an object that is not inflated: the record exists afterwards, is in
  the table and is free.\<close>

lemma get_mem:
  assumes inv: "mem_inv hc s" and lw: "lockword s ob = word_of v" "valid_view s ob v" "\<forall>lr. v \<noteq> Fat lr"
    and fresh: "fresh_lr s newlr"
  obtains s1 lr r where "lock_hashtable_get hc newlr ob s = (s1, lr)" "mem_inv hc s1"
    "lr_heap s1 lr = Some r" "lr_object r = Some ob" "lr_owner r = None" "rec_ok s1 lr r"
    "lockword s1 = lockword s" "threads s1 = threads s" "active s1 = active s" "pcs s1 = pcs s"
    "holder s1 = holder s"
proof -
  let ?obj = "lr_obj (lr_heap s)"
  have nofat: "\<not> is_fat_lock (lockword s ob)" using lw by (simp add: is_fat_word_of)
  have owner: "lr_owner r = None" if "lr_heap s p = Some r" "lr_object r = Some ob" for p r
  proof (rule ccontr)
    assume "lr_owner r \<noteq> None"
    then have "lockword s ob = lw_set_record p" using mem_invD(4) [OF inv that(1)] that(2) by (auto simp: rec_ok_def)
    then show False using nofat by (simp add: set_record_is_fat)
  qed
  note tab = mem_invD(5,6) [OF inv]
  show thesis
  proof (cases "lht_lookup hc ?obj (lock_hashtable s) (Some ob)")
    case (Some lr)
    then have "lr \<in> dom (lr_heap s)" "?obj lr = Some ob"
      using lht_lookup_iff [OF tab(1)] tab(2) by simp_all
    then obtain r where r: "lr_heap s lr = Some r" "lr_object r = Some ob"
      by (auto simp: lr_obj_def)
    show thesis
    proof (rule that)
      show "lock_hashtable_get hc newlr ob s = (s, lr)"
        using Some nofat by (simp add: lock_hashtable_get_def)
    qed (use inv r owner [OF r] mem_invD(4) [OF inv r(1)] in simp_all)
  next
    case None
    define r where "r = lock_record_new\<lparr>lr_object := Some ob\<rparr>"
    let ?h = "(lr_heap s)(newlr \<mapsto> r)"
    define s1 where "s1 = (set_lr newlr r s)\<lparr>lock_hashtable := lht_enter hc (lr_obj ?h) (lock_hashtable s) newlr\<rparr>"
    have new: "lr_heap s newlr = None" "get_fat_lock newlr = newlr" using fresh by (simp_all add: fresh_lr_def)
    have objs: "\<forall>lr \<in> lht_records (lock_hashtable s). ?obj lr = lr_obj ?h lr"
      using new tab(2) by (auto simp: lr_obj_def)
    have newobj: "lr_obj ?h newlr = Some ob" by (simp add: lr_obj_def r_def)
    have inv': "lht_inv hc (lr_obj ?h) (lock_hashtable s)"
      using lht_inv_cong [OF objs] tab(1) by simp
    have look: "lht_lookup hc (lr_obj ?h) (lock_hashtable s) (Some ob) = None"
      using lht_lookup_cong [OF tab(1) objs] None by simp
    have ent: "lht_inv hc (lr_obj ?h) (lock_hashtable s1)"
      using lht.enter_invar [OF inv', of newlr] look newobj by (simp add: s1_def)
    have "\<forall>lr' \<in> lht_records (lock_hashtable s). lr_obj ?h lr' \<noteq> lr_obj ?h newlr"
      using look newobj lht_lookup_iff [OF inv'] by (metis option.distinct(1))
    then have recs: "lht_records (lock_hashtable s1) = dom ?h"
      using enter_records_inv(2) [OF inv'] tab(2) by (simp add: s1_def)
    have rec: "rec_ok s1 p q" if "?h p = Some q" for p q
    proof (cases "p = newlr")
      case True
      then show ?thesis using that new by (auto simp: rec_ok_def r_def lock_record_new_def)
    next
      case False
      then have "rec_ok s p q" using that mem_invD(4) [OF inv] by simp
      then show ?thesis by (simp add: rec_ok_def s1_def)
    qed
    have view: "valid_view s1 ob' w" if "valid_view s ob' w" for ob' w
      using that new by (auto simp: valid_view_def s1_def lr_obj_def split: lview.splits option.splits)
    have inv1: "mem_inv hc s1"
      unfolding mem_inv_def
    proof (intro conjI)
      show "\<forall>ob. \<exists>v. valid_view s1 ob v \<and> lockword s1 ob = word_of v"
        using inv view by (simp add: mem_inv_def s1_def) metis
    qed (use inv ent recs rec in \<open>simp_all add: mem_inv_def s1_def\<close>)
    have hold: "holder s1 ob' = holder s ob'" for ob'
    proof -
      obtain w where w: "valid_view s ob' w" "lockword s ob' = word_of w" using inv view_exists by blast
      then show ?thesis
        using holder_view [OF inv1 view [OF w(1)]] holder_view [OF inv w] new
        by (cases w) (auto simp: s1_def valid_view_def lr_obj_def)
    qed
    show thesis
    proof (rule that)
      show "lock_hashtable_get hc newlr ob s = (s1, newlr)"
        using None nofat by (simp add: lock_hashtable_get_def s1_def r_def Let_def)
      show "mem_inv hc s1" by (rule inv1)
      show "rec_ok s1 newlr r" by (rule rec) simp
      show "holder s1 = holder s" using hold by blast
    qed (simp_all add: s1_def r_def lock_record_new_def)
  qed
qed

text \<open>The owner of a thin lock inflates it: this neither blocks nor fails, and nobody's hold on a
  monitor changes.\<close>

lemma inflate_mem:
  assumes inv: "mem_inv hc s" and t: "t \<in> set (active s)"
    and lw: "lockword s ob = thinword t c" "c < 256" and fresh: "fresh_lr s newlr"
  obtains s3 lr r where "get_enter_inflate hc newlr t ob s = Runs (s3, lr)" "mem_inv hc s3"
    "get_fat_lock lr = lr" "lockword s3 = (lockword s)(ob := lw_set_record lr)"
    "threads s3 = threads s" "active s3 = active s" "pcs s3 = pcs s" "holder s3 = holder s"
    "lr_heap s3 lr = Some r" "lr_object r = Some ob" "lr_owner r = Some t" "lr_count r = c"
proof -
  have tok: "view_ok (Thin t c)" using mem_invD(1,2) [OF inv t] lw by simp
  have v: "valid_view s ob (Thin t c)" "lockword s ob = word_of (Thin t c)"
    using tok t lw by (simp_all add: valid_view_def)
  obtain s1 lr r where g: "lock_hashtable_get hc newlr ob s = (s1, lr)" "mem_inv hc s1"
    "lr_heap s1 lr = Some r" "lr_object r = Some ob" "lr_owner r = None" "rec_ok s1 lr r"
    "lockword s1 = lockword s" "threads s1 = threads s" "active s1 = active s" "pcs s1 = pcs s"
    "holder s1 = holder s"
    using get_mem [OF inv v(2,1) _ fresh] by blast
  have fat: "get_fat_lock lr = lr" and mtx: "lr_mutex r = None" and cnt: "lr_count r = 0"
    using g(5,6) by (simp_all add: rec_ok_def)
  define r2 where "r2 = r\<lparr>lr_mutex := Some (t, 1), lr_owner := Some t\<rparr>"
  define r3 where "r3 = r2\<lparr>lr_count := c\<rparr>"
  define s3 where "s3 = set_lockword ob (lw_set_record lr) (set_lr lr r3 (set_lr lr r2 s1))"
  have en: "lock_record_enter t lr s1 = Runs (set_lr lr r2 s1)"
    using g(3) mtx by (simp add: lock_record_enter_def deref_def mutex_lock_def r2_def)
  have "\<not> is_fat_lock (lockword s ob)" using lw thinword_is_thin by simp
  moreover have "get_thin_lock_without_count (lockword s ob) = thinword t 0"
    using lw tok by (simp add: thinword_without_count)
  moreover have "nat (sint (get_thin_lock_count (lockword s ob))) = c"
    using lw tok by (simp add: thinword_count)
  ultimately have infl: "lock_inflate t ob lr (set_lr lr r2 s1) = Runs s3"
    using mem_invD(3) [OF inv t] g(7,8)
    by (simp add: lock_inflate_def deref_def s3_def r3_def Let_def)
  have run: "get_enter_inflate hc newlr t ob s = Runs (s3, lr)"
    by (simp add: get_enter_inflate_def g(1) en infl)
  have heap3: "lr_heap s3 = (lr_heap s1)(lr \<mapsto> r3)" by (simp add: s3_def)
  have obj: "lr_obj ((lr_heap s1)(lr \<mapsto> r3)) = lr_obj (lr_heap s1)"
    using g(3) by (intro lr_obj_set_lr) (simp add: lr_obj_def r3_def r2_def)
  have view: "valid_view s3 ob' w" if "valid_view s1 ob' w" for ob' w
    using that valid_view_cong [of s3 s1] by (simp add: heap3 obj) (simp add: s3_def)
  have rec: "rec_ok s3 p q" if "lr_heap s3 p = Some q" for p q
  proof (cases "p = lr")
    case True
    then show ?thesis
      using that g(4,9) fat t by (auto simp: rec_ok_def heap3 s3_def r3_def r2_def)
  next
    case False
    then have q: "lr_heap s1 p = Some q" using that by (simp add: heap3)
    have "lr_object q \<noteq> Some ob" using record_unique [OF g(2) q g(3)] False g(4) by auto
    then show ?thesis using mem_invD(4) [OF g(2) q] by (auto simp: rec_ok_def s3_def)
  qed
  have "lr_obj (lr_heap s1) lr = Some ob" using g(3,4) by (simp add: lr_obj_def)
  then have "valid_view s3 ob (Fat lr)" using fat by (simp add: valid_view_def heap3 obj)
  moreover have "lockword s3 = (lockword s)(ob := lw_set_record lr)" by (simp add: s3_def g(7))
  ultimately have views: "\<exists>w. valid_view s3 ob' w \<and> lockword s3 ob' = word_of w" for ob'
    using view view_exists [OF g(2), of ob'] g(7)
    by (cases "ob' = ob") (simp, metis word_of.simps(3), simp, metis)
  have dom: "dom ((lr_heap s1)(lr \<mapsto> r3)) = dom (lr_heap s1)" using g(3) by auto
  have inv3: "mem_inv hc s3"
    unfolding mem_inv_def
  proof (intro conjI)
    show "\<forall>ob. \<exists>v. valid_view s3 ob v \<and> lockword s3 ob = word_of v" using views by blast
    show "\<forall>lr r. lr_heap s3 lr = Some r \<longrightarrow> rec_ok s3 lr r" using rec by blast
    show "lht_inv hc (lr_obj (lr_heap s3)) (lock_hashtable s3)"
      using mem_invD(5) [OF g(2)] by (simp add: heap3 obj) (simp add: s3_def)
    show "lht_records (lock_hashtable s3) = dom (lr_heap s3)"
      using mem_invD(6) [OF g(2)] by (simp only: heap3 dom) (simp add: s3_def)
  qed (use g(2) in \<open>simp_all add: mem_inv_def s3_def\<close>)
  have hold: "holder s3 ob' = holder s1 ob'" for ob'
  proof (cases "ob' = ob")
    case True
    have "holder s3 ob = Some (t, c + 1)"
      using holder_of_fat [of lr "lr_heap s3" r3] fat by (simp add: holder_def s3_def r3_def r2_def)
    moreover have "holder s1 ob = Some (t, c + 1)"
      using v(2) tok by (simp add: holder_def g(7) holder_of_thin)
    ultimately show ?thesis using True by simp
  next
    case False
    obtain w where w: "valid_view s1 ob' w" "lockword s1 ob' = word_of w" using g(2) view_exists by blast
    then have "w \<noteq> Fat lr" using False g(3,4) by (auto simp: valid_view_def lr_obj_def)
    then show ?thesis
      using holder_view [OF inv3 view [OF w(1)]] holder_view [OF g(2) w] w False
      by (cases w) (auto simp: s3_def)
  qed
  show thesis
  proof (rule that [OF run inv3 fat, of r3])
    show "holder s3 = holder s" using hold g(11) by auto
  qed (simp_all add: s3_def g r3_def r2_def)
qed

section \<open>What a thread may rely on\<close>

definition thin_held :: "vmstate \<Rightarrow> tid \<Rightarrow> objref \<Rightarrow> bool" where
  "thin_held s t ob \<longleftrightarrow> (\<exists>c < 256. lockword s ob = thinword t c)"

definition fat_at :: "vmstate \<Rightarrow> objref \<Rightarrow> uintptr_t \<Rightarrow> bool" where
  "fat_at s ob lr \<longleftrightarrow> get_fat_lock lr = lr \<and> lockword s ob = lw_set_record lr"

text \<open>A lockword read earlier is either the current one, or it was unlocked or the thin lock of
  another thread, and then this thread does not own the monitor: the comments on stale values in
  the source.\<close>

definition foreign :: "vmstate \<Rightarrow> tid \<Rightarrow> uintptr_t \<Rightarrow> bool" where
  "foreign s t lw \<longleftrightarrow> lw = 0 \<or> (\<exists>u c. lw = thinword u c \<and> u \<noteq> t \<and> u \<in> set (active s) \<and> c < 256)"

definition cached :: "vmstate \<Rightarrow> tid \<Rightarrow> objref \<Rightarrow> uintptr_t \<Rightarrow> bool" where
  "cached s t ob lw \<longleftrightarrow> lw = lockword s ob \<or> (\<not> owns s t ob \<and> foreign s t lw)"

fun cont_ok :: "vmstate \<Rightarrow> tid \<Rightarrow> objref \<Rightarrow> cont \<Rightarrow> bool" where
  "cont_ok s t ob Return_true \<longleftrightarrow> True"
| "cont_ok s t ob (Then_wait lr timed) \<longleftrightarrow> fat_at s ob lr \<and> owns s t ob"

fun pc_mem :: "vmstate \<Rightarrow> tid \<Rightarrow> pc \<Rightarrow> bool" where
  "pc_mem s t (Enter_cas ob lw) \<longleftrightarrow> cached s t ob lw"
| "pc_mem s t (Enter_failed ob lw) \<longleftrightarrow> cached s t ob lw"
| "pc_mem s t (Exit_loaded ob lw) \<longleftrightarrow> cached s t ob lw"
| "pc_mem s t (Wait_loaded ob lw timed) \<longleftrightarrow> cached s t ob lw"
| "pc_mem s t (Notify_loaded ob lw one) \<longleftrightarrow> cached s t ob lw"
| "pc_mem s t (Enter_fat ob lr) \<longleftrightarrow> fat_at s ob lr \<and> \<not> owns s t ob"
| "pc_mem s t (Flc_start ob lw) \<longleftrightarrow> foreign s t lw"
| "pc_mem s t (Flc_lock ob u) \<longleftrightarrow> u \<in> set (active s) \<and> u \<noteq> t"
| "pc_mem s t (Flc_reread ob u old) \<longleftrightarrow> u \<in> set (active s) \<and> u \<noteq> t"
| "pc_mem s t (Flc_wait ob u) \<longleftrightarrow> u \<in> set (active s) \<and> u \<noteq> t"
| "pc_mem s t (Notify_flc ob k) \<longleftrightarrow> cont_ok s t ob k"
| "pc_mem s t (Notify_flc_loop ob ws k) \<longleftrightarrow> cont_ok s t ob k"
| "pc_mem s t (Wait_record ob lr timed) \<longleftrightarrow> fat_at s ob lr \<and> owns s t ob"
| "pc_mem s t (Waiting ob lr n timed) \<longleftrightarrow> fat_at s ob lr \<and> \<not> owns s t ob"
| "pc_mem s t (Wait_woken ob lr n) \<longleftrightarrow> fat_at s ob lr \<and> \<not> owns s t ob"
| "pc_mem s t (Crashed e) \<longleftrightarrow> False"
| "pc_mem s t (Done r) \<longleftrightarrow> True"
| "pc_mem s t (Enter_retry ob) \<longleftrightarrow> True"
| "pc_mem s t (Exit_start ob) \<longleftrightarrow> True"
| "pc_mem s t (Exit_unlocked ob) \<longleftrightarrow> True"
| "pc_mem s t (Wait_start ob timed) \<longleftrightarrow> True"
| "pc_mem s t (Notify_start ob one) \<longleftrightarrow> True"

text \<open>What a step of thread \<open>t\<close> may do to memory: it overwrites only unlocked lockwords and its own
  thin locks, and it changes nobody else's hold on a monitor.\<close>

definition guar :: "tid \<Rightarrow> vmstate \<Rightarrow> vmstate \<Rightarrow> bool" where
  "guar t s s' \<longleftrightarrow> active s' = active s \<and>
     (\<forall>ob. lockword s' ob = lockword s ob \<or> lockword s ob = 0 \<or> thin_held s t ob) \<and>
     (\<forall>u ob. u \<noteq> t \<longrightarrow> owns s' u ob = owns s u ob) \<and>
     (\<forall>u. u \<noteq> t \<longrightarrow> pcs s' u = pcs s u)"

lemma guarD:
  assumes "guar t s s'"
  shows "active s' = active s"
    and "lockword s' ob = lockword s ob \<or> lockword s ob = 0 \<or> thin_held s t ob"
    and "u \<noteq> t \<Longrightarrow> owns s' u ob = owns s u ob" and "u \<noteq> t \<Longrightarrow> pcs s' u = pcs s u"
  using assms unfolding guar_def by blast+

lemma thin_held_holder:
  assumes "mem_inv hc s" "t \<in> set (active s)" "thin_held s t ob"
  obtains c where "c < 256" "lockword s ob = thinword t c" "view_ok (Thin t c)"
    "valid_view s ob (Thin t c)" "holder s ob = Some (t, c + 1)"
proof -
  obtain c where c: "c < 256" "lockword s ob = thinword t c" using assms(3) by (auto simp: thin_held_def)
  moreover from c have "view_ok (Thin t c)" using assms mem_invD(1,2) [OF assms(1,2)] by simp
  moreover from this have "holder s ob = Some (t, c + 1)" using c by (simp add: holder_def holder_of_thin)
  ultimately show thesis using that assms(2) by (simp add: valid_view_def)
qed

lemma thin_held_inj:
  assumes "mem_inv hc s" "t \<in> set (active s)" "u \<in> set (active s)" "thin_held s t ob" "thin_held s u ob"
  shows "t = u"
  using thin_held_holder [OF assms(1,2,4)] thin_held_holder [OF assms(1,3,5)]
  by (metis option.inject prod.inject)

lemma fat_not_thin: "lockword s ob = lw_set_record lr \<Longrightarrow> lockword s ob \<noteq> 0 \<and> \<not> thin_held s t ob"
  using set_record_is_fat(1) [of lr] thinword_is_thin(2) is_fat_word_of [of Free]
  by (auto simp: thin_held_def)

lemma fat_at_stable: "guar t s s' \<Longrightarrow> fat_at s ob lr \<Longrightarrow> fat_at s' ob lr"
  using guarD(2) [of t s s' ob] fat_not_thin [of s ob lr t] by (auto simp: fat_at_def)

lemma foreign_stable: "guar t s s' \<Longrightarrow> foreign s u lw \<Longrightarrow> foreign s' u lw"
  by (simp add: foreign_def guar_def)

lemma cached_stable:
  assumes inv: "mem_inv hc s" and g: "guar t s s'" "t \<in> set (active s)" "u \<noteq> t" and c: "cached s u ob lw"
  shows "cached s' u ob lw"
proof (cases "lw = lockword s' ob")
  case False
  have "\<not> owns s u ob \<and> foreign s u lw"
  proof (cases "lw = lockword s ob")
    case True
    then have "lockword s ob = 0 \<or> thin_held s t ob" using False guarD(2) [OF g(1), of ob] by simp
    then show ?thesis
    proof
      assume "lockword s ob = 0"
      then show ?thesis using True by (simp add: owns_def holder_def foreign_def)
    next
      assume "thin_held s t ob"
      then obtain c where "c < 256" "lockword s ob = thinword t c" "holder s ob = Some (t, c + 1)"
        using thin_held_holder [OF inv g(2)] by blast
      then show ?thesis using True g(2,3) by (auto simp: owns_def foreign_def)
    qed
  qed (use c in \<open>simp add: cached_def\<close>)
  then show ?thesis using guarD(3) [OF g(1,3)] foreign_stable [OF g(1)] by (simp add: cached_def)
qed (simp add: cached_def)

lemma pc_mem_stable:
  assumes "mem_inv hc s" "guar t s s'" "t \<in> set (active s)" "u \<noteq> t" "pc_mem s u p"
  shows "pc_mem s' u p"
proof -
  have cont: "cont_ok s' u ob k" if "cont_ok s u ob k" for ob k
    using that assms fat_at_stable [OF assms(2)] by (cases k) (auto simp: guar_def)
  have own: "owns s' u ob = owns s u ob" and act: "active s' = active s" for ob
    using assms by (auto simp: guar_def)
  show ?thesis
    using assms(5) cont cached_stable [OF assms(1-4)] fat_at_stable [OF assms(2)] foreign_stable [OF assms(2)]
    by (cases p) (auto simp: own act)
qed

lemma thin_held_stable:
  assumes mem: "mem_inv hc s" and g: "guar t s s'" and act: "t \<in> set (active s)" "u \<in> set (active s)"
    and ne: "u \<noteq> t" and th: "thin_held s u ob"
  shows "thin_held s' u ob"
proof -
  obtain c where "holder s ob = Some (u, c + 1)" using thin_held_holder [OF mem act(2) th] by blast
  then have "lockword s ob \<noteq> 0" by (auto simp: holder_def)
  moreover have "\<not> thin_held s t ob" using thin_held_inj [OF mem act] th ne by blast
  ultimately have "lockword s' ob = lockword s ob" using guarD(2) [OF g, of ob] by simp
  then show ?thesis using th by (simp add: thin_held_def)
qed

lemma is_fat_stable:
  assumes g: "guar t s s'" and f: "is_fat_lock (lockword s ob)"
  shows "is_fat_lock (lockword s' ob)"
proof -
  have "lockword s ob \<noteq> 0 \<and> \<not> thin_held s t ob"
    using f thinword_is_thin(2) is_fat_word_of [of Free] by (auto simp: thin_held_def)
  then show ?thesis using guarD(2) [OF g, of ob] f by simp
qed

section \<open>The FLC lists\<close>

text \<open>Thread \<open>w\<close> is on the FLC list of \<open>t\<close>: it is blocked on an object that \<open>t\<close> holds thin, or
  that \<open>t\<close> has just unlocked or inflated and will report.\<close>

definition entry_ok :: "vmstate \<Rightarrow> tid \<Rightarrow> tid \<Rightarrow> bool" where
  "entry_ok s t w \<longleftrightarrow> w \<in> set (active s) \<and> (\<exists>ob. pcs s w = Flc_wait ob t \<and>
     (case pcs s t of
        Notify_flc_loop ob1 ws k \<Rightarrow>
          (if w \<in> set ws
           then flc_object (threads s w) = Some ob \<and>
                (ob = ob1 \<or> thin_held s t ob \<or> is_fat_lock (lockword s ob))
           else flc_object (threads s w) = None)
      | p \<Rightarrow> flc_object (threads s w) = Some ob \<and>
             (thin_held s t ob \<or> p = Exit_unlocked ob \<or> (\<exists>k. p = Notify_flc ob k))))"

fun holds_flc :: "tid \<Rightarrow> tid \<Rightarrow> pc \<Rightarrow> bool" where
  "holds_flc u t (Flc_reread ob t' old) \<longleftrightarrow> t' = t"
| "holds_flc u t (Notify_flc_loop ob ws k) \<longleftrightarrow> u = t"
| "holds_flc u t _ \<longleftrightarrow> False"

definition flc_ok :: "vmstate \<Rightarrow> tid \<Rightarrow> bool" where
  "flc_ok s t \<longleftrightarrow> distinct (flc_list (threads s t)) \<and>
     (flc_list (threads s t) \<noteq> [] \<longrightarrow> flc_bit (threads s t)) \<and>
     (\<forall>w \<in> set (flc_list (threads s t)). entry_ok s t w) \<and>
     (case flc_lock (threads s t) of None \<Rightarrow> True
      | Some (u, n) \<Rightarrow> n = 1 \<and> u \<in> set (active s) \<and> holds_flc u t (pcs s u))"

fun pc_flc :: "vmstate \<Rightarrow> tid \<Rightarrow> pc \<Rightarrow> bool" where
  "pc_flc s t (Flc_reread ob u old) \<longleftrightarrow> flc_lock (threads s u) = Some (t, 1) \<and>
     flc_bit (threads s u) \<and> (flc_list (threads s u) \<noteq> [] \<longrightarrow> old)"
| "pc_flc s t (Flc_wait ob u) \<longleftrightarrow> flc_object (threads s t) = None \<or>
     (flc_object (threads s t) = Some ob \<and> t \<in> set (flc_list (threads s u)))"
| "pc_flc s t (Notify_flc_loop ob ws k) \<longleftrightarrow> flc_lock (threads s t) = Some (t, 1) \<and>
     distinct ws \<and> set ws \<subseteq> set (flc_list (threads s t))"
| "pc_flc s t _ \<longleftrightarrow> True"

definition linv :: "(objref option \<Rightarrow> u4) \<Rightarrow> vmstate \<Rightarrow> bool" where
  "linv hc s \<longleftrightarrow> mem_inv hc s \<and>
     (\<forall>t \<in> set (active s). pc_mem s t (pcs s t) \<and> pc_flc s t (pcs s t) \<and> flc_ok s t)"

definition same_flc :: "threadobject \<Rightarrow> threadobject \<Rightarrow> bool" where
  "same_flc a b \<longleftrightarrow> flc_bit a = flc_bit b \<and> flc_list a = flc_list b \<and> flc_object a = flc_object b \<and>
     flc_lock a = flc_lock b"

text \<open>Program points of a thread that is on no FLC list, holds no FLC mutex and owes no
  notification.\<close>

fun flc_free :: "pc \<Rightarrow> bool" where
  "flc_free (Flc_reread ob u old) \<longleftrightarrow> False"
| "flc_free (Flc_wait ob u) \<longleftrightarrow> False"
| "flc_free (Notify_flc_loop ob ws k) \<longleftrightarrow> False"
| "flc_free _ \<longleftrightarrow> True"

definition owes :: "pc \<Rightarrow> objref \<Rightarrow> bool" where
  "owes p ob \<longleftrightarrow> p = Exit_unlocked ob \<or> (\<exists>k. p = Notify_flc ob k)"

lemma entry_ok_other:
  "(\<And>ob ws k. pcs s t \<noteq> Notify_flc_loop ob ws k) \<Longrightarrow>
    entry_ok s t w \<longleftrightarrow> w \<in> set (active s) \<and> (\<exists>ob. pcs s w = Flc_wait ob t \<and>
     flc_object (threads s w) = Some ob \<and> (thin_held s t ob \<or> owes (pcs s t) ob))"
  by (cases "pcs s t") (auto simp: entry_ok_def owes_def)

lemma entry_ok_free:
  "flc_free (pcs s t) \<Longrightarrow> entry_ok s t w \<longleftrightarrow> w \<in> set (active s) \<and> (\<exists>ob. pcs s w = Flc_wait ob t \<and>
     flc_object (threads s w) = Some ob \<and> (thin_held s t ob \<or> owes (pcs s t) ob))"
  by (rule entry_ok_other) auto

lemma entry_ok_mono:
  assumes "entry_ok s t w" "active s' = active s" "pcs s' w = pcs s w" "pcs s' t = pcs s t"
    "flc_object (threads s' w) = flc_object (threads s w)"
    "\<And>ob. thin_held s t ob \<Longrightarrow> thin_held s' t ob"
    "\<And>ob. is_fat_lock (lockword s ob) \<Longrightarrow> is_fat_lock (lockword s' ob)"
  shows "entry_ok s' t w"
proof (cases "\<exists>ob ws k. pcs s t = Notify_flc_loop ob ws k")
  case True
  then obtain ob ws k where p: "pcs s t = Notify_flc_loop ob ws k" by blast
  then show ?thesis
    using assms(1,5-7) by (simp add: entry_ok_def assms(2-4)) (auto split: if_splits)
next
  case False
  then show ?thesis
    using assms(1,6) entry_ok_other [of s t w] entry_ok_other [of s' t w]
    by (simp add: assms(2-5)) blast
qed

text \<open>The same for the stepping thread, between points that are not in the notification loop.\<close>

lemma entry_ok_step:
  assumes "entry_ok s t w" "active s' = active s" "pcs s' w = pcs s w"
    "flc_object (threads s' w) = flc_object (threads s w)"
    "\<And>ob. thin_held s t ob \<Longrightarrow> thin_held s' t ob"
    "\<And>ob ws k. pcs s t \<noteq> Notify_flc_loop ob ws k" "\<And>ob ws k. pcs s' t \<noteq> Notify_flc_loop ob ws k"
    "\<And>ob. owes (pcs s t) ob \<Longrightarrow> owes (pcs s' t) ob"
  shows "entry_ok s' t w"
  using assms(1,5,8) entry_ok_other [of s t w, OF assms(6)] entry_ok_other [of s' t w, OF assms(7)]
  by (simp add: assms(2-4)) blast

text \<open>A step that leaves the FLC fields alone and starts and ends at such points keeps the FLC part
  of the invariant, provided every thin lock it gives up is one it now owes a notification for.\<close>

lemma flc_frame:
  assumes inv: "linv hc s" and t: "t \<in> set (active s)" and g: "guar t s s'"
    and same: "\<And>u. same_flc (threads s' u) (threads s u)"
    and free: "flc_free (pcs s t)" "flc_free (pcs s' t)"
    and thin: "\<And>ob. thin_held s t ob \<or> owes (pcs s t) ob \<Longrightarrow> flc_list (threads s t) = [] \<or> thin_held s' t ob \<or> owes (pcs s' t) ob"
    and u: "u \<in> set (active s)"
  shows "pc_flc s' u (pcs s' u)" "flc_ok s' u"
proof -
  have pcu: "pcs s' v = pcs s v" if "v \<noteq> t" for v using g that by (simp add: guar_def)
  have act: "active s' = active s" using g by (simp add: guar_def)
  have fl: "flc_bit (threads s' v) = flc_bit (threads s v)" "flc_list (threads s' v) = flc_list (threads s v)"
    "flc_object (threads s' v) = flc_object (threads s v)" "flc_lock (threads s' v) = flc_lock (threads s v)" for v
    using same by (simp_all add: same_flc_def)
  have mem: "mem_inv hc s" using inv by (simp add: linv_def)
  have old: "pc_flc s v (pcs s v)" "flc_ok s v" if "v \<in> set (active s)" for v
    using inv that by (simp_all add: linv_def)
  show "pc_flc s' u (pcs s' u)"
  proof (cases "u = t")
    case True
    then show ?thesis using free(2) by (cases "pcs s' t") auto
  next
    case False
    then show ?thesis using old(1) [OF u] by (cases "pcs s u") (auto simp: pcu fl)
  qed
  have thinu: "thin_held s' u ob" if "thin_held s u ob" "u \<noteq> t" for ob
    using thin_held_stable [OF mem g t u that(2,1)] .
  have fat: "is_fat_lock (lockword s' ob)" if "is_fat_lock (lockword s ob)" for ob
    using is_fat_stable [OF g that] .
  have entry: "entry_ok s' u w" if w: "w \<in> set (flc_list (threads s u))" for w
  proof -
    have e: "entry_ok s u w" using old(2) [OF u] w by (simp add: flc_ok_def)
    then have wt: "w \<noteq> t" using free(1) by (auto simp: entry_ok_def)
    show ?thesis
    proof (cases "u = t")
      case True
      then have "thin_held s' t ob \<or> owes (pcs s' t) ob" if "thin_held s t ob \<or> owes (pcs s t) ob" for ob
        using thin [OF that] w by auto
      then show ?thesis
        using True e free wt by (auto simp: entry_ok_free act pcu fl)
    next
      case False
      then show ?thesis
        using e thinu fat pcu [OF wt] pcu [OF False] fl(3) act by (intro entry_ok_mono [OF e]) simp_all
    qed
  qed
  have "holds_flc v u (pcs s' v)" if "flc_lock (threads s u) = Some (v, n)" for v n
  proof -
    have h: "holds_flc v u (pcs s v)" using old(2) [OF u] that by (simp add: flc_ok_def)
    then have "v \<noteq> t" using free(1) by (cases "pcs s t") auto
    then show ?thesis using h by (simp add: pcu)
  qed
  then show "flc_ok s' u"
    using old(2) [OF u] entry by (auto simp: flc_ok_def fl act split: option.splits)
qed

end
