(* ===== verification/MonitorSafety.thy ===== *)
theory MonitorSafety
  imports MonitorInv
begin

text \<open>
  Every step of every thread keeps the invariant, never fails, and is a step of the abstract
  monitor below. The abstract monitor knows only who holds each object and how often, and which
  threads are parked in a wait.
\<close>

section \<open>The abstract monitor\<close>

record amonitor =
  a_holder :: "objref \<Rightarrow> (tid \<times> nat) option"
  a_parked :: "tid \<Rightarrow> (objref \<times> nat) option"

fun amon :: "event \<Rightarrow> amonitor \<Rightarrow> amonitor option" where
  "amon (Ev_enter t ob) a = (case a_holder a ob of
     None \<Rightarrow> Some (a\<lparr>a_holder := (a_holder a)(ob \<mapsto> (t, 1))\<rparr>)
   | Some (u, n) \<Rightarrow> if u = t then Some (a\<lparr>a_holder := (a_holder a)(ob \<mapsto> (t, n + 1))\<rparr>) else None)"
| "amon (Ev_exit t ob) a = (case a_holder a ob of
     None \<Rightarrow> None
   | Some (u, n) \<Rightarrow> if u = t
       then Some (a\<lparr>a_holder := (a_holder a)(ob := (if n = 1 then None else Some (t, n - 1)))\<rparr>)
       else None)"
| "amon (Ev_wait_release t ob n) a =
     (if a_holder a ob = Some (t, n) \<and> a_parked a t = None
      then Some (a\<lparr>a_holder := (a_holder a)(ob := None), a_parked := (a_parked a)(t \<mapsto> (ob, n))\<rparr>)
      else None)"
| "amon (Ev_wait_acquire t ob n) a =
     (if a_holder a ob = None \<and> a_parked a t = Some (ob, n)
      then Some (a\<lparr>a_holder := (a_holder a)(ob \<mapsto> (t, n)), a_parked := (a_parked a)(t := None)\<rparr>)
      else None)"

fun amon_run :: "event list \<Rightarrow> amonitor \<Rightarrow> amonitor option" where
  "amon_run [] a = Some a"
| "amon_run (e # es) a = (case amon e a of None \<Rightarrow> None | Some a' \<Rightarrow> amon_run es a')"

fun parked_of :: "pc \<Rightarrow> (objref \<times> nat) option" where
  "parked_of (Waiting ob lr n timed) = Some (ob, n + 1)"
| "parked_of (Wait_woken ob lr n) = Some (ob, n + 1)"
| "parked_of _ = None"

definition abs_mon :: "vmstate \<Rightarrow> amonitor" where
  "abs_mon s = \<lparr> a_holder = holder s, a_parked = (\<lambda>t. parked_of (pcs s t)) \<rparr>"

lemma amon_run_append:
  "amon_run (es @ fs) a = (case amon_run es a of None \<Rightarrow> None | Some b \<Rightarrow> amon_run fs b)"
  by (induction es arbitrary: a) (auto split: option.splits)

fun good :: "(objref option \<Rightarrow> u4) \<Rightarrow> vmstate \<Rightarrow> (vmstate \<times> event list) run \<Rightarrow> bool" where
  "good hc s Blocks \<longleftrightarrow> True"
| "good hc s (Fails e) \<longleftrightarrow> False"
| "good hc s (Runs (s', evs)) \<longleftrightarrow>
     linv hc s' \<and> amon_run evs (abs_mon s) = Some (abs_mon s') \<and> active s' = active s"

lemma abs_mon_eqI:
  assumes "\<And>u. u \<noteq> t \<Longrightarrow> pcs s' u = pcs s u" "holder s' = h" "parked_of (pcs s' t) = q"
  shows "abs_mon s' = \<lparr> a_holder = h, a_parked = (\<lambda>t. parked_of (pcs s t))(t := q) \<rparr>"
  using assms by (auto simp: abs_mon_def fun_eq_iff)

section \<open>Putting a step together\<close>

lemma linvD:
  assumes "linv hc s"
  shows "mem_inv hc s" "t \<in> set (active s) \<Longrightarrow> pc_mem s t (pcs s t)"
    "t \<in> set (active s) \<Longrightarrow> pc_flc s t (pcs s t)" "t \<in> set (active s) \<Longrightarrow> flc_ok s t"
  using assms by (auto simp: linv_def)

lemma linv_intro:
  assumes "linv hc s" "t \<in> set (active s)" "mem_inv hc s'" "guar t s s'" "pc_mem s' t (pcs s' t)"
    "\<And>u. u \<in> set (active s) \<Longrightarrow> pc_flc s' u (pcs s' u) \<and> flc_ok s' u"
  shows "linv hc s'"
proof -
  have "pc_mem s' u (pcs s' u)" if "u \<in> set (active s)" for u
    using pc_mem_stable [OF linvD(1) [OF assms(1)] assms(4,2)] linvD(2) [OF assms(1) that]
      guarD(4) [OF assms(4)] assms(5) by (cases "u = t") auto
  then show ?thesis using assms(3,6) guarD(1) [OF assms(4)] by (simp add: linv_def)
qed

lemma linv_frame:
  assumes "linv hc s" "t \<in> set (active s)" "mem_inv hc s'" "guar t s s'" "pc_mem s' t (pcs s' t)"
    "\<And>u. same_flc (threads s' u) (threads s u)" "flc_free (pcs s t)" "flc_free (pcs s' t)"
    "\<And>ob. thin_held s t ob \<or> owes (pcs s t) ob \<Longrightarrow>
       flc_list (threads s t) = [] \<or> thin_held s' t ob \<or> owes (pcs s' t) ob"
  shows "linv hc s'"
proof (rule linv_intro [OF assms(1-5)])
  fix u assume "u \<in> set (active s)"
  then show "pc_flc s' u (pcs s' u) \<and> flc_ok s' u"
    by (intro conjI flc_frame [OF assms(1,2,4,6-8)] assms(9))
qed

lemma guar_intro:
  assumes "active s' = active s" "\<And>u. u \<noteq> t \<Longrightarrow> pcs s' u = pcs s u"
    "\<And>ob'. ob' \<noteq> ob \<Longrightarrow> lockword s' ob' = lockword s ob'"
    "lockword s' ob = lockword s ob \<or> lockword s ob = 0 \<or> thin_held s t ob"
    "holder s' = (holder s)(ob := x)" "\<And>u n. holder s ob = Some (u, n) \<Longrightarrow> u = t"
    "\<And>u n. x = Some (u, n) \<Longrightarrow> u = t"
  shows "guar t s s'"
  unfolding guar_def
proof (intro conjI allI impI)
  show "lockword s' ob' = lockword s ob' \<or> lockword s ob' = 0 \<or> thin_held s t ob'" for ob'
    using assms(3,4) by (cases "ob' = ob") auto
  show "owns s' u ob' = owns s u ob'" if "u \<noteq> t" for u ob'
    using assms(5-7) that by (cases "ob' = ob") (auto simp: owns_def)
qed (use assms in auto)

lemma guar_same:
  assumes "active s' = active s" "\<And>u. u \<noteq> t \<Longrightarrow> pcs s' u = pcs s u" "holder s' = holder s"
    "\<And>ob'. lockword s' ob' = lockword s ob' \<or> lockword s ob' = 0 \<or> thin_held s t ob'"
  shows "guar t s s'"
  using assms by (auto simp: guar_def owns_def)

lemma same_flc_refl [simp]: "same_flc x x"
  by (simp add: same_flc_def)

lemma set_pc_holder [simp]: "holder (set_pc t p s) = holder s"
  by (simp add: holder_def [abs_def])

lemma upd_thread_holder [simp]: "holder (upd_thread t f s) = holder s"
  by (simp add: holder_def [abs_def])

lemma set_pc_mem [simp]: "mem_inv hc (set_pc t p s) = mem_inv hc s"
  using mem_inv_cong(1) [of hc s "set_pc t p s"] mem_inv_cong(1) [of hc "set_pc t p s" s] by auto

lemma upd_thread_mem:
  "(\<And>x. th_thinlock (f x) = th_thinlock x) \<Longrightarrow> mem_inv hc (upd_thread t f s) = mem_inv hc s"
  using mem_inv_cong(1) [of hc s "upd_thread t f s"] mem_inv_cong(1) [of hc "upd_thread t f s" s]
  by auto

lemma pc_mem_cong:
  assumes "lockword s' = lockword s" "holder s' = holder s" "active s' = active s"
  shows "pc_mem s' t p = pc_mem s t p"
proof -
  have "owns s' = owns s" using assms by (simp add: owns_def [abs_def])
  moreover from this have "cached s' = cached s" "foreign s' = foreign s" "fat_at s' = fat_at s"
    using assms by (simp_all add: cached_def [abs_def] foreign_def [abs_def] fat_at_def [abs_def])
  moreover from calculation have "cont_ok s' t ob k = cont_ok s t ob k" for ob k by (cases k) simp_all
  ultimately show ?thesis using assms by (cases p) simp_all
qed

lemma set_pc_pc_mem [simp]: "pc_mem (set_pc t' p' s) t p = pc_mem s t p"
  by (rule pc_mem_cong) simp_all

lemma set_pc_views [simp]:
  "cont_ok (set_pc t' p s) t ob k = cont_ok s t ob k" "owns (set_pc t' p s) = owns s"
  "cached (set_pc t' p s) = cached s" "fat_at (set_pc t' p s) = fat_at s"
  "foreign (set_pc t' p s) = foreign s"
  using set_pc_pc_mem [of t' p s t "Notify_flc ob k"]
  by (cases k) (simp_all add: owns_def [abs_def] cached_def [abs_def] fat_at_def [abs_def] foreign_def [abs_def])

lemma thin_held_cong [simp]:
  "thin_held (set_pc t p s) = thin_held s" "thin_held (upd_thread t f s) = thin_held s"
  "thin_held (set_lr lr r s) = thin_held s"
  by (simp_all add: thin_held_def [abs_def])

text \<open>Steps that only move the program counter.\<close>

lemma good_set_pc:
  assumes "linv hc s" "t \<in> set (active s)" "flc_free (pcs s t)" "flc_free p" "pc_mem s t p"
    "\<And>ob. owes (pcs s t) ob \<Longrightarrow> flc_list (threads s t) = [] \<or> owes p ob"
    "parked_of p = parked_of (pcs s t)"
  shows "good hc s (Runs (set_pc t p s, []))"
proof -
  have "linv hc (set_pc t p s)"
    using assms linvD(1) [OF assms(1)]
    by (intro linv_frame [OF assms(1,2)] guar_same) auto
  moreover have "abs_mon (set_pc t p s) = abs_mon s"
    using assms(7) by (auto simp: abs_mon_def)
  ultimately show ?thesis by simp
qed

section \<open>Steps on lockwords and records\<close>

lemma cached_view:
  assumes "mem_inv hc s" "cached s t ob lw"
  obtains v where "lw = word_of v" "view_ok v"
    "lockword s ob = lw \<and> valid_view s ob v \<or>
     \<not> owns s t ob \<and> foreign s t lw \<and> (v = Free \<or> (\<exists>u c. v = Thin u c \<and> u \<noteq> t \<and> u \<in> set (active s)))"
proof (cases "lw = lockword s ob")
  case True
  obtain v where "valid_view s ob v" "lockword s ob = word_of v" using assms(1) view_exists by blast
  with True that show thesis by (simp add: valid_view_ok)
next
  case False
  then have c: "\<not> owns s t ob" "foreign s t lw" using assms(2) by (simp_all add: cached_def)
  then consider "lw = 0" | u c where "lw = thinword u c" "u \<noteq> t" "u \<in> set (active s)" "c < 256"
    by (auto simp: foreign_def)
  then show thesis
  proof cases
    case 1
    then show thesis using c by (intro that [of Free]) simp_all
  next
    case (2 u d)
    then show thesis using c mem_invD(1,2) [OF assms(1) 2(3)] by (intro that [of "Thin u d"]) simp_all
  qed
qed

text \<open>A step that writes a thin or unlocked word over an unlocked word or the thread's own thin
  lock.\<close>

lemma thin_step:
  assumes inv: "linv hc s" and t: "t \<in> set (active s)"
    and v: "lockword s ob = word_of v" "v = Free \<or> (\<exists>c < 256. v = Thin t c)"
    and w: "w = Free \<or> (\<exists>c < 256. w = Thin t c)"
    and p: "flc_free (pcs s t)" "flc_free p" "\<And>ob. \<not> owes (pcs s t) ob"
    and lost: "w = Free \<Longrightarrow> owes p ob"
    and pcm: "pc_mem (set_lockword ob (word_of w) s) t p"
  defines "s' \<equiv> set_pc t p (set_lockword ob (word_of w) s)"
  shows "linv hc s'" "holder s' = (holder s)(ob := (case w of Thin t c \<Rightarrow> Some (t, c + 1) | _ \<Rightarrow> None))"
proof -
  note mem = linvD(1) [OF inv] and idx = mem_invD(1,2) [OF linvD(1) [OF inv] t]
  have vv: "valid_view s ob v" "\<forall>lr. v \<noteq> Fat lr" and vw: "valid_view s ob w" "\<forall>lr. w \<noteq> Fat lr"
    using v(2) w idx t by (auto simp: valid_view_def)
  note m = set_thin_mem [OF mem v(1) vv vw]
  show h: "holder s' = (holder s)(ob := (case w of Thin t c \<Rightarrow> Some (t, c + 1) | _ \<Rightarrow> None))"
    using m(2) by (simp add: s'_def)
  have hob: "u = t" if "holder s ob = Some (u, n)" for u n
    using holder_view [OF mem vv(1) v(1)] that v(2) by auto
  have g: "guar t s s'"
  proof (rule guar_intro [OF _ _ _ _ h hob])
    show "lockword s' ob = lockword s ob \<or> lockword s ob = 0 \<or> thin_held s t ob"
      using v by (auto simp: thin_held_def)
  qed (use w in \<open>auto simp: s'_def\<close>)
  show "linv hc s'"
  proof (rule linv_frame [OF inv t _ g])
    show "mem_inv hc s'" using m(1) by (simp add: s'_def)
    fix ob' assume "thin_held s t ob' \<or> owes (pcs s t) ob'"
    then show "flc_list (threads s t) = [] \<or> thin_held s' t ob' \<or> owes (pcs s' t) ob'"
      using p(3) w lost by (auto simp: s'_def thin_held_def)
  qed (use p pcm in \<open>simp_all add: s'_def\<close>)
qed

text \<open>A step on the lock record of an inflated object that nobody else owns.\<close>

lemma fat_step:
  assumes inv: "linv hc s" and t: "t \<in> set (active s)" and fat: "fat_at s ob lr"
    and r: "lr_heap s lr = Some r" "lr_owner r = None \<or> lr_owner r = Some t"
    and r': "lr_object r' = lr_object r" "lr_owner r' = None \<or> lr_owner r' = Some t"
      "lr_mutex r' = map_option (\<lambda>t. (t, 1)) (lr_owner r')" "lr_owner r' = None \<Longrightarrow> lr_count r' = 0"
    and s': "lockword s' = lockword s" "lr_heap s' = (lr_heap s)(lr \<mapsto> r')"
      "lock_hashtable s' = lock_hashtable s" "active s' = active s" "pcs s' = (pcs s)(t := p)"
      "\<And>u. same_flc (threads s' u) (threads s u)"
      "\<And>u. th_thinlock (threads s' u) = th_thinlock (threads s u)"
    and p: "flc_free (pcs s t)" "flc_free p" "\<And>ob. \<not> owes (pcs s t) ob"
    and pcm: "pc_mem s' t p"
  shows "linv hc s'" "holder s' = (holder s)(ob := map_option (\<lambda>t. (t, lr_count r' + 1)) (lr_owner r'))"
proof -
  note mem = linvD(1) [OF inv]
  have fa: "lockword s ob = lw_set_record lr" "get_fat_lock lr = lr" using fat by (simp_all add: fat_at_def)
  obtain r0 where r0: "lr_heap s lr = Some r0" "lr_object r0 = Some ob" "rec_ok s lr r0"
    "holder s ob = map_option (\<lambda>t. (t, lr_count r0 + 1)) (lr_owner r0)"
    using view_Fat_record [OF mem fa] by metis
  then have eq: "r0 = r" using r by simp
  have ok': "rec_ok s lr r'" using r0 fa r' t by (auto simp: rec_ok_def eq)
  have m: "mem_inv hc s'"
    using s' by (intro mem_inv_cong(1) [OF set_lr_mem [OF mem r(1) r'(1) ok']]) simp_all
  have h0: "holder s' = holder (set_lr lr r' s)"
    using s' by (simp add: holder_def [abs_def])
  then show h: "holder s' = (holder s)(ob := map_option (\<lambda>t. (t, lr_count r' + 1)) (lr_owner r'))"
    using set_lr_holder [OF mem fa] by simp
  have g: "guar t s s'"
    by (rule guar_intro [OF _ _ _ _ h]) (use s' r r' r0(4) eq in auto)
  show "linv hc s'"
  proof (rule linv_frame [OF inv t m g])
    fix ob' assume "thin_held s t ob' \<or> owes (pcs s t) ob'"
    then show "flc_list (threads s t) = [] \<or> thin_held s' t ob' \<or> owes (pcs s' t) ob'"
      using p(3) s' by (auto simp: thin_held_def)
  qed (use p s' pcm in simp_all)
qed

text \<open>A step that inflates a thin lock of the thread and then owes a notification for it.\<close>

lemma inflate_step:
  assumes inv: "linv hc s" and t: "t \<in> set (active s)"
    and s3: "mem_inv hc s3" "get_fat_lock lr = lr" "lockword s3 = (lockword s)(ob := lw_set_record lr)"
      "threads s3 = threads s" "active s3 = active s" "pcs s3 = pcs s" "holder s3 = holder s"
    and th: "thin_held s t ob"
    and p: "flc_free (pcs s t)" "\<And>ob. \<not> owes (pcs s t) ob"
  shows "cont_ok s3 t ob k \<Longrightarrow> linv hc (set_pc t (Notify_flc ob k) s3)"
proof -
  assume k: "cont_ok s3 t ob k"
  let ?s = "set_pc t (Notify_flc ob k) s3"
  have g: "guar t s ?s" by (rule guar_same) (use s3 th in auto)
  show "linv hc ?s"
  proof (rule linv_frame [OF inv t _ g])
    fix ob' assume "thin_held s t ob' \<or> owes (pcs s t) ob'"
    then show "flc_list (threads s t) = [] \<or> thin_held ?s t ob' \<or> owes (pcs ?s t) ob'"
      using p(2) by (auto simp: thin_held_def owes_def s3(3))
  qed (use p s3 k in simp_all)
qed

section \<open>The steps, one by one\<close>

lemma set_lockword_id: "set_lockword ob (lockword s ob) s = s"
  by (simp add: set_lockword_def)

lemma enter_cas_good:
  assumes inv: "linv hc s" and t: "t \<in> set (active s)" and pc: "pcs s t = Enter_cas ob lw"
  shows "good hc s (enter_cas t ob lw s)"
proof -
  note mem = linvD(1) [OF inv] and idx = mem_invD(1-3) [OF linvD(1) [OF inv] t]
  have c: "cached s t ob lw" using linvD(2) [OF inv t] pc by simp
  show ?thesis
  proof (cases "lockword s ob = 0")
    case True
    let ?s = "set_pc t (Done (Inr True)) (set_lockword ob (word_of (Thin t 0)) s)"
    have run: "enter_cas t ob lw s = Runs (?s, [Ev_enter t ob])"
      using True idx by (simp add: enter_cas_def lw_lock_def compare_and_swap_def is_unlocked_def
          THIN_UNLOCKED_def)
    have st: "linv hc ?s" "holder ?s = (holder s)(ob := Some (t, 1))"
      using thin_step [OF inv t, of ob Free "Thin t 0" "Done (Inr True)"] True pc by (simp_all add: owes_def)
    have "holder s ob = None" using True by (simp add: holder_def)
    moreover have "abs_mon ?s = (abs_mon s)\<lparr>a_holder := (holder s)(ob \<mapsto> (t, 1))\<rparr>"
      using abs_mon_eqI [of t ?s s _ None] st pc by (auto simp: abs_mon_def)
    ultimately show ?thesis using run st(1) by (simp add: abs_mon_def)
  next
    case False
    have run: "enter_cas t ob lw s = Runs (set_pc t (Enter_failed ob lw) s, [])"
      using False by (simp add: enter_cas_def lw_lock_def compare_and_swap_def is_unlocked_def
          THIN_UNLOCKED_def set_lockword_id)
    show ?thesis
      unfolding run by (rule good_set_pc [OF inv t]) (use pc c in \<open>simp_all add: owes_def\<close>)
  qed
qed

text \<open>The branch of a routine that looks at the cached lockword and finds the thread's own thin
  lock.\<close>

lemma cached_own_thin:
  assumes mem: "mem_inv hc s" and t: "t \<in> set (active s)" and c: "cached s t ob lw"
    and test: "get_thin_lock_without_count lw = th_thinlock (threads s t)"
  obtains c where "lockword s ob = thinword t c" "lw = thinword t c" "c < 256"
    "view_ok (Thin t c)" "holder s ob = Some (t, c + 1)" "thin_held s t ob"
proof -
  note idx = mem_invD(1-3) [OF mem t]
  obtain v where v: "lw = word_of v" "view_ok v"
    "lockword s ob = lw \<and> valid_view s ob v \<or>
     \<not> owns s t ob \<and> foreign s t lw \<and> (v = Free \<or> (\<exists>u c. v = Thin u c \<and> u \<noteq> t \<and> u \<in> set (active s)))"
    using cached_view [OF mem c] by blast
  obtain n where n: "v = Thin t n" using owner_test [OF v(2) idx(1,2)] test v(1) idx(3) by auto
  then have "lockword s ob = thinword t n" "n < 256" using v by auto
  then show thesis
    using that [of n] v n by (auto simp: holder_def holder_of_thin thin_held_def)
qed

text \<open>The branch that finds an inflated lock.\<close>

lemma cached_fat:
  assumes mem: "mem_inv hc s" and c: "cached s t ob lw" and test: "is_fat_lock lw"
  obtains lr r where "lw = lw_set_record lr" "get_fat_lock lw = lr" "fat_at s ob lr"
    "lr_heap s lr = Some r" "lr_object r = Some ob" "rec_ok s lr r"
    "holder s ob = map_option (\<lambda>t. (t, lr_count r + 1)) (lr_owner r)"
proof -
  obtain v where v: "lw = word_of v" "view_ok v"
    "lockword s ob = lw \<and> valid_view s ob v \<or>
     \<not> owns s t ob \<and> foreign s t lw \<and> (v = Free \<or> (\<exists>u c. v = Thin u c \<and> u \<noteq> t \<and> u \<in> set (active s)))"
    using cached_view [OF mem c] by blast
  obtain lr where lr: "v = Fat lr" using test v(1) is_fat_word_of by auto
  then have a: "lockword s ob = lw_set_record lr" "get_fat_lock lr = lr" using v by auto
  obtain r where r: "lr_heap s lr = Some r" "lr_object r = Some ob" "rec_ok s lr r"
    "holder s ob = map_option (\<lambda>t. (t, lr_count r + 1)) (lr_owner r)"
    using view_Fat_record [OF mem a] by metis
  have "get_fat_lock lw = lr" using get_fat_word_of [of lr] v lr by simp
  with v lr a r show thesis by (intro that [of lr r]) (simp_all add: fat_at_def)
qed

text \<open>The remaining branch: the thread does not own the monitor.\<close>

lemma cached_not_own:
  assumes mem: "mem_inv hc s" and t: "t \<in> set (active s)" and c: "cached s t ob lw"
    and test: "get_thin_lock_without_count lw \<noteq> th_thinlock (threads s t)" "\<not> is_fat_lock lw"
  shows "\<not> owns s t ob" "foreign s t lw"
proof -
  note idx = mem_invD(1-3) [OF mem t]
  obtain v where v: "lw = word_of v" "view_ok v"
    "lockword s ob = lw \<and> valid_view s ob v \<or>
     \<not> owns s t ob \<and> foreign s t lw \<and> (v = Free \<or> (\<exists>u c. v = Thin u c \<and> u \<noteq> t \<and> u \<in> set (active s)))"
    using cached_view [OF mem c] by blast
  have nt: "\<forall>c. v \<noteq> Thin t c" "\<forall>lr. v \<noteq> Fat lr"
    using owner_test [OF v(2) idx(1,2)] test v(1) idx(3) is_fat_word_of by auto
  have "\<not> owns s t ob \<and> foreign s t lw"
  proof (cases "lockword s ob = lw \<and> valid_view s ob v")
    case True
    then show ?thesis
      using nt holder_view [OF mem, of ob v] v(1,2)
      by (cases v) (auto simp: owns_def foreign_def valid_view_def)
  qed (use v(3) in blast)
  then show "\<not> owns s t ob" "foreign s t lw" by simp_all
qed

lemma enter_failed_good:
  assumes inv: "linv hc s" and t: "t \<in> set (active s)" and pc: "pcs s t = Enter_failed ob lw"
    and fresh: "fresh_lr s newlr"
  shows "good hc s (enter_failed hc newlr t ob lw s)"
proof -
  note mem = linvD(1) [OF inv] and idx = mem_invD(1-3) [OF linvD(1) [OF inv] t]
  have c: "cached s t ob lw" using linvD(2) [OF inv t] pc by simp
  have np: "flc_free (pcs s t)" "\<And>ob. \<not> owes (pcs s t) ob" "parked_of (pcs s t) = None"
    using pc by (simp_all add: owes_def)
  consider (thin) "get_thin_lock_without_count lw = th_thinlock (threads s t)"
    | (fat) "get_thin_lock_without_count lw \<noteq> th_thinlock (threads s t)" "is_fat_lock lw"
    | (other) "get_thin_lock_without_count lw \<noteq> th_thinlock (threads s t)" "\<not> is_fat_lock lw"
    by blast
  then show ?thesis
  proof cases
    case thin
    obtain n where n: "lockword s ob = thinword t n" "lw = thinword t n" "n < 256"
      "view_ok (Thin t n)" "holder s ob = Some (t, n + 1)" "thin_held s t ob"
      using cached_own_thin [OF mem t c thin] by blast
    show ?thesis
    proof (cases "n = 255")
      case False
      let ?s = "set_pc t (Done (Inr True)) (set_lockword ob (word_of (Thin t (n + 1))) s)"
      have run: "enter_failed hc newlr t ob lw s = Runs (?s, [Ev_enter t ob])"
        using thin n False by (simp add: enter_failed_def is_max_thinword increase_thinword)
      have st: "linv hc ?s" "holder ?s = (holder s)(ob := Some (t, n + 2))"
        using thin_step [OF inv t, of ob "Thin t n" "Thin t (n + 1)" "Done (Inr True)"] n False np
        by simp_all
      have "abs_mon ?s = (abs_mon s)\<lparr>a_holder := (holder s)(ob \<mapsto> (t, n + 2))\<rparr>"
        using abs_mon_eqI [of t ?s s _ None] st np by (auto simp: abs_mon_def)
      then show ?thesis using run st(1) n(5) by (simp add: abs_mon_def)
    next
      case True
      obtain s3 lr r where g: "get_enter_inflate hc newlr t ob s = Runs (s3, lr)" "mem_inv hc s3"
        "get_fat_lock lr = lr" "lockword s3 = (lockword s)(ob := lw_set_record lr)"
        "threads s3 = threads s" "active s3 = active s" "pcs s3 = pcs s" "holder s3 = holder s"
        "lr_heap s3 lr = Some r" "lr_object r = Some ob" "lr_owner r = Some t" "lr_count r = n"
        using inflate_mem [OF mem t n(1,3) fresh] by metis
      define r' where "r' = r\<lparr>lr_count := lr_count r + 1\<rparr>"
      let ?s3 = "set_pc t (Enter_retry ob) s3"
      let ?s = "set_pc t (Notify_flc ob Return_true) (set_lr lr r' s3)"
      have run: "enter_failed hc newlr t ob lw s = Runs (?s, [Ev_enter t ob])"
        using thin n True g by (simp add: enter_failed_def is_max_thinword lr_add_count_def deref_def r'_def)
      have rk: "rec_ok s3 lr r'" using mem_invD(4) [OF g(2,9)] g(11) by (simp add: rec_ok_def r'_def)
      have lw3: "lockword s3 ob = lw_set_record lr" using g(4) by simp
      have m4: "mem_inv hc (set_lr lr r' s3)" by (rule set_lr_mem [OF g(2,9) _ rk]) (simp add: r'_def)
      have h4: "holder ?s = (holder s)(ob := Some (t, n + 2))"
        using set_lr_holder [OF g(2) lw3 g(3), of r'] g(8,11,12) by (simp add: r'_def)
      have gu: "guar t s ?s"
        by (rule guar_intro [OF _ _ _ _ h4]) (use g n in auto)
      have "linv hc ?s"
      proof (rule linv_frame [OF inv t _ gu])
        show "mem_inv hc ?s" using m4 by simp
        fix ob' assume "thin_held s t ob' \<or> owes (pcs s t) ob'"
        then show "flc_list (threads s t) = [] \<or> thin_held ?s t ob' \<or> owes (pcs ?s t) ob'"
          using np by (auto simp: thin_held_def owes_def g(4))
      qed (use np g in simp_all)
      moreover have "abs_mon ?s = (abs_mon s)\<lparr>a_holder := (holder s)(ob \<mapsto> (t, n + 2))\<rparr>"
        using abs_mon_eqI [of t ?s s _ None] h4 np g(7) by (auto simp: abs_mon_def)
      ultimately show ?thesis using run n(5) g(6) by (simp add: abs_mon_def)
    qed
  next
    case fat
    obtain lr r where f: "lw = lw_set_record lr" "get_fat_lock lw = lr" "fat_at s ob lr"
      "lr_heap s lr = Some r" "lr_object r = Some ob" "rec_ok s lr r"
      "holder s ob = map_option (\<lambda>t. (t, lr_count r + 1)) (lr_owner r)"
      using cached_fat [OF mem c fat(2)] by metis
    show ?thesis
    proof (cases "lr_owner r = Some t")
      case True
      define r' where "r' = r\<lparr>lr_count := lr_count r + 1\<rparr>"
      let ?s = "set_pc t (Done (Inr True)) (set_lr lr r' s)"
      have run: "enter_failed hc newlr t ob lw s = Runs (?s, [Ev_enter t ob])"
        using fat f True by (simp add: enter_failed_def deref_def lr_add_count_def r'_def Let_def)
      have st: "linv hc ?s" "holder ?s = (holder s)(ob := Some (t, lr_count r + 2))"
        using fat_step [OF inv t f(3,4), of r' ?s "Done (Inr True)"] True np f(6)
        by (simp_all add: r'_def rec_ok_def)
      have "abs_mon ?s = (abs_mon s)\<lparr>a_holder := (holder s)(ob \<mapsto> (t, lr_count r + 2))\<rparr>"
        using abs_mon_eqI [of t ?s s _ None] st np by (auto simp: abs_mon_def)
      then show ?thesis using run st(1) f(7) True by (simp add: abs_mon_def)
    next
      case False
      have run: "enter_failed hc newlr t ob lw s = Runs (set_pc t (Enter_fat ob lr) s, [])"
        using fat f False by (simp add: enter_failed_def deref_def Let_def)
      have "\<not> owns s t ob" using f(7) False by (auto simp: owns_def)
      then show ?thesis
        unfolding run using np f(3) by (intro good_set_pc [OF inv t]) simp_all
    qed
  next
    case other
    have run: "enter_failed hc newlr t ob lw s = Runs (set_pc t (Flc_start ob lw) s, [])"
      using other by (simp add: enter_failed_def)
    show ?thesis
      unfolding run using np cached_not_own [OF mem t c other] by (intro good_set_pc [OF inv t]) simp_all
  qed
qed

lemma fat_record:
  assumes "mem_inv hc s" "fat_at s ob lr"
  obtains r where "lr_heap s lr = Some r" "lr_object r = Some ob" "rec_ok s lr r"
    "holder s ob = map_option (\<lambda>t. (t, lr_count r + 1)) (lr_owner r)"
  using assms view_Fat_record [OF assms(1)] by (auto simp: fat_at_def)

text \<open>Entering the record of an inflated monitor blocks while another thread owns it, and then
  finds a free record.\<close>

lemma lock_record_enter_free:
  assumes "lr_heap s lr = Some r" "rec_ok s lr r" "lr_owner r \<noteq> Some t"
  shows "lock_record_enter t lr s =
    (if lr_owner r = None then Runs (set_lr lr (r\<lparr>lr_mutex := Some (t, 1), lr_owner := Some t\<rparr>) s)
     else Blocks)"
  using assms by (auto simp: lock_record_enter_def deref_def mutex_lock_def rec_ok_def)

lemma enter_fat_good:
  assumes inv: "linv hc s" and t: "t \<in> set (active s)" and pc: "pcs s t = Enter_fat ob lr"
  shows "good hc s (enter_fat t ob lr s)"
proof -
  note mem = linvD(1) [OF inv]
  have fa: "fat_at s ob lr" and no: "\<not> owns s t ob" using linvD(2) [OF inv t] pc by simp_all
  obtain r where r: "lr_heap s lr = Some r" "lr_object r = Some ob" "rec_ok s lr r"
    "holder s ob = map_option (\<lambda>t. (t, lr_count r + 1)) (lr_owner r)"
    using fat_record [OF mem fa] by metis
  have nt: "lr_owner r \<noteq> Some t" using no r(4) by (auto simp: owns_def)
  note en = lock_record_enter_free [OF r(1,3) nt]
  show ?thesis
  proof (cases "lr_owner r = None")
    case True
    define r' where "r' = r\<lparr>lr_mutex := Some (t, 1), lr_owner := Some t\<rparr>"
    let ?s = "set_pc t (Done (Inr True)) (set_lr lr r' s)"
    have z: "lr_count r = 0" using r(3) True by (simp add: rec_ok_def)
    have run: "enter_fat t ob lr s = Runs (?s, [Ev_enter t ob])"
      using en True z by (simp add: enter_fat_def deref_def r'_def)
    have st: "linv hc ?s" "holder ?s = (holder s)(ob := Some (t, 1))"
      using fat_step [OF inv t fa r(1), of r' ?s "Done (Inr True)"] True z pc
      by (simp_all add: r'_def owes_def)
    have "abs_mon ?s = (abs_mon s)\<lparr>a_holder := (holder s)(ob \<mapsto> (t, 1))\<rparr>"
      using abs_mon_eqI [of t ?s s _ None] st pc by (auto simp: abs_mon_def)
    then show ?thesis using run st(1) r(4) True by (simp add: abs_mon_def)
  qed (use en in \<open>auto simp: enter_fat_def\<close>)
qed

text \<open>A thread that does not own the monitor gets an exception and changes nothing.\<close>

lemma illegal_good:
  assumes "linv hc s" "t \<in> set (active s)" "flc_free (pcs s t)" "\<And>ob. \<not> owes (pcs s t) ob"
    "parked_of (pcs s t) = None"
  shows "good hc s (Runs (set_pc t (Done r) s, []))"
  using assms by (intro good_set_pc) simp_all

lemma exit_loaded_good:
  assumes inv: "linv hc s" and t: "t \<in> set (active s)" and pc: "pcs s t = Exit_loaded ob lw"
  shows "good hc s (exit_loaded t ob lw s)"
proof -
  note mem = linvD(1) [OF inv] and idx = mem_invD(1-3) [OF linvD(1) [OF inv] t]
  have c: "cached s t ob lw" using linvD(2) [OF inv t] pc by simp
  have np: "flc_free (pcs s t)" "\<And>ob. \<not> owes (pcs s t) ob" "parked_of (pcs s t) = None"
    using pc by (simp_all add: owes_def)
  consider (thin) "get_thin_lock_without_count lw = th_thinlock (threads s t)"
    | (fat) "get_thin_lock_without_count lw \<noteq> th_thinlock (threads s t)" "is_fat_lock lw"
    | (other) "get_thin_lock_without_count lw \<noteq> th_thinlock (threads s t)" "\<not> is_fat_lock lw"
    by blast
  then show ?thesis
  proof cases
    case thin
    obtain n where n: "lockword s ob = thinword t n" "lw = thinword t n" "n < 256"
      "view_ok (Thin t n)" "holder s ob = Some (t, n + 1)" "thin_held s t ob"
      using cached_own_thin [OF mem t c thin] by blast
    have eq0: "get_thin_lock lw = th_thinlock (threads s t) \<longleftrightarrow> n = 0"
      using thin_lock_eq [OF n(4) idx(1,2)] n(2) idx(3) by simp
    show ?thesis
    proof (cases n)
      case 0
      let ?s = "set_pc t (Exit_unlocked ob) (set_lockword ob (word_of Free) s)"
      have run: "exit_loaded t ob lw s = Runs (?s, [Ev_exit t ob])"
        using eq0 0 by (simp add: exit_loaded_def lw_unlock_def THIN_UNLOCKED_def)
      have st: "linv hc ?s" "holder ?s = (holder s)(ob := None)"
        using thin_step [OF inv t, of ob "Thin t n" Free "Exit_unlocked ob"] n np
        by (simp_all add: owes_def)
      have "abs_mon ?s = (abs_mon s)\<lparr>a_holder := (holder s)(ob := None)\<rparr>"
        using abs_mon_eqI [of t ?s s _ None] st np by (auto simp: abs_mon_def)
      then show ?thesis using run st(1) n(5) 0 by (simp add: abs_mon_def)
    next
      case (Suc m)
      let ?s = "set_pc t (Done (Inr True)) (set_lockword ob (word_of (Thin t m)) s)"
      have run: "exit_loaded t ob lw s = Runs (?s, [Ev_exit t ob])"
        using eq0 thin n Suc by (simp add: exit_loaded_def decrease_thinword)
      have st: "linv hc ?s" "holder ?s = (holder s)(ob := Some (t, m + 1))"
        using thin_step [OF inv t, of ob "Thin t n" "Thin t m" "Done (Inr True)"] n np Suc by simp_all
      have "abs_mon ?s = (abs_mon s)\<lparr>a_holder := (holder s)(ob \<mapsto> (t, m + 1))\<rparr>"
        using abs_mon_eqI [of t ?s s _ None] st np by (auto simp: abs_mon_def)
      then show ?thesis using run st(1) n(5) Suc by (simp add: abs_mon_def)
    qed
  next
    case fat
    obtain lr r where f: "lw = lw_set_record lr" "get_fat_lock lw = lr" "fat_at s ob lr"
      "lr_heap s lr = Some r" "lr_object r = Some ob" "rec_ok s lr r"
      "holder s ob = map_option (\<lambda>t. (t, lr_count r + 1)) (lr_owner r)"
      using cached_fat [OF mem c fat(2)] by metis
    have ntl: "get_thin_lock lw \<noteq> th_thinlock (threads s t)"
      using fat(2) idx(3) thinword_is_thin(2) by (metis get_thin_lock_def)
    show ?thesis
    proof (cases "lr_owner r = Some t")
      case False
      then show ?thesis
        using illegal_good [OF inv t np] fat f ntl by (simp add: exit_loaded_def deref_def Let_def)
    next
      case True
      have mtx: "lr_mutex r = Some (t, 1)" using f(6) True by (simp add: rec_ok_def)
      define r' where "r' = (if lr_count r \<noteq> 0 then r\<lparr>lr_count := lr_count r - 1\<rparr>
                             else r\<lparr>lr_owner := None, lr_mutex := None\<rparr>)"
      have flds: "lr_object r' = lr_object r" "lr_owner r' = (if lr_count r \<noteq> 0 then Some t else None)"
        "lr_mutex r' = (if lr_count r \<noteq> 0 then Some (t, 1) else None)" "lr_count r' = lr_count r - 1"
        using True mtx by (simp_all add: r'_def)
      let ?s = "set_pc t (Done (Inr True)) (set_lr lr r' s)"
      let ?h = "if lr_count r \<noteq> 0 then Some (t, lr_count r) else None"
      have run: "exit_loaded t ob lw s = Runs (?s, [Ev_exit t ob])"
        using fat f ntl True mtx
        by (simp add: exit_loaded_def deref_def lock_record_exit_def mutex_unlock_def r'_def Let_def)
      have "linv hc ?s \<and> holder ?s = (holder s)(ob := ?h)"
      proof (cases "lr_count r = 0")
        case z: True
        show ?thesis
          using fat_step [OF inv t f(3,4), of r' ?s "Done (Inr True)"] True np flds by (simp add: z)
      next
        case z: False
        then show ?thesis
          using fat_step [OF inv t f(3,4), of r' ?s "Done (Inr True)"] True np flds by simp
      qed
      then have st: "linv hc ?s" "holder ?s = (holder s)(ob := ?h)" by blast+
      have "abs_mon ?s = (abs_mon s)\<lparr>a_holder := (holder s)(ob := ?h)\<rparr>"
        using abs_mon_eqI [of t ?s s _ None] st np by (auto simp: abs_mon_def)
      then show ?thesis using run st(1) f(7) True by (simp add: abs_mon_def)
    qed
  next
    case other
    have "get_thin_lock lw \<noteq> th_thinlock (threads s t)"
      using other(1) idx thinword_without_count [of t 0] by (auto simp: get_thin_lock_def)
    then show ?thesis
      using illegal_good [OF inv t np] other by (simp add: exit_loaded_def)
  qed
qed

lemma exit_check_flc_good:
  assumes inv: "linv hc s" and t: "t \<in> set (active s)" and pc: "pcs s t = Exit_unlocked ob"
  shows "good hc s (quiet (exit_check_flc t ob s))"
proof -
  have fl: "flc_list (threads s t) = []" if "\<not> flc_bit (threads s t)"
    using linvD(4) [OF inv t] that by (auto simp: flc_ok_def)
  show ?thesis
    unfolding quiet_def exit_check_flc_def run_bind.simps
    using pc fl by (intro good_set_pc [OF inv t]) (auto simp: owes_def)
qed

lemma wait_loaded_good:
  assumes inv: "linv hc s" and t: "t \<in> set (active s)" and pc: "pcs s t = Wait_loaded ob lw timed"
    and fresh: "fresh_lr s newlr"
  shows "good hc s (quiet (wait_loaded hc newlr t ob lw timed s))"
proof -
  note mem = linvD(1) [OF inv] and idx = mem_invD(1-3) [OF linvD(1) [OF inv] t]
  have c: "cached s t ob lw" using linvD(2) [OF inv t] pc by simp
  have np: "flc_free (pcs s t)" "\<And>ob. \<not> owes (pcs s t) ob" "parked_of (pcs s t) = None"
    using pc by (simp_all add: owes_def)
  show ?thesis
  proof (cases "is_fat_lock lw")
    case True
    obtain lr r where f: "lw = lw_set_record lr" "get_fat_lock lw = lr" "fat_at s ob lr"
      "lr_heap s lr = Some r" "lr_object r = Some ob" "rec_ok s lr r"
      "holder s ob = map_option (\<lambda>t. (t, lr_count r + 1)) (lr_owner r)"
      using cached_fat [OF mem c True] by metis
    show ?thesis
    proof (cases "lr_owner r = Some t")
      case own: True
      have "good hc s (Runs (set_pc t (Wait_record ob lr timed) s, []))"
        using np f own by (intro good_set_pc [OF inv t]) (simp_all add: owns_def)
      then show ?thesis using own True f by (simp add: wait_loaded_def quiet_def deref_def Let_def)
    next
      case False
      then show ?thesis
        using illegal_good [OF inv t np] True f by (simp add: wait_loaded_def quiet_def deref_def Let_def)
    qed
  next
    case False
    show ?thesis
    proof (cases "get_thin_lock_without_count lw = th_thinlock (threads s t)")
      case True
      obtain n where n: "lockword s ob = thinword t n" "lw = thinword t n" "n < 256"
        "view_ok (Thin t n)" "holder s ob = Some (t, n + 1)" "thin_held s t ob"
        using cached_own_thin [OF mem t c True] by blast
      obtain s3 lr where g: "get_enter_inflate hc newlr t ob s = Runs (s3, lr)" "mem_inv hc s3"
        "get_fat_lock lr = lr" "lockword s3 = (lockword s)(ob := lw_set_record lr)"
        "threads s3 = threads s" "active s3 = active s" "pcs s3 = pcs s" "holder s3 = holder s"
        using inflate_mem [OF mem t n(1,3) fresh] by metis
      let ?s = "set_pc t (Notify_flc ob (Then_wait lr timed)) s3"
      have "cont_ok s3 t ob (Then_wait lr timed)"
        using g n(5) by (simp add: fat_at_def owns_def)
      then have "linv hc ?s" by (rule inflate_step [OF inv t g(2-8) n(6) np(1,2)])
      moreover have "abs_mon ?s = abs_mon s" using np g(7,8) by (auto simp: abs_mon_def fun_eq_iff)
      ultimately show ?thesis using False True g(1,6) by (simp add: wait_loaded_def quiet_def)
    next
      case no: False
      then show ?thesis using illegal_good [OF inv t np] False by (simp add: wait_loaded_def quiet_def)
    qed
  qed
qed

lemma wait_release_good:
  assumes inv: "linv hc s" and t: "t \<in> set (active s)" and pc: "pcs s t = Wait_record ob lr timed"
  shows "good hc s (lock_record_wait_release t ob lr timed s)"
proof -
  note mem = linvD(1) [OF inv]
  have fa: "fat_at s ob lr" and own: "owns s t ob" using linvD(2) [OF inv t] pc by simp_all
  obtain r where r: "lr_heap s lr = Some r" "lr_object r = Some ob" "rec_ok s lr r"
    "holder s ob = map_option (\<lambda>t. (t, lr_count r + 1)) (lr_owner r)"
    using fat_record [OF mem fa] by metis
  have ow: "lr_owner r = Some t" "lr_mutex r = Some (t, 1)" using own r(3,4) by (auto simp: owns_def rec_ok_def)
  define r' where "r' = r\<lparr>lr_waiters := lr_waiters r @ [t], lr_count := 0, lr_owner := None, lr_mutex := None\<rparr>"
  let ?p = "Waiting ob lr (lr_count r) timed"
  let ?s = "set_pc t ?p (set_lr lr r' s)"
  have run: "lock_record_wait_release t ob lr timed s = Runs (?s, [Ev_wait_release t ob (lr_count r + 1)])"
    using r ow by (simp add: lock_record_wait_release_def deref_def lock_record_exit_def mutex_unlock_def
        lock_record_add_waiter_def r'_def set_lr_def Let_def)
  have h: "holder ?s = (holder s)(ob := None)"
    using set_lr_holder [OF mem, of ob lr r'] fa by (simp add: fat_at_def r'_def)
  have "pc_mem ?s t ?p" using fa h by (simp add: fat_at_def owns_def r'_def)
  then have st: "linv hc ?s"
    using fat_step(1) [OF inv t fa r(1), of r' ?s ?p] ow pc by (simp add: r'_def owes_def)
  have "abs_mon ?s = \<lparr> a_holder = (holder s)(ob := None),
      a_parked = (\<lambda>t. parked_of (pcs s t))(t \<mapsto> (ob, lr_count r + 1)) \<rparr>"
    using h by (intro abs_mon_eqI) auto
  then show ?thesis using run st r(4) ow pc by (simp add: abs_mon_def)
qed

lemma wait_reenter_good:
  assumes inv: "linv hc s" and t: "t \<in> set (active s)" and pc: "pcs s t = Wait_woken ob lr n"
  shows "good hc s (lock_record_wait_reenter t ob lr n s)"
proof -
  note mem = linvD(1) [OF inv]
  have fa: "fat_at s ob lr" and no: "\<not> owns s t ob" using linvD(2) [OF inv t] pc by simp_all
  obtain r where r: "lr_heap s lr = Some r" "lr_object r = Some ob" "rec_ok s lr r"
    "holder s ob = map_option (\<lambda>t. (t, lr_count r + 1)) (lr_owner r)"
    using fat_record [OF mem fa] by metis
  have nt: "lr_owner r \<noteq> Some t" using no r(4) by (auto simp: owns_def)
  note en = lock_record_enter_free [OF r(1,3) nt]
  show ?thesis
  proof (cases "lr_owner r = None")
    case True
    define r' where "r' = r\<lparr>lr_mutex := Some (t, 1), lr_owner := Some t,
                             lr_waiters := removeAll t (lr_waiters r), lr_count := n\<rparr>"
    define f where "f = (\<lambda>x :: threadobject. x\<lparr>th_interrupted := (th_signaled x \<and> th_interrupted x), th_signaled := False\<rparr>)"
    define p where "p = Done (if \<not> th_signaled (threads s t) \<and> th_interrupted (threads s t)
                              then Inl InterruptedException else Inr True)"
    let ?s = "set_pc t p (upd_thread t f (set_lr lr r' s))"
    have run: "lock_record_wait_reenter t ob lr n s = Runs (?s, [Ev_wait_acquire t ob (n + 1)])"
      using en True by (simp add: lock_record_wait_reenter_def deref_def lock_record_remove_waiter_def
          r'_def f_def p_def set_lr_def Let_def)
    have fp: "flc_free p" "pc_mem ?s t p" "parked_of p = None" by (simp_all add: p_def)
    have sf: "same_flc (threads ?s u) (threads s u)" "th_thinlock (threads ?s u) = th_thinlock (threads s u)" for u
      by (simp_all add: same_flc_def f_def)
    have st: "linv hc ?s" "holder ?s = (holder s)(ob := Some (t, n + 1))"
      using fat_step [OF inv t fa r(1), of r' ?s p] True pc fp sf by (simp_all add: r'_def owes_def)
    have "abs_mon ?s = \<lparr> a_holder = (holder s)(ob := Some (t, n + 1)),
        a_parked = (\<lambda>t. parked_of (pcs s t))(t := None) \<rparr>"
      using st fp by (intro abs_mon_eqI) auto
    then show ?thesis using run st(1) r(4) True pc by (simp add: abs_mon_def)
  qed (use en in \<open>auto simp: lock_record_wait_reenter_def\<close>)
qed

text \<open>Steps that only change flags outside the FLC protocol.\<close>

lemma flags_good:
  assumes inv: "linv hc s" and t: "t \<in> set (active s)"
    and eq: "lockword s' = lockword s" "lr_heap s' = lr_heap s" "lock_hashtable s' = lock_hashtable s"
      "active s' = active s" "pcs s' = (pcs s)(t := p)"
      "\<And>u. same_flc (threads s' u) (threads s u)"
      "\<And>u. th_thinlock (threads s' u) = th_thinlock (threads s u)"
    and p: "p = pcs s t \<or> flc_free (pcs s t) \<and> flc_free p \<and> (\<forall>ob. \<not> owes (pcs s t) ob) \<and>
      pc_mem s t p \<and> parked_of p = parked_of (pcs s t)"
  shows "linv hc s'" "abs_mon s' = abs_mon s"
proof -
  note mem = linvD(1) [OF inv]
  have c: "mem_inv hc s'" "holder s' = holder s" by (rule mem_inv_cong [OF mem]; use eq in simp)+
  have th: "thin_held s' = thin_held s" by (simp add: thin_held_def [abs_def] eq)
  have fl: "flc_bit (threads s' v) = flc_bit (threads s v)" "flc_list (threads s' v) = flc_list (threads s v)"
    "flc_object (threads s' v) = flc_object (threads s v)" "flc_lock (threads s' v) = flc_lock (threads s v)" for v
    using eq(6) by (simp_all add: same_flc_def)
  show "abs_mon s' = abs_mon s"
    using p c(2) eq(5) by (auto simp: abs_mon_def fun_eq_iff)
  show "linv hc s'"
  proof (cases "p = pcs s t")
    case True
    then have pcs: "pcs s' = pcs s" using eq(5) by simp
    have en: "entry_ok s' u w" if "entry_ok s u w" for u w
      by (rule entry_ok_mono [OF that]) (simp_all add: pcs eq th fl)
    have "pc_mem s' u (pcs s u) = pc_mem s u (pcs s u)" for u by (rule pc_mem_cong) (simp_all add: eq c)
    moreover have "pc_flc s' u (pcs s u) = pc_flc s u (pcs s u)" for u by (cases "pcs s u") (simp_all add: fl)
    moreover have "flc_ok s' u" if "flc_ok s u" for u
      using that en by (auto simp: flc_ok_def fl pcs eq split: option.splits)
    ultimately show ?thesis using inv c(1) by (simp add: linv_def pcs eq)
  next
    case False
    have "guar t s s'" by (rule guar_same) (use eq c in auto)
    moreover have "pc_mem s' t p = pc_mem s t p" by (rule pc_mem_cong) (simp_all add: eq c)
    ultimately show ?thesis
      using p False eq(5,6) c(1) by (intro linv_frame [OF inv t]) (auto simp: th)
  qed
qed

lemma lock_record_notify_eq:
  "lockword (lock_record_notify one ws s) = lockword s" "lr_heap (lock_record_notify one ws s) = lr_heap s"
  "lock_hashtable (lock_record_notify one ws s) = lock_hashtable s"
  "active (lock_record_notify one ws s) = active s" "pcs (lock_record_notify one ws s) = pcs s"
  "same_flc (threads (lock_record_notify one ws s) u) (threads s u)"
  "th_thinlock (threads (lock_record_notify one ws s) u) = th_thinlock (threads s u)"
  by (induction one ws s rule: lock_record_notify.induct) (auto simp: Let_def same_flc_def)

lemma notify_loaded_good:
  assumes inv: "linv hc s" and t: "t \<in> set (active s)" and pc: "pcs s t = Notify_loaded ob lw one"
  shows "good hc s (quiet (notify_loaded t ob lw one s))"
proof -
  note mem = linvD(1) [OF inv]
  have c: "cached s t ob lw" using linvD(2) [OF inv t] pc by simp
  have np: "flc_free (pcs s t)" "\<And>ob. \<not> owes (pcs s t) ob" "parked_of (pcs s t) = None"
    using pc by (simp_all add: owes_def)
  note ill = illegal_good [OF inv t np]
  show ?thesis
  proof (cases "is_fat_lock lw")
    case True
    obtain lr r where f: "get_fat_lock lw = lr" "lr_heap s lr = Some r"
      using cached_fat [OF mem c True] by metis
    have "good hc s (Runs (set_pc t (Done (Inr True)) (lock_record_notify one (lr_waiters r) s), []))"
      using flags_good [OF inv t, of "set_pc t (Done (Inr True)) (lock_record_notify one (lr_waiters r) s)" "Done (Inr True)"] np
      by (simp add: lock_record_notify_eq)
    then show ?thesis using True f ill by (simp add: notify_loaded_def quiet_def deref_def)
  next
    case False
    then show ?thesis using ill by (simp add: notify_loaded_def quiet_def)
  qed
qed

section \<open>The FLC steps\<close>

lemma flc_start_good:
  assumes inv: "linv hc s" and t: "t \<in> set (active s)" and pc: "pcs s t = Flc_start ob lw"
  shows "good hc s (quiet (sable_flc_start lw t ob s))"
proof -
  note mem = linvD(1) [OF inv]
  have "foreign s t lw" using linvD(2) [OF inv t] pc by simp
  then have i: "unat (get_thin_lock_thread_index lw) \<notin> set (active s) \<or> unat (get_thin_lock_thread_index lw) \<noteq> t"
  proof (unfold foreign_def, elim disjE exE conjE)
    assume "lw = 0"
    then have "unat (get_thin_lock_thread_index lw) = 0"
      using thinword_index [of 0 0] by (simp flip: zero_thinword)
    then show ?thesis using mem_invD(1) [OF mem] by force
  next
    fix u c assume "lw = thinword u c" "u \<noteq> t" "u \<in> set (active s)" "c < 256"
    then show ?thesis using unat_index_thin [of u c] mem_invD(1,2) [OF mem] by simp
  qed
  then show ?thesis
    unfolding quiet_def sable_flc_start_def get_thread_by_index_def
    using good_set_pc [OF inv t, of "Enter_retry ob"] pc
      good_set_pc [OF inv t, of "Flc_lock ob (unat (get_thin_lock_thread_index lw))"]
    by (auto simp: owes_def)
qed

lemma flc_holder:
  assumes "linv hc s" "u \<in> set (active s)" "flc_lock (threads s u) = Some (v, n)"
  shows "n = 1" "v \<in> set (active s)" "holds_flc v u (pcs s v)"
  using linvD(4) [OF assms(1,2)] assms(3) by (simp_all add: flc_ok_def)

lemma flc_entry:
  assumes "linv hc s" "u \<in> set (active s)" "w \<in> set (flc_list (threads s u))"
  shows "entry_ok s u w" "w \<in> set (active s)" "\<exists>ob. pcs s w = Flc_wait ob u" "flc_bit (threads s u)"
  using linvD(4) [OF assms(1,2)] assms(3) by (auto simp: flc_ok_def entry_ok_def)

lemma flc_lock_good:
  assumes inv: "linv hc s" and t: "t \<in> set (active s)" and pc: "pcs s t = Flc_lock ob u"
  shows "good hc s (quiet (sable_flc_lock u t ob s))"
proof -
  note mem = linvD(1) [OF inv]
  have u: "u \<in> set (active s)" "u \<noteq> t" using linvD(2) [OF inv t] pc by simp_all
  show ?thesis
  proof (cases "flc_lock (threads s u)")
    case (Some q)
    then obtain v n where q: "flc_lock (threads s u) = Some (v, n)" by (cases q) simp
    have "v \<noteq> t" using flc_holder(3) [OF inv u(1) q] pc by auto
    then show ?thesis using q by (simp add: quiet_def sable_flc_lock_def mutex_lock_def)
  next
    case None
    let ?p = "Flc_reread ob u (flc_bit (threads s u))"
    let ?s = "set_pc t ?p (upd_thread u (\<lambda>x. x\<lparr>flc_lock := Some (t, 1), flc_bit := True\<rparr>) s)"
    have run: "quiet (sable_flc_lock u t ob s) = Runs (?s, [])"
      using None by (simp add: quiet_def sable_flc_lock_def mutex_lock_def)
    have g: "guar t s ?s" by (rule guar_same) auto
    have "linv hc ?s"
    proof (rule linv_intro [OF inv t _ g])
      show "mem_inv hc ?s" using mem by (simp add: upd_thread_mem)
      show "pc_mem ?s t (pcs ?s t)" using u by simp
      fix v assume v: "v \<in> set (active s)"
      have "entry_ok ?s v w" if w: "w \<in> set (flc_list (threads s v))" for w
      proof (cases "v = t")
        case True
        then show ?thesis
          using flc_entry [OF inv v w] pc
          by (intro entry_ok_step [OF flc_entry(1) [OF inv v w]]) (auto simp: owes_def)
      next
        case False
        then show ?thesis
          using flc_entry [OF inv v w] pc
          by (intro entry_ok_mono [OF flc_entry(1) [OF inv v w]]) auto
      qed
      moreover have "holds_flc x v (pcs ?s x)" if "flc_lock (threads s v) = Some (x, n)" for x n
        using flc_holder(3) [OF inv v that] pc by auto
      ultimately have "flc_ok ?s v"
        using linvD(4) [OF inv v] t u by (auto simp: flc_ok_def split: option.splits)
      moreover have "pc_flc ?s v (pcs ?s v)"
        using linvD(3) [OF inv v] linvD(4) [OF inv u(1)] None by (cases "pcs s v") (auto simp: flc_ok_def)
      ultimately show "pc_flc ?s v (pcs ?s v) \<and> flc_ok ?s v" by simp
    qed
    moreover have "abs_mon ?s = abs_mon s" using pc by (auto simp: abs_mon_def fun_eq_iff)
    ultimately show ?thesis using run by simp
  qed
qed

lemma flc_reread_good:
  assumes inv: "linv hc s" and t: "t \<in> set (active s)" and pc: "pcs s t = Flc_reread ob u old"
  shows "good hc s (quiet (sable_flc_reread u old t ob s))"
proof -
  note mem = linvD(1) [OF inv]
  have u: "u \<in> set (active s)" "u \<noteq> t" using linvD(2) [OF inv t] pc by simp_all
  have lk: "flc_lock (threads s u) = Some (t, 1)" and bit: "flc_bit (threads s u)"
    and oldb: "flc_list (threads s u) \<noteq> [] \<longrightarrow> old" using linvD(3) [OF inv t] pc by simp_all
  have uloop: "pcs s u \<noteq> Notify_flc_loop ob' ws k" for ob' ws k
    using linvD(3) [OF inv u(1)] lk u(2) by auto
  have other: "flc_lock (threads s v) = Some (x, n) \<Longrightarrow> v \<in> set (active s) \<Longrightarrow> v \<noteq> u \<Longrightarrow> x \<noteq> t" for v x n
    using flc_holder(3) [OF inv] pc by fastforce
  obtain vw where vw: "valid_view s ob vw" "lockword s ob = word_of vw" using view_exists [OF mem] by blast
  let ?thin = "is_thin_lock (lockword s ob) \<and> unat (get_thin_lock_thread_index (lockword s ob)) = u"
  have thin: "thin_held s u ob" if ?thin
  proof -
    from that obtain c where "vw = Thin u c"
      using index_test [OF valid_view_ok [OF vw(1)] mem_invD(1) [OF mem u(1)]] vw(2) by auto
    then show ?thesis using vw by (auto simp: thin_held_def valid_view_def)
  qed
  define p where "p = (if ?thin then Flc_wait ob u else Enter_retry ob)"
  define s' where "s' = set_pc t p
    (if ?thin then upd_thread u (\<lambda>x. x\<lparr>flc_list := t # flc_list x, flc_lock := None\<rparr>)
                     (upd_thread t (\<lambda>x. x\<lparr>flc_object := Some ob\<rparr>) s)
     else upd_thread u (\<lambda>x. x\<lparr>flc_bit := old, flc_lock := None\<rparr>) s)"
  have run: "quiet (sable_flc_reread u old t ob s) = Runs (s', [])"
    using lk by (simp add: quiet_def sable_flc_reread_def mutex_unlock_def s'_def p_def Let_def)
  have eqs: "lockword s' = lockword s" "lr_heap s' = lr_heap s" "lock_hashtable s' = lock_hashtable s"
    "active s' = active s" "pcs s' = (pcs s)(t := p)" "holder s' = holder s"
    "th_thinlock (threads s' v) = th_thinlock (threads s v)"
    "flc_list (threads s' v) = (if v = u \<and> ?thin then t # flc_list (threads s u) else flc_list (threads s v))"
    "flc_lock (threads s' v) = (if v = u then None else flc_lock (threads s v))"
    "flc_object (threads s' v) = (if v = t \<and> ?thin then Some ob else flc_object (threads s v))"
    "flc_bit (threads s' v) = (if v = u \<and> \<not> ?thin then old else flc_bit (threads s v))" for v
    using u(2) by (simp_all add: s'_def) blast
  have th': "thin_held s' = thin_held s" by (simp add: thin_held_def [abs_def] eqs)
  have pt: "p \<noteq> Notify_flc_loop ob' ws k" "\<not> owes p ob'" for ob' ws k by (simp_all add: p_def owes_def)
  have g: "guar t s s'" by (rule guar_same) (simp_all add: eqs)
  have "linv hc s'"
  proof (rule linv_intro [OF inv t _ g])
    show "mem_inv hc s'" by (rule mem_inv_cong(1) [OF mem]) (simp_all add: eqs)
    show "pc_mem s' t (pcs s' t)" using u by (simp add: eqs p_def)
    fix v assume v: "v \<in> set (active s)"
    have old: "entry_ok s' v w" if w: "w \<in> set (flc_list (threads s v))" for w
    proof (cases "v = t")
      case True
      then show ?thesis
        using flc_entry [OF inv v w] pc pt
        by (intro entry_ok_step [OF flc_entry(1) [OF inv v w]]) (auto simp: owes_def eqs th')
    next
      case False
      then show ?thesis
        using flc_entry [OF inv v w] pc
        by (intro entry_ok_mono [OF flc_entry(1) [OF inv v w]]) (auto simp: eqs th')
    qed
    have new: "entry_ok s' u t" if ?thin
    proof -
      have "pcs s' u \<noteq> Notify_flc_loop ob' ws k" for ob' ws k using uloop u(2) by (simp add: eqs)
      then show ?thesis
        using that thin [OF that] t u(2) by (simp add: entry_ok_other eqs th' p_def)
    qed
    have "holds_flc x v (pcs s' x)" if "flc_lock (threads s v) = Some (x, n)" "v \<noteq> u" for x n
      using flc_holder(3) [OF inv v that(1)] other [OF that(1) v that(2)] by (simp add: eqs)
    moreover have "t \<notin> set (flc_list (threads s u))" using flc_entry(3) [OF inv u(1)] pc by force
    ultimately have "flc_ok s' v"
      using linvD(4) [OF inv v] old new bit oldb
      by (auto simp: flc_ok_def eqs simp del: One_nat_def split: option.splits)
    moreover have "pc_flc s' v (pcs s' v)"
    proof (cases "v = t")
      case True
      then show ?thesis using u(2) by (simp add: eqs p_def)
    next
      case False
      then show ?thesis
        using linvD(3) [OF inv v] lk uloop u(2) by (cases "pcs s v") (auto simp: eqs)
    qed
    ultimately show "pc_flc s' v (pcs s' v) \<and> flc_ok s' v" by simp
  qed
  moreover have "abs_mon s' = abs_mon s" using pc by (auto simp: abs_mon_def fun_eq_iff eqs p_def)
  ultimately show ?thesis using run eqs(4) by simp
qed

lemma flc_wake_good:
  assumes inv: "linv hc s" and t: "t \<in> set (active s)" and pc: "pcs s t = Flc_wait ob u"
  shows "good hc s (quiet (sable_flc_wake u t ob s))"
proof -
  note mem = linvD(1) [OF inv]
  have u: "u \<in> set (active s)" "u \<noteq> t" using linvD(2) [OF inv t] pc by simp_all
  show ?thesis
  proof (cases "flc_lock (threads s u)")
    case (Some q)
    then obtain v n where q: "flc_lock (threads s u) = Some (v, n)" by (cases q) simp
    have "v \<noteq> t" using flc_holder(3) [OF inv u(1) q] pc by auto
    then show ?thesis using q by (simp add: quiet_def sable_flc_wake_def mutex_lock_def)
  next
    case None
    show ?thesis
    proof (cases "flc_object (threads s t) = None")
      case False
      then have "t \<in> set (flc_list (threads s u))" using linvD(3) [OF inv t] pc by auto
      then have "flc_bit (threads s u)" using flc_entry(4) [OF inv u(1)] by blast
      then show ?thesis using False None inv by (auto simp: quiet_def sable_flc_wake_def mutex_lock_def)
    next
      case True
      let ?s = "set_pc t (Enter_retry ob) s"
      have run: "quiet (sable_flc_wake u t ob s) = Runs (?s, [])"
        using None True by (simp add: quiet_def sable_flc_wake_def mutex_lock_def)
      have off: "t \<notin> set (flc_list (threads s v))" if v: "v \<in> set (active s)" for v
      proof
        assume w: "t \<in> set (flc_list (threads s v))"
        then have "v = u" using flc_entry(3) [OF inv v w] pc by simp
        moreover have "pcs s v \<noteq> Notify_flc_loop ob' ws k" for ob' ws k
          using linvD(3) [OF inv v] None \<open>v = u\<close> by auto
        ultimately show False
          using flc_entry(1) [OF inv v w] True by (simp add: entry_ok_other)
      qed
      have g: "guar t s ?s" by (rule guar_same) auto
      have "linv hc ?s"
      proof (rule linv_intro [OF inv t _ g])
        fix v assume v: "v \<in> set (active s)"
        have "entry_ok ?s v w" if w: "w \<in> set (flc_list (threads s v))" for w
        proof (cases "v = t")
          case True
          then show ?thesis
            using flc_entry [OF inv v w] pc off [OF v] w
            by (intro entry_ok_step [OF flc_entry(1) [OF inv v w]]) (auto simp: owes_def)
        next
          case False
          then show ?thesis
            using off [OF v] w by (intro entry_ok_mono [OF flc_entry(1) [OF inv v w]]) auto
        qed
        moreover have "holds_flc x v (pcs ?s x)" if "flc_lock (threads s v) = Some (x, n)" for x n
          using flc_holder(3) [OF inv v that] pc by auto
        ultimately have "flc_ok ?s v"
          using linvD(4) [OF inv v] by (auto simp: flc_ok_def split: option.splits)
        moreover have "pc_flc ?s v (pcs ?s v)"
          using linvD(3) [OF inv v] by (cases "v = t"; cases "pcs s v") auto
        ultimately show "pc_flc ?s v (pcs ?s v) \<and> flc_ok ?s v" by simp
      qed (use mem in simp_all)
      moreover have "abs_mon ?s = abs_mon s" using pc by (auto simp: abs_mon_def fun_eq_iff)
      ultimately show ?thesis using run by simp
    qed
  qed
qed

lemma notify_begin_good:
  assumes inv: "linv hc s" and t: "t \<in> set (active s)" and pc: "pcs s t = Notify_flc ob k"
  shows "good hc s (quiet (notify_flc_begin t ob k s))"
proof -
  note mem = linvD(1) [OF inv]
  have k: "cont_ok s t ob k" using linvD(2) [OF inv t] pc by simp
  show ?thesis
  proof (cases "flc_lock (threads s t)")
    case (Some q)
    then obtain v n where q: "flc_lock (threads s t) = Some (v, n)" by (cases q) simp
    have "v \<noteq> t" using flc_holder(3) [OF inv t q] pc by auto
    then show ?thesis using q by (simp add: quiet_def notify_flc_begin_def mutex_lock_def)
  next
    case None
    let ?p = "Notify_flc_loop ob (flc_list (threads s t)) k"
    let ?s = "set_pc t ?p (upd_thread t (\<lambda>x. x\<lparr>flc_lock := Some (t, 1)\<rparr>) s)"
    have run: "quiet (notify_flc_begin t ob k s) = Runs (?s, [])"
      using None by (simp add: quiet_def notify_flc_begin_def mutex_lock_def)
    have g: "guar t s ?s" by (rule guar_same) auto
    have "linv hc ?s"
    proof (rule linv_intro [OF inv t _ g])
      show "mem_inv hc ?s" using mem by (simp add: upd_thread_mem)
      have "pc_mem (upd_thread t (\<lambda>x. x\<lparr>flc_lock := Some (t, 1)\<rparr>) s) t ?p = pc_mem s t ?p"
        by (rule pc_mem_cong) simp_all
      then show "pc_mem ?s t (pcs ?s t)" using k by simp
      fix v assume v: "v \<in> set (active s)"
      have "entry_ok ?s v w" if w: "w \<in> set (flc_list (threads s v))" for w
      proof (cases "v = t")
        case True
        note e = flc_entry [OF inv v w]
        have "w \<noteq> t" using e(3) pc by auto
        then show ?thesis
          using e(1) w True pc by (auto simp: entry_ok_def)
      next
        case False
        then show ?thesis
          using flc_entry [OF inv v w] pc
          by (intro entry_ok_mono [OF flc_entry(1) [OF inv v w]]) auto
      qed
      moreover have "holds_flc x v (pcs ?s x)" if "flc_lock (threads s v) = Some (x, n)" for x n
        using flc_holder(3) [OF inv v that] pc by auto
      ultimately have "flc_ok ?s v"
        using linvD(4) [OF inv v] t by (auto simp: flc_ok_def split: option.splits)
      moreover have "pc_flc ?s v (pcs ?s v)"
        using linvD(3) [OF inv v] linvD(4) [OF inv t] None
        by (cases "v = t"; cases "pcs s v") (auto simp: flc_ok_def)
      ultimately show "pc_flc ?s v (pcs ?s v) \<and> flc_ok ?s v" by simp
    qed
    moreover have "abs_mon ?s = abs_mon s" using pc by (auto simp: abs_mon_def fun_eq_iff)
    ultimately show ?thesis using run by simp
  qed
qed

lemma notify_end_good:
  assumes inv: "linv hc s" and t: "t \<in> set (active s)" and pc: "pcs s t = Notify_flc_loop ob [] k"
  shows "good hc s (quiet (notify_flc_end t ob k s))"
proof -
  note mem = linvD(1) [OF inv]
  have k: "cont_ok s t ob k" using linvD(2) [OF inv t] pc by simp
  have lk: "flc_lock (threads s t) = Some (t, 1)" using linvD(3) [OF inv t] pc by simp
  define p where "p = (case k of Return_true \<Rightarrow> Done (Inr True) | Then_wait lr timed \<Rightarrow> Wait_record ob lr timed)"
  let ?f = "\<lambda>x :: threadobject. x\<lparr>flc_list := [], flc_bit := False, flc_lock := None\<rparr>"
  let ?s = "set_pc t p (upd_thread t ?f s)"
  have run: "quiet (notify_flc_end t ob k s) = Runs (?s, [])"
    using lk by (simp add: quiet_def notify_flc_end_def mutex_unlock_def p_def)
  have np: "flc_free p" "parked_of p = None" "pc_mem s t p" using k by (cases k; simp add: p_def)+
  have none: "flc_object (threads s w) = None" if "w \<in> set (flc_list (threads s t))" for w
    using flc_entry(1) [OF inv t that] pc by (simp add: entry_ok_def)
  have g: "guar t s ?s" by (rule guar_same) auto
  have "linv hc ?s"
  proof (rule linv_intro [OF inv t _ g])
    show "mem_inv hc ?s" using mem by (simp add: upd_thread_mem)
    have "pc_mem (upd_thread t ?f s) t p = pc_mem s t p" by (rule pc_mem_cong) simp_all
    then show "pc_mem ?s t (pcs ?s t)" using np(3) by simp
    fix v assume v: "v \<in> set (active s)"
    have "entry_ok ?s v w" if w: "w \<in> set (flc_list (threads s v))" "v \<noteq> t" for w
      using flc_entry [OF inv v w(1)] pc w(2)
      by (intro entry_ok_mono [OF flc_entry(1) [OF inv v w(1)]]) auto
    moreover have "holds_flc x v (pcs ?s x)" if "flc_lock (threads s v) = Some (x, n)" "v \<noteq> t" for x n
      using flc_holder(3) [OF inv v that(1)] pc that(2) by auto
    ultimately have "flc_ok ?s v"
      using linvD(4) [OF inv v] t by (auto simp: flc_ok_def split: option.splits)
    moreover have "pc_flc ?s v (pcs ?s v)"
    proof (cases "v = t")
      case True
      then show ?thesis using np(1) by (cases p) auto
    next
      case False
      then show ?thesis
        using linvD(3) [OF inv v] none lk by (cases "pcs s v") auto
    qed
    ultimately show "pc_flc ?s v (pcs ?s v) \<and> flc_ok ?s v" by simp
  qed
  moreover have "abs_mon ?s = abs_mon s" using pc np by (auto simp: abs_mon_def fun_eq_iff)
  ultimately show ?thesis using run by simp
qed

text \<open>A contender is woken: its lock, if held by the thread, is inflated first. This does not block.\<close>

lemma notify_iter_runs:
  assumes inv: "linv hc s" and t: "t \<in> set (active s)" and pc: "pcs s t = Notify_flc_loop ob (w # ws) k"
    and fresh: "fresh_lr s newlr"
  obtains s1 ob' where "quiet (notify_flc_iter hc newlr t ob w ws k s) =
      Runs (set_pc t (Notify_flc_loop ob ws k) (upd_thread w (\<lambda>x. x\<lparr>flc_object := None\<rparr>) s1), [])"
    "mem_inv hc s1" "holder s1 = holder s" "threads s1 = threads s" "active s1 = active s" "pcs s1 = pcs s"
    "\<And>ob1. lockword s1 ob1 = lockword s ob1 \<or> ob1 \<noteq> ob \<and> thin_held s t ob1 \<and> is_fat_lock (lockword s1 ob1)"
    "pcs s w = Flc_wait ob' t" "w \<noteq> t"
proof -
  note mem = linvD(1) [OF inv]
  have lk: "set (w # ws) \<subseteq> set (flc_list (threads s t))" using linvD(3) [OF inv t] pc by simp_all
  then have wl: "w \<in> set (flc_list (threads s t))" by simp
  then obtain ob' where w: "pcs s w = Flc_wait ob' t" "flc_object (threads s w) = Some ob'"
    "ob' = ob \<or> thin_held s t ob' \<or> is_fat_lock (lockword s ob')"
    using flc_entry(1) [OF inv t wl] pc by (auto simp: entry_ok_def)
  have wt: "w \<noteq> t" using w(1) pc by auto
  show thesis
  proof (cases "ob' \<noteq> ob \<and> thin_held s t ob'")
    case True
    then obtain c where c: "c < 256" "lockword s ob' = thinword t c" by (auto simp: thin_held_def)
    obtain s3 lr where g: "get_enter_inflate hc newlr t ob' s = Runs (s3, lr)" "mem_inv hc s3"
      "lockword s3 = (lockword s)(ob' := lw_set_record lr)"
      "threads s3 = threads s" "active s3 = active s" "pcs s3 = pcs s" "holder s3 = holder s"
      using inflate_mem [OF mem t c(2,1) fresh] by metis
    show thesis
      using True w c g wt thinword_is_thin
      by (intro that [of s3 ob']) (auto simp: quiet_def notify_flc_iter_def set_record_is_fat)
  next
    case False
    then have "ob' = ob \<or> \<not> is_thin_lock (lockword s ob')" using w(3) thin_or_fat by auto
    then show thesis
      using w wt mem by (intro that [of s ob']) (auto simp: quiet_def notify_flc_iter_def)
  qed
qed

lemma notify_iter_good:
  assumes inv: "linv hc s" and t: "t \<in> set (active s)" and pc: "pcs s t = Notify_flc_loop ob (w # ws) k"
    and fresh: "fresh_lr s newlr"
  shows "good hc s (quiet (notify_flc_iter hc newlr t ob w ws k s))"
proof -
  note mem = linvD(1) [OF inv]
  have k: "cont_ok s t ob k" using linvD(2) [OF inv t] pc by simp
  have lk: "flc_lock (threads s t) = Some (t, 1)" "distinct (w # ws)" "set (w # ws) \<subseteq> set (flc_list (threads s t))"
    using linvD(3) [OF inv t] pc by simp_all
  obtain s1 ob' where s1: "quiet (notify_flc_iter hc newlr t ob w ws k s) =
      Runs (set_pc t (Notify_flc_loop ob ws k) (upd_thread w (\<lambda>x. x\<lparr>flc_object := None\<rparr>) s1), [])"
    "mem_inv hc s1" "holder s1 = holder s" "threads s1 = threads s" "active s1 = active s" "pcs s1 = pcs s"
    "\<And>ob1. lockword s1 ob1 = lockword s ob1 \<or> ob1 \<noteq> ob \<and> thin_held s t ob1 \<and> is_fat_lock (lockword s1 ob1)"
    and w: "pcs s w = Flc_wait ob' t" and wt: "w \<noteq> t"
    using notify_iter_runs [OF assms] by metis
  let ?s = "set_pc t (Notify_flc_loop ob ws k) (upd_thread w (\<lambda>x. x\<lparr>flc_object := None\<rparr>) s1)"
  have g: "guar t s ?s" by (rule guar_same) (use s1 in auto)
  have th: "thin_held ?s t ob1 \<or> is_fat_lock (lockword ?s ob1)" if "thin_held s t ob1" for ob1
    using s1(7) [of ob1] that by (auto simp: thin_held_def)
  have "linv hc ?s"
  proof (rule linv_intro [OF inv t _ g])
    show "mem_inv hc ?s" using s1(2) by (simp add: upd_thread_mem)
    have "lockword s1 ob = lockword s ob" using s1(7) [of ob] by auto
    then show "pc_mem ?s t (pcs ?s t)" using k by (cases k) (simp_all add: fat_at_def owns_def s1(3))
    fix v assume v: "v \<in> set (active s)"
    have "entry_ok ?s v x" if x: "x \<in> set (flc_list (threads s v))" for x
    proof (cases "v = t")
      case True
      have xt: "x \<noteq> t" using flc_entry(3) [OF inv v x] pc by auto
      have e: "entry_ok s t x" using flc_entry(1) [OF inv v x] True by simp
      show ?thesis
      proof (cases "x = w")
        case xw: True
        then show ?thesis using True lk(2) w wt flc_entry(2) [OF inv v x] by (simp add: entry_ok_def s1)
      next
        case False
        then show ?thesis
          using True e xt pc th is_fat_stable [OF g] by (auto simp: entry_ok_def s1 split: if_splits)
      qed
    next
      case False
      have "x \<noteq> w" "x \<noteq> t" using flc_entry(3) [OF inv v x] w False pc by auto
      then show ?thesis
        using False thin_held_stable [OF mem g t v False] is_fat_stable [OF g]
        by (intro entry_ok_mono [OF flc_entry(1) [OF inv v x]]) (simp_all add: s1)
    qed
    moreover have "holds_flc x v (pcs ?s x)" if "flc_lock (threads s v) = Some (x, n)" for x n
      using flc_holder(3) [OF inv v that] pc by (auto simp: s1)
    ultimately have "flc_ok ?s v"
      using linvD(4) [OF inv v] by (auto simp: flc_ok_def s1 split: option.splits)
    moreover have "pc_flc ?s v (pcs ?s v)"
    proof (cases "v = t")
      case True
      then show ?thesis using lk wt by (simp add: s1)
    next
      case False
      then show ?thesis using linvD(3) [OF inv v] by (cases "pcs s v") (auto simp: s1)
    qed
    ultimately show "pc_flc ?s v (pcs ?s v) \<and> flc_ok ?s v" by simp
  qed
  moreover have "abs_mon ?s = abs_mon s" using pc by (auto simp: abs_mon_def fun_eq_iff s1)
  ultimately show ?thesis using s1(1,5) by simp
qed

section \<open>Every step\<close>

lemma exec_good:
  assumes inv: "linv hc s" and t: "t \<in> set (active s)" and fresh: "fresh_lr s newlr"
  shows "good hc s (exec hc newlr expired t s)"
proof -
  have pcm: "pc_mem s t (pcs s t)" by (rule linvD(2) [OF inv t])
  note pcstep = good_set_pc [OF inv t]
  show ?thesis
  proof (cases "pcs s t")
    case (Enter_retry ob)
    then show ?thesis
      using pcstep [of "Enter_cas ob (lockword s ob)"] by (simp add: exec_def quiet_def enter_read_def owes_def cached_def)
  next
    case (Exit_start ob)
    then show ?thesis
      using pcstep [of "Exit_loaded ob (lockword s ob)"] by (simp add: exec_def quiet_def exit_read_def owes_def cached_def)
  next
    case (Wait_start ob timed)
    then show ?thesis
      using pcstep [of "Wait_loaded ob (lockword s ob) timed"]
      by (simp add: exec_def quiet_def wait_read_def owes_def cached_def)
  next
    case (Notify_start ob one)
    then show ?thesis
      using pcstep [of "Notify_loaded ob (lockword s ob) one"]
      by (simp add: exec_def quiet_def notify_read_def owes_def cached_def)
  next
    case (Waiting ob lr n timed)
    then show ?thesis
      using pcstep [of "Wait_woken ob lr n"] pcm
      by (simp add: exec_def quiet_def threads_wait_with_timeout_def owes_def)
  next
    case (Notify_flc_loop ob ws k)
    then show ?thesis
      using notify_end_good [OF inv t] notify_iter_good [OF inv t _ fresh] by (cases ws) (simp_all add: exec_def)
  qed (simp_all add: exec_def enter_cas_good [OF inv t] enter_failed_good [OF inv t _ fresh]
      enter_fat_good [OF inv t] flc_start_good [OF inv t] flc_lock_good [OF inv t] flc_reread_good [OF inv t]
      flc_wake_good [OF inv t] exit_loaded_good [OF inv t] exit_check_flc_good [OF inv t]
      notify_begin_good [OF inv t] wait_loaded_good [OF inv t _ fresh] wait_release_good [OF inv t]
      wait_reenter_good [OF inv t] notify_loaded_good [OF inv t])
qed

lemma lstep_good:
  assumes "lstep hc s evs s'" "linv hc s"
  shows "linv hc s' \<and> amon_run evs (abs_mon s) = Some (abs_mon s') \<and> active s' = active s"
  using assms
proof (cases rule: lstep.cases)
  case (lstep_call t r c)
  have "flc_free (call_pc c)" "pc_mem s t (call_pc c)" "parked_of (call_pc c) = None"
    by (cases c rule: call_pc.cases; simp)+
  then show ?thesis
    using good_set_pc [OF assms(2) lstep_call(3), of "call_pc c"] lstep_call by (simp add: owes_def)
next
  case (lstep_run t newlr expired)
  then show ?thesis using exec_good [OF assms(2), of t newlr expired] by simp
next
  case (lstep_fail t newlr expired e)
  then show ?thesis using exec_good [OF assms(2), of t newlr expired] by simp
next
  case (lstep_interrupt t)
  then show ?thesis
    using flags_good [OF assms(2), of t "threads_thread_interrupt t s" "pcs s t"]
    by (simp add: threads_thread_interrupt_def same_flc_def)
qed

end
