(* ===== verification/MonitorProps.thy ===== *)
theory MonitorProps
  imports MonitorSafety
begin

text \<open>
  The properties of the monitor implementation over all interleavings of its threads, and the
  schedules that witness them. \<open>sched\<close> runs a given interleaving; what it computes is reachable.
\<close>

section \<open>Reachable states\<close>

definition amon_init :: amonitor where
  "amon_init = \<lparr> a_holder = (\<lambda>_. None), a_parked = (\<lambda>_. None) \<rparr>"

definition indices_ok :: "tid list \<Rightarrow> bool" where
  "indices_ok ts \<longleftrightarrow> list_all (\<lambda>t. 0 < t \<and> t < 2 ^ 22) ts"

lemma init_linv: "indices_ok ts \<Longrightarrow> linv hc (init_state ts)"
proof -
  assume "indices_ok ts"
  then have "th_thinlock (init_thread t) = thinword t 0" if "t \<in> set ts" for t
    using that by (simp add: indices_ok_def list_all_iff init_thread_def pre_compute_thinlock_thinword)
  moreover have "valid_view (init_state ts) ob Free" for ob by (simp add: valid_view_def)
  ultimately have "mem_inv hc (init_state ts)"
    using \<open>indices_ok ts\<close>
    by (auto simp: mem_inv_def init_state_def init_inv indices_ok_def list_all_iff THIN_UNLOCKED_def
        intro!: exI [of _ Free])
  then show ?thesis by (simp add: linv_def init_state_def init_thread_def flc_ok_def)
qed

lemma reach_linv:
  assumes "reach hc ts tr s" "indices_ok ts"
  shows "linv hc s \<and> active s = ts \<and> amon_run tr amon_init = Some (abs_mon s)"
  using assms
proof (induction rule: reach.induct)
  case reach_init
  have "abs_mon (init_state ts) = amon_init"
    by (simp add: abs_mon_def amon_init_def init_state_def holder_def [abs_def] THIN_UNLOCKED_def)
  then show ?case using init_linv reach_init by (simp add: init_state_def)
next
  case (reach_step tr s evs s')
  then show ?case using lstep_good [of hc s evs s'] by (simp add: amon_run_append)
qed

section \<open>Schedules\<close>

text \<open>An interleaving: which thread moves next, the address a new record would get, and the call
  the thread makes when it is idle.\<close>

fun sched ::
  "(objref option \<Rightarrow> u4) \<Rightarrow> (tid \<times> uintptr_t \<times> call option) list \<Rightarrow> vmstate \<Rightarrow> (event list \<times> vmstate) option" where
  "sched hc [] s = Some ([], s)"
| "sched hc ((t, newlr, c) # xs) s =
     (if t \<in> set (active s) \<and> fresh_lr s newlr then
        (case c of
           Some c \<Rightarrow> (case pcs s t of Done r \<Rightarrow> sched hc xs (set_pc t (call_pc c) s) | _ \<Rightarrow> None)
         | None \<Rightarrow> (case exec hc newlr False t s of
             Runs (s', evs) \<Rightarrow> (case sched hc xs s' of None \<Rightarrow> None | Some (evs', s'') \<Rightarrow> Some (evs @ evs', s''))
           | _ \<Rightarrow> None))
      else None)"

lemma sched_reach:
  assumes "reach hc ts tr s" "sched hc xs s = Some (evs, s')"
  shows "reach hc ts (tr @ evs) s'"
  using assms
proof (induction xs arbitrary: tr evs s)
  case Nil
  then show ?case by simp
next
  case (Cons x xs)
  obtain t newlr c where x: "x = (t, newlr, c)" by (cases x) auto
  have act: "t \<in> set (active s)" "fresh_lr s newlr"
    using Cons.prems(2) by (auto simp: x split: if_splits)
  show ?case
  proof (cases c)
    case (Some c')
    then obtain r where r: "pcs s t = Done r" "sched hc xs (set_pc t (call_pc c') s) = Some (evs, s')"
      using Cons.prems(2) act by (auto simp: x split: pc.splits)
    then have "reach hc ts (tr @ []) (set_pc t (call_pc c') s)"
      using act by (intro reach_step [OF Cons.prems(1)] lstep_call)
    then show ?thesis using Cons.IH r(2) by fastforce
  next
    case None
    then obtain s1 e1 e2 where r: "exec hc newlr False t s = Runs (s1, e1)"
      "sched hc xs s1 = Some (e2, s')" "evs = e1 @ e2"
      using Cons.prems(2) act by (auto simp: x split: run.splits option.splits)
    then have "reach hc ts (tr @ e1) s1"
      using act by (intro reach_step [OF Cons.prems(1)] lstep_run)
    then show ?thesis using Cons.IH [OF _ r(2)] r(3) by fastforce
  qed
qed

text \<open>Thread 1 enters object 0, thread 2 tries to and ends up on the FLC list of thread 1.\<close>

definition contention :: "(tid \<times> uintptr_t \<times> call option) list" where
  "contention = [(1, 16, Some (Call_enter (Some 0))), (1, 16, None), (1, 16, None),
     (2, 16, Some (Call_enter (Some 0))), (2, 16, None), (2, 16, None), (2, 16, None), (2, 16, None),
     (2, 16, None), (2, 16, None)]"

text \<open>Thread 2 asks to leave a monitor that thread 1 holds.\<close>

definition foreign_exit :: "(tid \<times> uintptr_t \<times> call option) list" where
  "foreign_exit = [(1, 16, Some (Call_enter (Some 0))), (1, 16, None), (1, 16, None),
     (2, 16, Some (Call_exit (Some 0))), (2, 16, None)]"

lemma sched_reachable:
  assumes "case sched hc xs (init_state ts) of None \<Rightarrow> False | Some (evs, s) \<Rightarrow> P evs s"
  shows "\<exists>evs s. reach hc ts evs s \<and> P evs s"
proof -
  obtain evs s where "sched hc xs (init_state ts) = Some (evs, s)" "P evs s"
    using assms by (auto split: option.splits)
  then show ?thesis using sched_reach [OF reach_init, of hc xs ts evs s] by auto
qed

lemma contention_reached:
  "\<exists>evs s. reach (\<lambda>_. 0) [1, 2] evs s \<and>
     (pcs s 2 = Flc_wait 0 1 \<and> flc_object (threads s 2) = Some 0 \<and> evs = [Ev_enter 1 0])"
  by (rule sched_reachable [where xs = contention]) code_simp

lemma foreign_exit_run:
  "\<exists>evs s. reach (\<lambda>_. 0) [1, 2] evs s \<and>
     ((case pcs s 2 of Exit_loaded ob lw \<Rightarrow> ob = 0 | _ \<Rightarrow> False) \<and> evs = [Ev_enter 1 0] \<and> fresh_lr s 16)"
  by (rule sched_reachable [where xs = foreign_exit]) code_simp

section \<open>Mutual exclusion\<close>

text \<open>How often a thread is inside the monitor of an object, counted over the events alone.\<close>

fun depth_ev :: "event \<Rightarrow> (tid \<Rightarrow> objref \<Rightarrow> nat) \<Rightarrow> tid \<Rightarrow> objref \<Rightarrow> nat" where
  "depth_ev (Ev_enter t ob) d = d(t := (d t)(ob := d t ob + 1))"
| "depth_ev (Ev_exit t ob) d = d(t := (d t)(ob := d t ob - 1))"
| "depth_ev (Ev_wait_release t ob n) d = d(t := (d t)(ob := 0))"
| "depth_ev (Ev_wait_acquire t ob n) d = d(t := (d t)(ob := n))"

definition depth :: "event list \<Rightarrow> tid \<Rightarrow> objref \<Rightarrow> nat" where
  "depth tr = fold depth_ev tr (\<lambda>_ _. 0)"

definition depth_agrees :: "amonitor \<Rightarrow> (tid \<Rightarrow> objref \<Rightarrow> nat) \<Rightarrow> bool" where
  "depth_agrees a d \<longleftrightarrow> (\<forall>t ob. d t ob = (case a_holder a ob of Some (u, n) \<Rightarrow> (if u = t then n else 0) | None \<Rightarrow> 0))"

lemma depth_agrees_upd:
  assumes "depth_agrees a d" "a_holder b = (a_holder a)(ob := x)"
    "a_holder a ob = None \<or> (\<exists>m. a_holder a ob = Some (t, m))" "x = None \<and> k = 0 \<or> x = Some (t, k)"
  shows "depth_agrees b (d(t := (d t)(ob := k)))"
  unfolding depth_agrees_def
proof (intro allI)
  fix u ob'
  have "d u ob' = (case a_holder a ob' of Some (v, n) \<Rightarrow> (if v = u then n else 0) | None \<Rightarrow> 0)"
    using assms(1) by (simp add: depth_agrees_def)
  then show "(d(t := (d t)(ob := k))) u ob' =
      (case a_holder b ob' of Some (v, n) \<Rightarrow> (if v = u then n else 0) | None \<Rightarrow> 0)"
    using assms(2-4) by (cases "ob' = ob"; cases "u = t") auto
qed

lemma depth_agrees_step:
  assumes d: "depth_agrees a d" and s: "amon e a = Some b"
  shows "depth_agrees b (depth_ev e d)"
proof -
  have h: "d t ob = (case a_holder a ob of Some (u, n) \<Rightarrow> (if u = t then n else 0) | None \<Rightarrow> 0)" for t ob
    using d by (simp add: depth_agrees_def)
  show ?thesis
  proof (cases e)
    case (Ev_enter t ob)
    then show ?thesis
      using s h [of t ob] by (auto intro!: depth_agrees_upd [OF d] split: option.splits if_splits)
  next
    case (Ev_exit t ob)
    then show ?thesis
      using s h [of t ob]
      by (auto intro!: depth_agrees_upd [OF d, where x = "if d t ob = 1 then None else Some (t, d t ob - 1)"]
          split: option.splits if_splits)
  next
    case (Ev_wait_release t ob n)
    then show ?thesis using s by (auto intro!: depth_agrees_upd [OF d] split: if_splits)
  next
    case (Ev_wait_acquire t ob n)
    then show ?thesis using s by (auto intro!: depth_agrees_upd [OF d] split: if_splits)
  qed
qed

lemma depth_agrees_run:
  "depth_agrees a d \<Longrightarrow> amon_run tr a = Some b \<Longrightarrow> depth_agrees b (fold depth_ev tr d)"
  by (induction tr arbitrary: a d) (auto split: option.splits dest: depth_agrees_step)

lemma reach_depth:
  assumes "reach hc ts tr s" "indices_ok ts"
  shows "depth tr t ob = (case holder s ob of Some (u, n) \<Rightarrow> (if u = t then n else 0) | None \<Rightarrow> 0)"
proof -
  have "depth_agrees amon_init (\<lambda>_ _. 0)" by (simp add: depth_agrees_def amon_init_def)
  then have "depth_agrees (abs_mon s) (depth tr)"
    using depth_agrees_run reach_linv [OF assms] unfolding depth_def by blast
  then show ?thesis by (simp add: depth_agrees_def abs_mon_def)
qed

text \<open>\<^bold>\<open>C1.\<close> Mutual exclusion. In every interleaving of any threads (with indices that fit the thin
  lock), at no time have two threads entered the monitor of an object without having left it,
  whether the lock is thin, being inflated or fat, and with waits in between.\<close>

theorem mutual_exclusion:
  assumes "reach hc ts tr s" "indices_ok ts" "0 < depth tr t ob" "0 < depth tr u ob"
  shows "t = u"
  using assms by (auto simp: reach_depth split: option.splits if_splits)

theorem mutual_exclusion_witness:
  "\<exists>tr s. reach (\<lambda>_. 0) [1, 2] tr s \<and> 0 < depth tr 1 0 \<and> depth tr 2 0 = 0"
proof -
  obtain tr s where r: "reach (\<lambda>_. 0) [1, 2] tr s" "tr = [Ev_enter 1 0]" using contention_reached by blast
  have "indices_ok [1, 2]" by (simp add: indices_ok_def)
  then have "0 < depth tr 1 0 \<Longrightarrow> 0 < depth tr 2 0 \<Longrightarrow> (1::nat) = 2" by (rule mutual_exclusion [OF r(1)])
  moreover have "0 < depth tr 1 0" using r(2) by (simp add: depth_def)
  ultimately show ?thesis using r(1) by auto
qed

text \<open>\<^bold>\<open>C2.\<close> Refinement. The lockwords, lock records and program counters of a reachable state
  abstract to the state the abstract monitor reaches by accepting the events so far: every enter
  found the monitor free or held by the same thread, every exit was by the holder, every wait gave
  the monitor up entirely and got it back at the depth it had.\<close>

theorem monitor_refines_abstract:
  assumes "reach hc ts tr s" "indices_ok ts"
  shows "amon_run tr amon_init = Some (abs_mon s)"
  using reach_linv [OF assms] by simp

theorem monitor_refines_abstract_witness:
  "\<exists>s. reach (\<lambda>_. 0) [1, 2] [Ev_enter 1 0] s \<and> amon_run [Ev_enter 1 0] amon_init = Some (abs_mon s)"
proof -
  obtain tr s where "reach (\<lambda>_. 0) [1, 2] tr s" "tr = [Ev_enter 1 0]" using contention_reached by blast
  moreover have "indices_ok [1, 2]" by (simp add: indices_ok_def)
  ultimately show ?thesis using monitor_refines_abstract by blast
qed

text \<open>\<^bold>\<open>C3.\<close> No step fails: the assertions of \<open>inflate\<close>, of the counter updates, of the fat path of
  \<open>lock_monitor_enter\<close> and of the FLC wait loop hold, every lock record a lockword points to exists,
  and no mutex is unlocked by a thread that does not hold it.\<close>

theorem monitor_never_fails:
  assumes "reach hc ts tr s" "indices_ok ts" "t \<in> set ts" "fresh_lr s newlr"
  shows "exec hc newlr expired t s \<noteq> Fails e \<and> pcs s t \<noteq> Crashed e"
proof
  note inv = reach_linv [OF assms(1,2)]
  then show "exec hc newlr expired t s \<noteq> Fails e"
    using exec_good [of hc s t newlr expired] assms by auto
  show "pcs s t \<noteq> Crashed e" using linvD(2) [of hc s t] inv assms(3) by auto
qed

theorem monitor_never_fails_witness:
  "exec (\<lambda>_. 0) 16 False 1 (init_state [1, 2]) \<noteq> Fails Assertion_failed"
proof -
  have "indices_ok [1, 2]" "fresh_lr (init_state [1, 2]) 16" by (simp add: indices_ok_def, code_simp)
  then show ?thesis using monitor_never_fails [OF reach_init, of "[1, 2]" 1 16] by simp
qed

text \<open>\<^bold>\<open>C4.\<close> No contender is forgotten. A thread that waits on the FLC list of a thread \<open>u\<close> for an
  object is on that list, \<open>u\<close>'s FLC bit is set, and \<open>u\<close> still holds the object by a thin lock or is
  on its way to \<open>notify_flc_waiters\<close> with the waiter among those it will wake.\<close>

theorem flc_waiter_not_lost:
  assumes "reach hc ts tr s" "indices_ok ts" "t \<in> set ts" "pcs s t = Flc_wait ob u"
    "flc_object (threads s t) \<noteq> None"
  shows "t \<in> set (flc_list (threads s u)) \<and> flc_bit (threads s u) \<and>
    (thin_held s u ob \<or> pcs s u = Exit_unlocked ob \<or> (\<exists>k. pcs s u = Notify_flc ob k) \<or>
     (\<exists>ob' ws k. pcs s u = Notify_flc_loop ob' ws k \<and> t \<in> set ws))"
proof -
  have inv: "linv hc s" "active s = ts" using reach_linv [OF assms(1,2)] by simp_all
  have u: "u \<in> set (active s)" using linvD(2) [OF inv(1), of t] inv(2) assms(3,4) by simp
  have l: "t \<in> set (flc_list (threads s u))"
    using linvD(3) [OF inv(1), of t] inv(2) assms(3-5) by auto
  note e = flc_entry [OF inv(1) u l]
  show ?thesis
  proof (cases "\<exists>ob' ws k. pcs s u = Notify_flc_loop ob' ws k")
    case True
    then show ?thesis using e(1,4) l assms(5) by (auto simp: entry_ok_def split: if_splits)
  next
    case False
    then show ?thesis using e(1,4) l assms(4) by (auto simp: entry_ok_other owes_def)
  qed
qed

theorem flc_waiter_not_lost_witness:
  "\<exists>tr s. reach (\<lambda>_. 0) [1, 2] tr s \<and> 2 \<in> set (flc_list (threads s 1)) \<and> flc_bit (threads s 1)"
proof -
  obtain tr s where "reach (\<lambda>_. 0) [1, 2] tr s" "pcs s 2 = Flc_wait 0 1" "flc_object (threads s 2) = Some 0"
    using contention_reached by blast
  moreover have "indices_ok [1, 2]" by (simp add: indices_ok_def)
  ultimately have "2 \<in> set (flc_list (threads s 1)) \<and> flc_bit (threads s 1)"
    using flc_waiter_not_lost [of "\<lambda>_. 0" "[1, 2]" tr s 2 0 1] by simp
  with \<open>reach (\<lambda>_. 0) [1, 2] tr s\<close> show ?thesis by blast
qed

text \<open>\<^bold>\<open>C5.\<close> \<open>lock_is_held_by_current_thread\<close> answers whether the thread is inside the monitor.\<close>

theorem is_held_correct:
  assumes "reach hc ts tr s" "indices_ok ts" "t \<in> set ts"
  shows "lock_is_held_by_current_thread t ob s \<longleftrightarrow> 0 < depth tr t ob"
proof -
  have inv: "mem_inv hc s" "active s = ts" using reach_linv [OF assms(1,2)] linvD(1) by auto
  then have t: "t \<in> set (active s)" using assms(3) by simp
  obtain v where v: "valid_view s ob v" "lockword s ob = word_of v" using view_exists [OF inv(1)] by blast
  note idx = mem_invD(1-3) [OF inv(1) t] and h = holder_view [OF inv(1) v]
  have "lock_is_held_by_current_thread t ob s \<longleftrightarrow> owns s t ob"
  proof (cases "\<exists>lr. v = Fat lr")
    case True
    then obtain lr where lr: "v = Fat lr" by blast
    then show ?thesis
      using h v get_fat_word_of [of lr] is_fat_word_of [of v]
      by (auto simp: lock_is_held_by_current_thread_def owns_def valid_view_def split: option.splits)
  next
    case False
    then have "\<not> is_fat_lock (lockword s ob)" using v(2) is_fat_word_of by metis
    moreover have "get_thin_lock_without_count (lockword s ob) = th_thinlock (threads s t) \<longleftrightarrow> (\<exists>c. v = Thin t c)"
      using owner_test [OF valid_view_ok [OF v(1)] idx(1,2)] v(2) idx(3) by simp
    ultimately show ?thesis
      using False h by (cases v) (auto simp: lock_is_held_by_current_thread_def owns_def)
  qed
  moreover have "owns s t ob \<longleftrightarrow> 0 < depth tr t ob"
    using h reach_depth [OF assms(1,2), of t ob]
    by (auto simp: owns_def map_option_eq_Some split: lview.splits option.splits if_splits)
  ultimately show ?thesis by simp
qed

theorem is_held_correct_witness:
  "\<exists>tr s. reach (\<lambda>_. 0) [1, 2] tr s \<and> lock_is_held_by_current_thread 1 0 s"
proof -
  obtain tr s where r: "reach (\<lambda>_. 0) [1, 2] tr s" "tr = [Ev_enter 1 0]" using contention_reached by blast
  have "indices_ok [1, 2]" by (simp add: indices_ok_def)
  then have "lock_is_held_by_current_thread 1 0 s" using is_held_correct [OF r(1), of 1 0] r(2) by (simp add: depth_def)
  with r(1) show ?thesis by blast
qed

section \<open>Leaving a monitor\<close>

lemma foreign_exit_reached:
  "\<exists>tr s lw. reach (\<lambda>_. 0) [1, 2] tr s \<and> pcs s 2 = Exit_loaded 0 lw \<and> depth tr 2 0 = 0 \<and> fresh_lr s 16"
proof -
  obtain tr s where r: "reach (\<lambda>_. 0) [1, 2] tr s" "case pcs s 2 of Exit_loaded ob lw \<Rightarrow> ob = 0 | _ \<Rightarrow> False"
    "tr = [Ev_enter 1 0]" "fresh_lr s 16" using foreign_exit_run by blast
  then obtain lw where "pcs s 2 = Exit_loaded 0 lw" by (cases "pcs s 2") auto
  moreover have "depth tr 2 0 = 0" using r(3) by (simp add: depth_def)
  ultimately show ?thesis using r by blast
qed

text \<open>\<^bold>\<open>C6.\<close> \<open>lock_monitor_exit\<close> decides correctly on the lockword it has read, however stale: a thread
  that is inside the monitor leaves it once, any other thread gets an
  \<open>IllegalMonitorStateException\<close> and changes nothing. It never blocks.\<close>

theorem exit_outcome:
  assumes "reach hc ts tr s" "indices_ok ts" "t \<in> set ts" "fresh_lr s newlr"
    "pcs s t = Exit_loaded ob lw"
  shows "\<exists>s' evs. exec hc newlr expired t s = Runs (s', evs) \<and>
    (if 0 < depth tr t ob then evs = [Ev_exit t ob]
     else evs = [] \<and> s' = set_pc t (Done (Inl IllegalMonitorStateException)) s)"
proof -
  have inv: "linv hc s" "active s = ts" using reach_linv [OF assms(1,2)] by simp_all
  then have t: "t \<in> set (active s)" using assms(3) by simp
  note mem = linvD(1) [OF inv(1)] and idx = mem_invD(1-3) [OF linvD(1) [OF inv(1)] t]
  have c: "cached s t ob lw" using linvD(2) [OF inv(1) t] assms(5) by simp
  have own: "0 < depth tr t ob \<longleftrightarrow> owns s t ob"
  proof -
    obtain v where v: "valid_view s ob v" "lockword s ob = word_of v" using view_exists [OF mem] by blast
    show ?thesis
      using holder_view [OF mem v] reach_depth [OF assms(1,2), of t ob]
      by (auto simp: owns_def map_option_eq_Some split: lview.splits option.splits if_splits)
  qed
  have run: "exec hc newlr expired t s = exit_loaded t ob lw s" by (simp add: exec_def assms(5))
  consider (thin) "get_thin_lock_without_count lw = th_thinlock (threads s t)"
    | (fat) "get_thin_lock_without_count lw \<noteq> th_thinlock (threads s t)" "is_fat_lock lw"
    | (other) "get_thin_lock_without_count lw \<noteq> th_thinlock (threads s t)" "\<not> is_fat_lock lw"
    by blast
  then show ?thesis
  proof cases
    case thin
    obtain n where n: "lockword s ob = thinword t n" "lw = thinword t n" "n < 256"
      "view_ok (Thin t n)" "holder s ob = Some (t, n + 1)"
      using cached_own_thin [OF mem t c thin] by blast
    have "owns s t ob" using n(5) by (simp add: owns_def)
    moreover have "\<exists>s'. exit_loaded t ob lw s = Runs (s', [Ev_exit t ob])"
      using thin n decrease_thinword [of t "n - 1"] by (cases n) (auto simp: exit_loaded_def get_thin_lock_def idx(3))
    ultimately show ?thesis using run own by auto
  next
    case fat
    obtain lr r where f: "get_fat_lock lw = lr" "lr_heap s lr = Some r" "rec_ok s lr r"
      "holder s ob = map_option (\<lambda>t. (t, lr_count r + 1)) (lr_owner r)"
      using cached_fat [OF mem c fat(2)] by metis
    have ntl: "get_thin_lock lw \<noteq> th_thinlock (threads s t)"
      using fat(2) idx(3) thinword_is_thin(2) by (metis get_thin_lock_def)
    have "owns s t ob \<longleftrightarrow> lr_owner r = Some t" using f(4) by (auto simp: owns_def)
    then show ?thesis
      using run own fat f ntl
      by (auto simp: exit_loaded_def deref_def Let_def lock_record_exit_def mutex_unlock_def rec_ok_def)
  next
    case other
    have "get_thin_lock lw \<noteq> th_thinlock (threads s t)"
      using other(1) idx thinword_without_count [of t 0] by (auto simp: get_thin_lock_def)
    then show ?thesis
      using run own other cached_not_own(1) [OF mem t c other] by (simp add: exit_loaded_def)
  qed
qed

theorem exit_outcome_witness:
  "\<exists>tr s lw. reach (\<lambda>_. 0) [1, 2] tr s \<and> pcs s 2 = Exit_loaded 0 lw \<and>
     (\<exists>newlr. exec (\<lambda>_. 0) newlr False 2 s = Runs (set_pc 2 (Done (Inl IllegalMonitorStateException)) s, []))"
proof -
  obtain tr s lw where r: "reach (\<lambda>_. 0) [1, 2] tr s" "pcs s 2 = Exit_loaded 0 lw"
    "depth tr 2 0 = 0" "fresh_lr s 16"
    using foreign_exit_reached by blast
  moreover have "indices_ok [1, 2]" by (simp add: indices_ok_def)
  ultimately show ?thesis using exit_outcome [of "\<lambda>_. 0" "[1, 2]" tr s 2 16 0 lw False] by auto
qed

section \<open>Entering a monitor\<close>

lemma overflow_step:
  assumes "linv hc s" "t \<in> set (active s)" "fresh_lr s newlr"
    "pcs s t = Enter_failed ob lw" "lockword s ob = thinword t 255"
  shows "\<exists>s'. exec hc newlr expired t s = Runs (s', [Ev_enter t ob]) \<and>
    is_fat_lock (lockword s' ob) \<and> holder s' ob = Some (t, 257) \<and> pcs s' t = Notify_flc ob Return_true \<and> threads s' = threads s"
proof -
  note mem = linvD(1) [OF assms(1)] and idx = mem_invD(1-3) [OF linvD(1) [OF assms(1)] assms(2)]
  have h: "holder s ob = Some (t, 256)" using assms(5) idx by (simp add: holder_def holder_of_thin)
  have "cached s t ob lw" using linvD(2) [OF assms(1,2)] assms(4) by simp
  then have lw: "lw = thinword t 255" using h assms(5) by (simp add: cached_def owns_def)
  have lt: "(255::nat) < 256" by simp
  obtain s3 lr r where g: "get_enter_inflate hc newlr t ob s = Runs (s3, lr)" "mem_inv hc s3"
    "get_fat_lock lr = lr" "lockword s3 = (lockword s)(ob := lw_set_record lr)"
    "threads s3 = threads s" "active s3 = active s" "pcs s3 = pcs s" "holder s3 = holder s"
    "lr_heap s3 lr = Some r" "lr_object r = Some ob" "lr_owner r = Some t" "lr_count r = 255"
    using inflate_mem [OF mem assms(2,5) lt assms(3)] by metis
  have "get_thin_lock_without_count lw = th_thinlock (threads s t)" "is_max_thin_lock_count lw"
    using idx lw by (simp_all add: thinword_without_count is_max_thinword)
  then have "enter_failed hc newlr t ob lw s =
      Runs (set_pc t (Notify_flc ob Return_true) (set_lr lr (r\<lparr>lr_count := 256\<rparr>) s3), [Ev_enter t ob])"
    using g by (simp add: enter_failed_def lr_add_count_def deref_def)
  then show ?thesis
    using assms(4) g holder_of_fat [of lr "(lr_heap s3)(lr \<mapsto> r\<lparr>lr_count := 256\<rparr>)" "r\<lparr>lr_count := 256\<rparr>"]
    by (simp add: exec_def set_record_is_fat holder_def)
qed

text \<open>\<^bold>\<open>C7.\<close> The recursion counter of the thin lock does not overflow: the enter at count 255 inflates
  the lock, carries the count over to the record, and turns to the FLC waiters. This neither blocks
  nor fails.\<close>

theorem overflow_inflates:
  assumes "linv hc s" "t \<in> set (active s)" "fresh_lr s newlr"
    "pcs s t = Enter_failed ob lw" "lockword s ob = thinword t 255"
  shows "\<exists>s'. exec hc newlr expired t s = Runs (s', [Ev_enter t ob]) \<and>
    is_fat_lock (lockword s' ob) \<and> holder s' ob = Some (t, 257) \<and> pcs s' t = Notify_flc ob Return_true"
  using overflow_step [OF assms] by blast

theorem overflow_inflates_witness:
  "\<exists>s s'. exec (\<lambda>_. 0) 16 False 1 s = Runs (s', [Ev_enter 1 0]) \<and> lockword s 0 = thinword 1 255 \<and>
     holder s' 0 = Some (1, 257)"
proof -
  let ?init = "init_state [1]"
  let ?s = "set_pc 1 (Enter_failed 0 (thinword 1 255)) (set_lockword 0 (word_of (Thin 1 255)) ?init)"
  have i: "linv (\<lambda>_. 0) ?init" by (rule init_linv) (simp add: indices_ok_def)
  have "linv (\<lambda>_. 0) ?s"
    by (rule thin_step(1) [where v = Free], rule i)
      (simp_all add: init_state_def owes_def cached_def THIN_UNLOCKED_def)
  moreover have "fresh_lr ?s 16" by (simp add: fresh_lr_def init_state_def) code_simp
  ultimately have "\<exists>s'. exec (\<lambda>_. 0) 16 False 1 ?s = Runs (s', [Ev_enter 1 0]) \<and>
      is_fat_lock (lockword s' 0) \<and> holder s' 0 = Some (1, 257) \<and> pcs s' 1 = Notify_flc 0 Return_true"
    by (intro overflow_inflates) (simp_all add: init_state_def)
  then obtain s' where "exec (\<lambda>_. 0) 16 False 1 ?s = Runs (s', [Ev_enter 1 0])" "holder s' 0 = Some (1, 257)"
    by blast
  moreover have "lockword ?s 0 = thinword 1 255" by simp
  ultimately show ?thesis by blast
qed

text \<open>The thread running alone, one step for each address of the list; a step that allocates a record gets the address.\<close>

fun solo :: "(objref option \<Rightarrow> u4) \<Rightarrow> tid \<Rightarrow> uintptr_t list \<Rightarrow> vmstate \<Rightarrow> (vmstate \<times> event list) option" where
  "solo hc t [] s = Some (s, [])"
| "solo hc t (p # ps) s = (case exec hc p False t s of
     Runs (s', evs) \<Rightarrow> (case solo hc t ps s' of None \<Rightarrow> None | Some (s'', evs') \<Rightarrow> Some (s'', evs @ evs'))
   | _ \<Rightarrow> None)"

definition all_fresh :: "vmstate \<Rightarrow> uintptr_t list \<Rightarrow> bool" where
  "all_fresh s ps \<longleftrightarrow> distinct ps \<and> (\<forall>p \<in> set ps. fresh_lr s p)"

lemma inflate_heap: "get_enter_inflate hc p t ob s = Runs (s3, lr) \<Longrightarrow> lr_heap s q = None \<Longrightarrow> q \<noteq> p \<Longrightarrow> lr_heap s3 q = None"
proof -
  assume a: "get_enter_inflate hc p t ob s = Runs (s3, lr)" "lr_heap s q = None" "q \<noteq> p"
  obtain s1 lr1 where g: "lock_hashtable_get hc p ob s = (s1, lr1)" by fastforce
  then have 1: "lr_heap s1 q = None" using a(2,3) by (auto simp: lock_hashtable_get_def Let_def set_lr_def split: if_splits option.splits)
  obtain s2 where 2: "lock_record_enter t lr1 s1 = Runs s2" "lock_inflate t ob lr1 s2 = Runs s3"
    using a(1) g by (auto simp: get_enter_inflate_def run_bind_Runs)
  have "lr_heap s2 q = None" using 1 2(1) by (auto simp: lock_record_enter_def deref_def set_lr_def run_bind_Runs split: option.splits)
  then show ?thesis using 2(2) by (auto simp: lock_inflate_def Let_def deref_def set_lr_def run_bind_Runs split: option.splits if_splits)
qed

text \<open>The addresses that a step does not use stay fresh.\<close>

lemma enter_failed_heap:
  assumes "enter_failed hc p t ob lw s = Runs (s', evs)" "lr_heap s q = None" "q \<noteq> p"
  shows "lr_heap s' q = None"
proof -
  have add: "lr_heap s2 q = None" if "lr_add_count lr s1 = Runs s2" "lr_heap s1 q = None" for lr s1 s2
    using that by (auto simp: lr_add_count_def deref_def set_lr_def run_bind_Runs split: option.splits)
  show ?thesis using assms inflate_heap [OF _ assms(2,3)] add
    by (auto simp: enter_failed_def Let_def run_bind_Runs deref_def split: if_splits sum.splits option.splits prod.splits)
qed

lemma notify_iter_heap:
  assumes "quiet (notify_flc_iter hc p t ob w ws k s) = Runs (s', evs)" "lr_heap s q = None" "q \<noteq> p"
  shows "lr_heap s' q = None"
  using assms inflate_heap [OF _ assms(2,3)]
  by (auto simp: quiet_def notify_flc_iter_def run_bind_Runs split: if_splits option.splits prod.splits)

lemma all_fresh_step:
  assumes "all_fresh s (p # ps)" "\<And>q. lr_heap s q = None \<Longrightarrow> q \<noteq> p \<Longrightarrow> lr_heap s' q = None"
  shows "all_fresh s' ps"
  unfolding all_fresh_def fresh_lr_def
proof (intro conjI ballI)
  fix q assume "q \<in> set ps"
  then have "lr_heap s q = None" "q \<noteq> p" "get_fat_lock q = q" using assms(1) by (auto simp: all_fresh_def fresh_lr_def)
  then show "lr_heap s' q = None" "get_fat_lock q = q" using assms(2) by simp_all
qed (use assms(1) in \<open>simp add: all_fresh_def\<close>)

lemma notify_iter_solo:
  assumes "linv hc s" "t \<in> set (active s)" "pcs s t = Notify_flc_loop ob (w # ws) k" "all_fresh s (p # ps)"
  shows "\<exists>s'. exec hc p False t s = Runs (s', []) \<and> linv hc s' \<and> active s' = active s \<and> pcs s' t = Notify_flc_loop ob ws k \<and> holder s' = holder s \<and> all_fresh s' ps"
proof -
  have fresh: "fresh_lr s p" using assms(4) by (simp add: all_fresh_def)
  show ?thesis
  proof (rule notify_iter_runs [OF assms(1-3) fresh])
    fix s1 ob'
    let ?s = "set_pc t (Notify_flc_loop ob ws k) (upd_thread w (\<lambda>x. x\<lparr>flc_object := None\<rparr>) s1)"
    assume s1: "quiet (notify_flc_iter hc p t ob w ws k s) = Runs (?s, [])" "holder s1 = holder s" "active s1 = active s"
    have "linv hc ?s" using notify_iter_good [OF assms(1-3) fresh] s1(1) by simp
    moreover have "all_fresh ?s ps" by (rule all_fresh_step [OF assms(4)]) (rule notify_iter_heap [OF s1(1)])
    moreover have "exec hc p False t s = Runs (?s, [])" using s1(1) by (simp add: exec_def assms(3))
    ultimately show ?thesis using s1(2,3) by (intro exI [of _ ?s]) simp
  qed
qed

text \<open>The notification of contenders comes to its end.\<close>

lemma solo_notify_loop:
  assumes "linv hc s" "t \<in> set (active s)" "pcs s t = Notify_flc_loop ob ws Return_true" "all_fresh s ps" "length ps = Suc (length ws)"
  shows "\<exists>s'. solo hc t ps s = Some (s', []) \<and> pcs s' t = Done (Inr True) \<and> holder s' = holder s"
  using assms
proof (induction ws arbitrary: s ps)
  case Nil
  then obtain p where p: "ps = [p]" by (auto simp: length_Suc_conv)
  have lk: "flc_lock (threads s t) = Some (t, 1)" using linvD(3) [OF Nil.prems(1,2)] Nil.prems(3) by simp
  then show ?case using Nil.prems(3) by (simp add: p exec_def quiet_def notify_flc_end_def mutex_unlock_def)
next
  case (Cons w ws)
  obtain p ps' where p: "ps = p # ps'" "length ps' = Suc (length ws)" using Cons.prems(5) by (auto simp: length_Suc_conv)
  obtain s1 where s1: "exec hc p False t s = Runs (s1, [])" "linv hc s1" "active s1 = active s" "pcs s1 t = Notify_flc_loop ob ws Return_true"
      "holder s1 = holder s" "all_fresh s1 ps'"
    using notify_iter_solo [OF Cons.prems(1-3)] Cons.prems(4) p(1) by blast
  then obtain s' where "solo hc t ps' s1 = Some (s', [])" "pcs s' t = Done (Inr True)" "holder s' = holder s1"
    using Cons.IH [of s1 ps'] Cons.prems(2) p(2) by auto
  then show ?case using s1 p(1) by simp
qed

lemma solo_notify:
  assumes "linv hc s" "t \<in> set (active s)" "pcs s t = Notify_flc ob Return_true" "flc_lock (threads s t) = None" "all_fresh s ps"
    "length ps = length (flc_list (threads s t)) + 2"
  shows "\<exists>s'. solo hc t ps s = Some (s', []) \<and> pcs s' t = Done (Inr True) \<and> holder s' = holder s"
proof -
  obtain p ps' where p: "ps = p # ps'" "length ps' = Suc (length (flc_list (threads s t)))" using assms(6) by (cases ps) auto
  let ?s = "set_pc t (Notify_flc_loop ob (flc_list (threads s t)) Return_true) (upd_thread t (\<lambda>x. x\<lparr>flc_lock := Some (t, 1)\<rparr>) s)"
  have run: "quiet (notify_flc_begin t ob Return_true s) = Runs (?s, [])" using assms(4) by (simp add: quiet_def notify_flc_begin_def mutex_lock_def)
  have inv: "linv hc ?s" using notify_begin_good [OF assms(1-3)] run by simp
  have "all_fresh s (p # ps')" using assms(5) p(1) by simp
  then have "all_fresh ?s ps'" by (rule all_fresh_step) simp
  then obtain s' where "solo hc t ps' ?s = Some (s', [])" "pcs s' t = Done (Inr True)" "holder s' = holder ?s"
    using solo_notify_loop [of hc ?s t ob, OF inv _ _ _ p(2)] assms(2) by auto
  moreover have "exec hc p False t s = Runs (?s, [])" using run by (simp add: exec_def assms(3))
  ultimately show ?thesis using p(1) by simp
qed

text \<open>The count of a monitor that nobody else holds.\<close>

definition own_count :: "vmstate \<Rightarrow> tid \<Rightarrow> objref \<Rightarrow> nat \<Rightarrow> bool" where
  "own_count s t ob n \<longleftrightarrow> (if n = 0 then holder s ob = None else holder s ob = Some (t, n))"

lemma enter_event_holder:
  assumes "linv hc s" "t \<in> set (active s)" "fresh_lr s p" "exec hc p False t s = Runs (s', [Ev_enter t ob])" "own_count s t ob n"
  shows "linv hc s'" "active s' = active s" "holder s' ob = Some (t, n + 1)"
proof -
  have "good hc s (exec hc p False t s)" using exec_good [OF assms(1-3)] .
  then have g: "linv hc s'" "amon_run [Ev_enter t ob] (abs_mon s) = Some (abs_mon s')" "active s' = active s" using assms(4) by simp_all
  then show "linv hc s'" "active s' = active s" by simp_all
  have "a_holder (abs_mon s') = (holder s)(ob := Some (t, n + 1))"
    using g(2) assms(5) by (auto simp: own_count_def abs_mon_def split: if_splits option.splits)
  then show "holder s' ob = Some (t, n + 1)" by (simp add: abs_mon_def)
qed

text \<open>A step that enters and returns.\<close>

lemma solo_returns:
  assumes "linv hc s" "t \<in> set (active s)" "all_fresh s (p # ps)" "exec hc p False t s = Runs (s', [Ev_enter t ob])" "pcs s' t = Done (Inr True)"
    "own_count s t ob n"
  shows "\<exists>k \<le> 1. \<exists>s'. solo hc t (take k (p # ps)) s = Some (s', [Ev_enter t ob]) \<and> pcs s' t = Done (Inr True) \<and> holder s' ob = Some (t, n + 1)"
proof -
  have "fresh_lr s p" using assms(3) by (simp add: all_fresh_def)
  note enter_event_holder(3) [OF assms(1,2) this assms(4,6)]
  then show ?thesis using assms(4,5) by (intro exI [of _ 1]) simp
qed

lemma solo_enter_failed:
  assumes inv: "linv hc s" and t: "t \<in> set (active s)" and fresh: "all_fresh s ps" and len: "length ps = length (flc_list (threads s t)) + 3"
    and pc: "pcs s t = Enter_failed ob lw" and lw: "lw = lockword s ob" "lw \<noteq> 0"
    and h: "own_count s t ob n" and lk: "flc_lock (threads s t) = None"
  shows "\<exists>k \<le> length ps. \<exists>s'. solo hc t (take k ps) s = Some (s', [Ev_enter t ob]) \<and> pcs s' t = Done (Inr True) \<and> holder s' ob = Some (t, n + 1)"
proof -
  note mem = linvD(1) [OF inv] and idx = mem_invD(1-3) [OF linvD(1) [OF inv] t]
  obtain p q ps' where p: "ps = p # q # ps'" using len by (cases ps; cases "tl ps") auto
  have fp: "fresh_lr s p" "fresh_lr s q" "q \<noteq> p" using fresh p by (auto simp: all_fresh_def)
  have c: "cached s t ob lw" by (simp add: cached_def lw)
  have run: "exec hc p False t s = enter_failed hc p t ob lw s" by (simp add: exec_def pc)
  have one: ?thesis if "enter_failed hc p t ob lw s = Runs (s', [Ev_enter t ob])" "pcs s' t = Done (Inr True)" for s'
  proof -
    have "all_fresh s (p # q # ps')" "exec hc p False t s = Runs (s', [Ev_enter t ob])" using fresh p run that(1) by simp_all
    from solo_returns [OF inv t this that(2) h] obtain k s'' where "k \<le> 1" "solo hc t (take k ps) s = Some (s'', [Ev_enter t ob])"
        "pcs s'' t = Done (Inr True)" "holder s'' ob = Some (t, n + 1)" unfolding p by blast
    moreover have "1 \<le> length ps" by (simp add: p)
    ultimately show ?thesis using le_trans by blast
  qed
  show ?thesis
  proof (cases "get_thin_lock_without_count lw = th_thinlock (threads s t)")
    case True
    obtain m where n: "lockword s ob = thinword t m" "lw = thinword t m" "m < 256" "view_ok (Thin t m)"
      using cached_own_thin [OF mem t c True] by blast
    show ?thesis
    proof (cases "m = 255")
      case False
      then show ?thesis
        using True n by (intro one [of "set_pc t (Done (Inr True)) (set_lockword ob (thinword t (m + 1)) s)"])
          (simp_all add: enter_failed_def is_max_thinword increase_thinword)
    next
      case max: True
      obtain s1 where s1: "exec hc p False t s = Runs (s1, [Ev_enter t ob])" "pcs s1 t = Notify_flc ob Return_true" "threads s1 = threads s"
        using overflow_step [OF inv t fp(1) pc, of False] n(1) max by metis
      note e = enter_event_holder [OF inv t fp(1) s1(1) h]
      have "all_fresh s1 (q # ps')" using fresh enter_failed_heap [OF s1(1) [unfolded run]] unfolding p by (rule all_fresh_step)
      moreover have "t \<in> set (active s1)" "flc_lock (threads s1 t) = None" "length (q # ps') = length (flc_list (threads s1 t)) + 2"
        using t e(2) lk s1(3) len p by simp_all
      ultimately obtain s2 where "solo hc t (q # ps') s1 = Some (s2, [])" "pcs s2 t = Done (Inr True)" "holder s2 = holder s1"
        using solo_notify [OF e(1) _ s1(2)] by blast
      then have "solo hc t (take (length ps) ps) s = Some (s2, [Ev_enter t ob])" "pcs s2 t = Done (Inr True)" "holder s2 ob = Some (t, n + 1)"
        using s1(1) e(3) by (simp_all add: p)
      then show ?thesis by blast
    qed
  next
    case False
    have fat: "is_fat_lock lw"
    proof (rule ccontr)
      assume nf: "\<not> is_fat_lock lw"
      then have none: "holder s ob = None"
        using cached_not_own(1) [OF mem t c False] h by (auto simp: owns_def own_count_def split: if_splits)
      obtain v where v: "valid_view s ob v" "lockword s ob = word_of v" using view_exists [OF mem] by blast
      then show False
        using holder_view [OF mem v] none lw nf is_fat_word_of [of v] by (cases v) auto
    qed
    obtain lr r where f: "get_fat_lock lw = lr" "fat_at s ob lr" "lr_heap s lr = Some r" "rec_ok s lr r"
      "holder s ob = map_option (\<lambda>t. (t, lr_count r + 1)) (lr_owner r)"
      using cached_fat [OF mem c fat] by metis
    show ?thesis
    proof (cases "lr_owner r = Some t")
      case True
      then show ?thesis
        using False fat f
        by (intro one [of "set_pc t (Done (Inr True)) (set_lr lr (r\<lparr>lr_count := lr_count r + 1\<rparr>) s)"]) (simp_all add: enter_failed_def deref_def lr_add_count_def Let_def)
    next
      case no: False
      then have none: "lr_owner r = None" using h f(5) by (cases "lr_owner r") (auto simp: own_count_def split: if_splits)
      let ?s = "set_pc t (Enter_fat ob lr) s"
      have ef: "exec hc p False t s = Runs (?s, [])" using False fat f no run by (simp add: enter_failed_def deref_def Let_def)
      have "good hc s (exec hc p False t s)" using exec_good [OF inv t fp(1)] .
      then have inv1: "linv hc ?s" using ef by simp
      obtain s2 where s2: "exec hc q False t ?s = Runs (s2, [Ev_enter t ob])" "pcs s2 t = Done (Inr True)"
        using f none by (auto simp: exec_def enter_fat_def lock_record_enter_def deref_def mutex_lock_def rec_ok_def)
      have "own_count ?s t ob n" "fresh_lr ?s q" using h fp(2) by (simp_all add: own_count_def fresh_lr_def)
      then have "holder s2 ob = Some (t, n + 1)" using enter_event_holder(3) [OF inv1 _ _ s2(1)] t by simp
      then show ?thesis using ef s2 by (intro exI [of _ 2]) (simp add: p numeral_2_eq_2)
    qed
  qed
qed

text \<open>\<^bold>\<open>C8.\<close> A thread that enters a monitor nobody else holds gets it: run on its own from the
  \<open>retry\<close> label, \<open>lock_monitor_enter\<close> returns true after at most \<open>n + 5\<close> steps, where \<open>n\<close> contenders are enqueued with the
  thread (which are notified if the count overflows), and the thread then holds the monitor once more than before. The addresses
  that the allocator returns are \<open>ps\<close>, and no contender is at that moment inside the critical section in which it enqueues itself.\<close>

theorem enter_free_monitor:
  assumes "reach hc ts tr s" "indices_ok ts" "t \<in> set ts" "all_fresh s ps" "length ps = length (flc_list (threads s t)) + 5"
    "pcs s t = Enter_retry ob" "\<forall>u. u \<noteq> t \<longrightarrow> depth tr u ob = 0" "flc_lock (threads s t) = None"
  shows "\<exists>k \<le> length (flc_list (threads s t)) + 5. \<exists>s'. solo hc t (take k ps) s = Some (s', [Ev_enter t ob]) \<and>
    pcs s' t = Done (Inr True) \<and> holder s' ob = Some (t, depth tr t ob + 1)"
proof -
  have inv: "linv hc s" "active s = ts" using reach_linv [OF assms(1,2)] by simp_all
  then have t: "t \<in> set (active s)" using assms(3) by simp
  note mem = linvD(1) [OF inv(1)]
  obtain p q ps' where p: "ps = p # q # ps'" using assms(5) by (cases ps; cases "tl ps") auto
  have h: "own_count s t ob (depth tr t ob)"
  proof (cases "holder s ob")
    case None
    then show ?thesis using reach_depth [OF assms(1,2), of t ob] by (simp add: own_count_def)
  next
    case (Some un)
    obtain v where v: "valid_view s ob v" "lockword s ob = word_of v" using view_exists [OF mem] by blast
    have "0 < snd un" using trans [OF holder_view [OF mem v, symmetric] Some]
      by (auto simp: map_option_eq_Some split: lview.splits option.splits)
    then show ?thesis
      using Some reach_depth [OF assms(1,2), of "fst un" ob] reach_depth [OF assms(1,2), of t ob] assms(7)
      by (cases un) (auto simp: own_count_def split: if_splits)
  qed
  define lw where "lw = lockword s ob"
  let ?s1 = "set_pc t (Enter_cas ob lw) s"
  let ?s2 = "set_pc t (Enter_failed ob lw) s"
  have e1: "exec hc p False t s = Runs (?s1, [])"
    by (simp add: exec_def assms(6) quiet_def enter_read_def lw_def)
  have "good hc s (exec hc p False t s)" using exec_good [OF inv(1) t] assms(4) p by (simp add: all_fresh_def)
  then have inv1: "linv hc ?s1" using e1 by simp
  show ?thesis
  proof (cases "lw = 0")
    case True
    then obtain s' where "exec hc q False t ?s1 = Runs (s', [Ev_enter t ob])" "pcs s' t = Done (Inr True)"
      by (auto simp: exec_def enter_cas_def lw_lock_def compare_and_swap_def is_unlocked_def THIN_UNLOCKED_def
          simp flip: lw_def)
    moreover have "all_fresh ?s1 (q # ps')" "own_count ?s1 t ob (depth tr t ob)" using assms(4) p h by (auto simp: all_fresh_def fresh_lr_def own_count_def)
    ultimately obtain k s'' where "k \<le> 1" "solo hc t (take k (q # ps')) ?s1 = Some (s'', [Ev_enter t ob])" "pcs s'' t = Done (Inr True)"
        "holder s'' ob = Some (t, depth tr t ob + 1)"
      using solo_returns [OF inv1, of t q ps' s' ob "depth tr t ob"] t by auto
    then show ?thesis using e1 by (intro exI [of _ "Suc k"]) (simp add: p)
  next
    case False
    have eq: "set_pc t p ?s1 = set_pc t p s" for p by (simp add: set_pc_def)
    have e2: "exec hc q False t ?s1 = Runs (?s2, [])"
      using False set_lockword_id [of ob ?s1]
      by (simp add: exec_def enter_cas_def lw_lock_def compare_and_swap_def is_unlocked_def
          THIN_UNLOCKED_def eq lw_def)
    have "linv hc ?s2"
      using good_set_pc [OF inv(1) t, of "Enter_failed ob lw"] assms(6) by (simp add: owes_def cached_def lw_def)
    moreover have "all_fresh ?s2 ps'" "own_count ?s2 t ob (depth tr t ob)" using assms(4) p h by (auto simp: all_fresh_def fresh_lr_def own_count_def)
    moreover have "length ps' = length (flc_list (threads s t)) + 3" using assms(5) p by simp
    ultimately obtain k s' where k: "k \<le> length ps'" "solo hc t (take k ps') ?s2 = Some (s', [Ev_enter t ob])" "pcs s' t = Done (Inr True)"
        "holder s' ob = Some (t, depth tr t ob + 1)"
      using solo_enter_failed [of hc ?s2 t ps' ob lw "depth tr t ob"] t False assms(8) by (auto simp: lw_def)
    then show ?thesis using e1 e2 assms(5) by (intro exI [of _ "Suc (Suc k)"]) (simp add: p)
  qed
qed

theorem enter_free_monitor_witness:
  "\<exists>k \<le> 5. \<exists>s'. solo (\<lambda>_. 0) 1 (take k [16, 32, 48, 64, 80]) (set_pc 1 (Enter_retry 0) (init_state [1])) = Some (s', [Ev_enter 1 0]) \<and>
    pcs s' 1 = Done (Inr True) \<and> holder s' 0 = Some (1, 1)"
proof -
  have "reach (\<lambda>_. 0) [1] ([] @ []) (set_pc 1 (call_pc (Call_enter (Some 0))) (init_state [1]))"
    by (rule reach_step [OF reach_init], rule lstep_call) (simp_all add: init_state_def)
  then have r: "reach (\<lambda>_. 0) [1] [] (set_pc 1 (Enter_retry 0) (init_state [1]))" by simp
  have "lr_heap (set_pc 1 (Enter_retry 0) (init_state [1])) p = None" for p by (simp add: init_state_def)
  moreover have "\<forall>p \<in> set [16, 32, 48, 64, 80]. get_fat_lock p = p" by code_simp
  ultimately have f: "all_fresh (set_pc 1 (Enter_retry 0) (init_state [1])) [16, 32, 48, 64, 80]"
    by (simp add: all_fresh_def fresh_lr_def)
  have fl: "flc_list (threads (set_pc 1 (Enter_retry 0) (init_state [1])) 1) = []" "flc_lock (threads (set_pc 1 (Enter_retry 0) (init_state [1])) 1) = None"
    by (simp_all add: init_state_def init_thread_def)
  show ?thesis
    using enter_free_monitor [OF r _ _ f, of 1 0] fl by (simp add: indices_ok_def depth_def init_state_def)
qed

section \<open>Notification\<close>

text \<open>\<^bold>\<open>C9.\<close> \<open>lock_record_notify\<close> with \<open>one\<close> signals exactly the first waiter that is not signaled yet;
  without it, every waiter is signaled. Nothing else about any thread changes.\<close>

theorem notify_signals:
  "lock_record_notify True ws s = (case find (\<lambda>w. \<not> th_signaled (threads s w)) ws of
     None \<Rightarrow> s | Some w \<Rightarrow> upd_thread w (\<lambda>x. x\<lparr>th_signaled := True\<rparr>) s) \<and>
   threads (lock_record_notify False ws s) w =
     (threads s w)\<lparr>th_signaled := (th_signaled (threads s w) \<or> w \<in> set ws)\<rparr>"
proof
  show "lock_record_notify True ws s = (case find (\<lambda>w. \<not> th_signaled (threads s w)) ws of
     None \<Rightarrow> s | Some w \<Rightarrow> upd_thread w (\<lambda>x. x\<lparr>th_signaled := True\<rparr>) s)"
    by (induction ws) (simp_all add: Let_def)
  show "threads (lock_record_notify False ws s) w =
     (threads s w)\<lparr>th_signaled := (th_signaled (threads s w) \<or> w \<in> set ws)\<rparr>"
    by (induction ws arbitrary: s) (auto simp: Let_def)
qed

end
