(* ===== verification/ClassNames.thy ===== *)
theory ClassNames
  imports LockTable
begin

unbundle bit_operations_syntax

text \<open>
  The first level of the loaded class cache (\<^verbatim>\<open>src/src/vm/classcache.cpp\<close>,
  \<^verbatim>\<open>src/src/toolbox/hashtable.cpp\<close>): a hash table from class names to name entries. A slot is
  the list of the entries on its \<open>hashlink\<close> chain. The slot is the hash masked with the table size
  less one, so the size has to stay a power of two; \<open>hashf\<close> is \<open>Utf8String::hash\<close>. Entries are
  changed in place through the pointer \<open>classcache_new_name\<close> returns; here \<open>cc_update\<close> applies the
  change to the entry of that name. The size and the number of entries, \<open>u4\<close> in the source, are natural
  numbers here; a table of two thousand million slots, whose doubling would wrap, is not covered.

  The interpretation \<open>ccn\<close> shows that the table is a \<open>keyed_table_update\<close>, the interface the second
  level is verified against.
\<close>

section \<open>Entries and the table\<close>

type_synonym classloader_t = "nat option"

text \<open>A loaded class; \<open>cls_id\<close> is its address, so that two classes are equal exactly when they are
  the same object.\<close>

record classinfo =
  cls_id :: nat
  cls_name :: string
  cls_classloader :: classloader_t

record classcache_class_entry =
  classobj :: "classinfo option"
  ce_loaders :: "classloader_t list"
  ce_constraints :: "classloader_t list"

record classcache_name_entry =
  ne_name :: string
  ne_classes :: "classcache_class_entry list"

record hashtable =
  ht_size :: nat
  ht_entries :: nat
  ht_ptr :: "classcache_name_entry list list"

definition CLASSCACHE_INIT_SIZE :: nat where
  "CLASSCACHE_INIT_SIZE = 2048"

definition hashtable_create :: "nat \<Rightarrow> hashtable" where
  "hashtable_create sz = \<lparr> ht_size = sz, ht_entries = 0, ht_ptr = replicate sz [] \<rparr>"

definition classcache_init :: hashtable where
  "classcache_init = hashtable_create CLASSCACHE_INIT_SIZE"

definition cc_slot :: "(string \<Rightarrow> u4) \<Rightarrow> nat \<Rightarrow> string \<Rightarrow> nat" where
  "cc_slot hashf sz name = unat (hashf name AND (word_of_nat sz - 1))"

fun cc_chain_search :: "string \<Rightarrow> classcache_name_entry list \<Rightarrow> classcache_name_entry option" where
  "cc_chain_search name [] = None"
| "cc_chain_search name (c # chain) = (if ne_name c = name then Some c else cc_chain_search name chain)"

definition classcache_lookup_name :: "(string \<Rightarrow> u4) \<Rightarrow> hashtable \<Rightarrow> string \<Rightarrow> classcache_name_entry option" where
  "classcache_lookup_name hashf t name = cc_chain_search name (ht_ptr t ! cc_slot hashf (ht_size t) name)"

definition cc_rehash1 ::
  "(string \<Rightarrow> u4) \<Rightarrow> nat \<Rightarrow> classcache_name_entry \<Rightarrow> classcache_name_entry list list \<Rightarrow> classcache_name_entry list list" where
  "cc_rehash1 hashf newsize c2 newptr =
     (let newslot = cc_slot hashf newsize (ne_name c2) in newptr[newslot := c2 # newptr ! newslot])"

definition cc_rehash :: "(string \<Rightarrow> u4) \<Rightarrow> hashtable \<Rightarrow> hashtable" where
  "cc_rehash hashf t =
     (let newhash = hashtable_create (ht_size t * 2)
      in newhash\<lparr>ht_entries := ht_entries t,
                 ht_ptr := fold (cc_rehash1 hashf (ht_size t * 2)) (concat (ht_ptr t)) (ht_ptr newhash)\<rparr>)"

text \<open>The part of \<open>classcache_new_name\<close> that creates an entry.\<close>

definition cc_enter :: "(string \<Rightarrow> u4) \<Rightarrow> hashtable \<Rightarrow> classcache_name_entry \<Rightarrow> hashtable" where
  "cc_enter hashf t c =
     (let slot = cc_slot hashf (ht_size t) (ne_name c);
          t1 = t\<lparr>ht_ptr := (ht_ptr t)[slot := c # ht_ptr t ! slot], ht_entries := ht_entries t + 1\<rparr>
      in if ht_entries t1 * 2 > ht_size t1 then cc_rehash hashf t1 else t1)"

definition classcache_new_name :: "(string \<Rightarrow> u4) \<Rightarrow> hashtable \<Rightarrow> string \<Rightarrow> hashtable \<times> classcache_name_entry" where
  "classcache_new_name hashf t name =
     (case classcache_lookup_name hashf t name of
        Some c \<Rightarrow> (t, c)
      | None \<Rightarrow> (let c = \<lparr> ne_name = name, ne_classes = [] \<rparr> in (cc_enter hashf t c, c)))"

definition cc_update ::
  "(string \<Rightarrow> u4) \<Rightarrow> hashtable \<Rightarrow> string \<Rightarrow> (classcache_name_entry \<Rightarrow> classcache_name_entry) \<Rightarrow> hashtable" where
  "cc_update hashf t name f =
     (let slot = cc_slot hashf (ht_size t) name
      in t\<lparr>ht_ptr := (ht_ptr t)[slot := map (\<lambda>c. if ne_name c = name then f c else c) (ht_ptr t ! slot)]\<rparr>)"

section \<open>Well-formed tables\<close>

text \<open>With a power of two as size, masking is taking the remainder, so that the facts on chains of
  the lock record table apply.\<close>

lemma cc_slot_mod: "cc_slot hashf (2 ^ k) name = lht_slot hashf (2 ^ k) name"
proof -
  have "word_of_nat (2 ^ k) - 1 = (mask k :: u4)" by (simp add: mask_eq_exp_minus_1)
  then have "unat (hashf name AND (word_of_nat (2 ^ k) - 1)) = unat (take_bit k (hashf name))"
    by (simp only: take_bit_eq_mask)
  also have "\<dots> = unat (hashf name) mod 2 ^ k"
    by (simp only: unsigned_take_bit_eq take_bit_nat_def)
  finally show ?thesis by (simp add: cc_slot_def lht_slot_def)
qed

lemma cc_chain_search_eq: "cc_chain_search name chain = lht_search ne_name name chain"
  by (induction chain) auto

definition as_lht :: "hashtable \<Rightarrow> classcache_name_entry lock_hashtable_t" where
  "as_lht t = \<lparr> lht_size = ht_size t, lht_entries = ht_entries t, lht_ptr = ht_ptr t \<rparr>"

definition cc_inv :: "(string \<Rightarrow> u4) \<Rightarrow> hashtable \<Rightarrow> bool" where
  "cc_inv hashf t \<longleftrightarrow> (\<exists>k. ht_size t = 2 ^ k) \<and> lht_inv hashf ne_name (as_lht t)"

definition cc_names :: "hashtable \<Rightarrow> classcache_name_entry set" where
  "cc_names t = set (concat (ht_ptr t))"

lemma cc_slot_lht: "cc_inv hashf t \<Longrightarrow> cc_slot hashf (ht_size t) = lht_slot hashf (ht_size t)"
  by (auto simp: cc_inv_def cc_slot_mod fun_eq_iff)

lemma cc_lookup_iff:
  assumes "cc_inv hashf t"
  shows "classcache_lookup_name hashf t name = Some c \<longleftrightarrow> c \<in> cc_names t \<and> ne_name c = name"
proof -
  have "classcache_lookup_name hashf t name = lht_lookup hashf ne_name (as_lht t) name"
    using cc_slot_lht [OF assms]
    by (simp add: classcache_lookup_name_def lht_lookup_def as_lht_def cc_chain_search_eq)
  then show ?thesis
    using lht_lookup_iff [of hashf ne_name "as_lht t"] assms
    by (simp add: cc_inv_def lht_records_def cc_names_def as_lht_def)
qed

lemma cc_push_inv:
  assumes inv: "cc_inv hashf t" and fresh: "\<forall>c' \<in> cc_names t. ne_name c' \<noteq> ne_name c"
  defines "slot \<equiv> cc_slot hashf (ht_size t) (ne_name c)"
  defines "t1 \<equiv> t\<lparr>ht_ptr := (ht_ptr t)[slot := c # ht_ptr t ! slot], ht_entries := ht_entries t + 1\<rparr>"
  shows "cc_inv hashf t1" "cc_names t1 = insert c (cc_names t)"
proof -
  have l: "chains_ok hashf ne_name (ht_size t) (ht_ptr t)" "0 < ht_size t" "inj_on ne_name (cc_names t)"
    "ht_entries t = length (concat (ht_ptr t))" "\<exists>k. ht_size t = 2 ^ k"
    using inv by (simp_all add: cc_inv_def lht_inv_def as_lht_def lht_records_def cc_names_def)
  have s: "slot = lht_slot hashf (ht_size t) (ne_name c)" using cc_slot_lht [OF inv] by (simp add: slot_def)
  note p = push_chain_props [OF l(1,2), of c, folded s]
  show n: "cc_names t1 = insert c (cc_names t)" using p(2) by (simp add: cc_names_def t1_def del: set_concat)
  have "inj_on ne_name (insert c (cc_names t))" using l(3) fresh by (auto simp: inj_on_def)
  then show "cc_inv hashf t1"
    using p(1,3) l n
    by (simp add: cc_inv_def lht_inv_def as_lht_def lht_records_def t1_def cc_names_def del: set_concat)
qed

lemma cc_rehash_inv:
  assumes inv: "cc_inv hashf t"
  shows "cc_inv hashf (cc_rehash hashf t)" "cc_names (cc_rehash hashf t) = cc_names t"
proof -
  obtain k where k: "ht_size t = 2 ^ k" using inv by (auto simp: cc_inv_def)
  then have sz: "ht_size t * 2 = 2 ^ Suc k" by simp
  have r: "cc_rehash1 hashf (ht_size t * 2) = lht_rehash1 hashf ne_name (ht_size t * 2)"
    unfolding sz by (intro ext) (simp add: cc_rehash1_def lht_rehash1_def cc_slot_mod del: power_Suc)
  have ok: "chains_ok hashf ne_name n (replicate n [])" for n by (simp add: chains_ok_def)
  have empty: "set (concat (replicate n [])) = {}" "length (concat (replicate n [])) = 0" for n
    by (induction n) simp_all
  have pos: "0 < ht_size t * 2" using k by simp
  note p = rehash_fold_props [OF pos ok, of "concat (ht_ptr t)"]
  show n: "cc_names (cc_rehash hashf t) = cc_names t"
    using p empty r by (simp add: cc_rehash_def cc_names_def hashtable_create_def Let_def del: set_concat)
  have "\<exists>j. ht_size (cc_rehash hashf t) = 2 ^ j"
    by (rule exI [of _ "Suc k"]) (simp add: cc_rehash_def hashtable_create_def k Let_def)
  moreover have "inj_on ne_name (cc_names (cc_rehash hashf t))"
    using inv n by (simp add: cc_inv_def lht_inv_def lht_records_def cc_names_def as_lht_def)
  ultimately show "cc_inv hashf (cc_rehash hashf t)"
    using p empty r inv pos
    by (simp add: cc_inv_def lht_inv_def as_lht_def lht_records_def cc_names_def cc_rehash_def
        hashtable_create_def Let_def del: set_concat)
qed

lemma cc_enter_inv:
  assumes "cc_inv hashf t" "\<forall>c' \<in> cc_names t. ne_name c' \<noteq> ne_name c"
  shows "cc_inv hashf (cc_enter hashf t c)" "cc_names (cc_enter hashf t c) = insert c (cc_names t)"
  using cc_push_inv [OF assms] cc_rehash_inv by (simp_all add: cc_enter_def Let_def)

lemma cc_init_inv: "cc_inv hashf classcache_init" "cc_names classcache_init = {}"
proof -
  have "concat (replicate n []) = []" for n by (induction n) simp_all
  moreover have "\<exists>k. (2048::nat) = 2 ^ k" by (rule exI [of _ 11]) simp
  ultimately show "cc_inv hashf classcache_init" "cc_names classcache_init = {}"
    by (simp_all add: cc_inv_def lht_inv_def as_lht_def lht_records_def cc_names_def chains_ok_def
        classcache_init_def hashtable_create_def CLASSCACHE_INIT_SIZE_def del: concat_replicate_trivial)
qed

lemma cc_update_inv:
  assumes inv: "cc_inv hashf t" and key: "\<forall>c. ne_name (f c) = ne_name c"
  shows "cc_inv hashf (cc_update hashf t name f)"
    "cc_names (cc_update hashf t name f) = (\<lambda>c. if ne_name c = name then f c else c) ` cc_names t"
proof -
  let ?g = "\<lambda>c. if ne_name c = name then f c else c"
  define slot where "slot = cc_slot hashf (ht_size t) name"
  have l: "chains_ok hashf ne_name (ht_size t) (ht_ptr t)" "0 < ht_size t" "inj_on ne_name (cc_names t)"
    "ht_entries t = length (concat (ht_ptr t))" "\<exists>k. ht_size t = 2 ^ k"
    using inv by (simp_all add: cc_inv_def lht_inv_def as_lht_def lht_records_def cc_names_def)
  have s: "slot = lht_slot hashf (ht_size t) name" using cc_slot_lht [OF inv] by (simp add: slot_def)
  have sl: "slot < length (ht_ptr t)" using l(1,2) by (simp add: s lht_slot_less chains_ok_def)
  have gn: "ne_name (?g c) = ne_name c" for c using key by simp
  have other: "?g c = c" if "c \<in> set (ht_ptr t ! i)" "i < length (ht_ptr t)" "i \<noteq> slot" for c i
    using that l(1) by (auto simp: chains_ok_def s)
  have eq: "(ht_ptr t)[slot := map ?g (ht_ptr t ! slot)] = map (map ?g) (ht_ptr t)"
  proof (rule nth_equalityI)
    fix i assume i: "i < length ((ht_ptr t)[slot := map ?g (ht_ptr t ! slot)])"
    then show "(ht_ptr t)[slot := map ?g (ht_ptr t ! slot)] ! i = map (map ?g) (ht_ptr t) ! i"
      using other [of _ i] by (cases "i = slot") (auto simp: nth_list_update intro!: map_idI [symmetric])
  qed simp
  have names: "set (concat (map (map ?g) (ht_ptr t))) = ?g ` cc_names t" by (auto simp: cc_names_def)
  show n: "cc_names (cc_update hashf t name f) = ?g ` cc_names t"
    using names by (simp add: cc_names_def cc_update_def eq Let_def flip: slot_def del: set_concat)
  have ch: "chains_ok hashf ne_name (ht_size t) (map (map ?g) (ht_ptr t))"
    using l(1) key by (auto simp: chains_ok_def)
  have inj: "inj_on ne_name (?g ` cc_names t)"
    using l(3) by (intro inj_on_imageI) (simp add: comp_def gn)
  have len: "length (concat (map (map ?g) (ht_ptr t))) = length (concat (ht_ptr t))"
    by (simp add: length_concat comp_def)
  show "cc_inv hashf (cc_update hashf t name f)"
    using l ch inj len names
    by (simp add: cc_inv_def lht_inv_def as_lht_def lht_records_def cc_update_def eq Let_def
        flip: slot_def del: set_concat)
qed

section \<open>The interface\<close>

interpretation ccn: keyed_table_update "cc_inv hashf" "classcache_lookup_name hashf" "cc_enter hashf" ne_name
  "cc_update hashf" for hashf :: "string \<Rightarrow> u4"
proof unfold_locales
  fix t :: hashtable and k c
  assume inv: "cc_inv hashf t"
  show "classcache_lookup_name hashf t k = Some c \<Longrightarrow> ne_name c = k"
    using inv by (simp add: cc_lookup_iff)
  {
    assume none: "classcache_lookup_name hashf t (ne_name c) = None"
    have fresh: "\<forall>c' \<in> cc_names t. ne_name c' \<noteq> ne_name c"
      using none cc_lookup_iff [OF inv] by (metis option.distinct(1))
    show inv': "cc_inv hashf (cc_enter hashf t c)" by (rule cc_enter_inv(1) [OF inv fresh])
    have "classcache_lookup_name hashf (cc_enter hashf t c) k' = Some x \<longleftrightarrow>
        ((classcache_lookup_name hashf t)(ne_name c \<mapsto> c)) k' = Some x" for k' x
      using cc_lookup_iff [OF inv] cc_lookup_iff [OF inv'] cc_enter_inv(2) [OF inv fresh] fresh by auto
    then show "classcache_lookup_name hashf (cc_enter hashf t c) = (classcache_lookup_name hashf t)(ne_name c \<mapsto> c)"
      by (intro ext) (metis not_Some_eq)
  }
  fix f :: "classcache_name_entry \<Rightarrow> classcache_name_entry"
  assume key: "\<forall>c. ne_name (f c) = ne_name c"
  note u = cc_update_inv [OF inv key, of k]
  show "cc_inv hashf (cc_update hashf t k f)" by (rule u(1))
  have inj: "inj_on ne_name (cc_names t)"
    using inv by (simp add: cc_inv_def lht_inv_def as_lht_def lht_records_def cc_names_def)
  have "classcache_lookup_name hashf (cc_update hashf t k f) k' = Some x \<longleftrightarrow>
      ((classcache_lookup_name hashf t)(k := map_option f (classcache_lookup_name hashf t k))) k' = Some x" for k' x
    using cc_lookup_iff [OF u(1)] cc_lookup_iff [OF inv] u(2) key by (auto simp: image_iff map_option_eq_Some)
  then show "classcache_lookup_name hashf (cc_update hashf t k f) =
      (classcache_lookup_name hashf t)(k := map_option f (classcache_lookup_name hashf t k))"
    by (intro ext) (metis not_Some_eq)
qed

text \<open>\<open>classcache_new_name\<close> gives the entry of the name and leaves all others as they are.\<close>

lemma new_name_props:
  assumes inv: "cc_inv hashf t" and run: "classcache_new_name hashf t name = (t', c)"
  shows "cc_inv hashf t'" "classcache_lookup_name hashf t' = (classcache_lookup_name hashf t)(name \<mapsto> c)"
    "c = (case classcache_lookup_name hashf t name of Some c \<Rightarrow> c | None \<Rightarrow> \<lparr> ne_name = name, ne_classes = [] \<rparr>)"
    "ne_name c = name"
  using run ccn.enter_invar [OF inv, of c] ccn.enter_lookup [OF inv, of c] ccn.lookup_key [OF inv, of name c] inv
  by (auto simp: classcache_new_name_def Let_def split: option.splits)

end
