(* ===== verification/ClassCache.thy ===== *)
theory ClassCache
  imports ClassNames
begin

text \<open>
  The second level of the loaded class cache (\<^verbatim>\<open>src/src/vm/classcache.cpp\<close>): for each class name a
  list of tuples (class or \<open>NULL\<close>, initiating loaders, constrained loaders), and the operations that
  record resolutions and loading constraints. Tuples are addressed by their position in the list,
  where the source uses their address. Whether a class that lost to an earlier one is freed
  (\<open>class_free\<close>) does not show in the cache and is left out. All operations run under the cache's
  mutex, so they are functions of the table.
\<close>

section \<open>Operations\<close>

fun find_index :: "('a \<Rightarrow> bool) \<Rightarrow> 'a list \<Rightarrow> nat option" where
  "find_index P [] = None"
| "find_index P (x # xs) = (if P x then Some 0 else map_option Suc (find_index P xs))"

fun classcache_merge_loaders :: "classloader_t list \<Rightarrow> classloader_t list \<Rightarrow> classloader_t list" where
  "classcache_merge_loaders [] listb = listb"
| "classcache_merge_loaders (l # lista) listb =
     (if l \<in> set listb then classcache_merge_loaders lista listb
      else l # classcache_merge_loaders lista listb)"

definition classcache_remove_class_entry :: "classcache_class_entry list \<Rightarrow> nat \<Rightarrow> classcache_class_entry list" where
  "classcache_remove_class_entry es j = take j es @ drop (Suc j) es"

definition merged_entry :: "classcache_class_entry \<Rightarrow> classcache_class_entry \<Rightarrow> classcache_class_entry" where
  "merged_entry a b = \<lparr> classobj = (if classobj a = None then classobj b else classobj a),
     ce_loaders = classcache_merge_loaders (ce_loaders a) (ce_loaders b),
     ce_constraints = classcache_merge_loaders (ce_constraints a) (ce_constraints b) \<rparr>"

definition classcache_merge_class_entries ::
  "classcache_class_entry list \<Rightarrow> nat \<Rightarrow> nat \<Rightarrow> classcache_class_entry list result" where
  "classcache_merge_class_entries es i j =
     (let a = es ! i; b = es ! j
      in if classobj a = None \<or> classobj b = None \<or> classobj a = classobj b
         then Inr (classcache_remove_class_entry (es[i := merged_entry a b]) j)
         else Inl Assertion_failed)"

definition mentions :: "classloader_t \<Rightarrow> classcache_class_entry \<Rightarrow> bool" where
  "mentions l e \<longleftrightarrow> l \<in> set (ce_loaders e) \<or> l \<in> set (ce_constraints e)"

definition classcache_find_loader :: "classcache_class_entry list \<Rightarrow> classloader_t \<Rightarrow> nat option" where
  "classcache_find_loader es l = find_index (mentions l) es"

definition add_loader :: "classloader_t \<Rightarrow> classcache_class_entry \<Rightarrow> classcache_class_entry" where
  "add_loader l e = e\<lparr>ce_loaders := l # ce_loaders e\<rparr>"

definition add_constrained :: "classloader_t \<Rightarrow> classcache_class_entry \<Rightarrow> classcache_class_entry" where
  "add_constrained l e = e\<lparr>ce_constraints := l # ce_constraints e\<rparr>"

text \<open>The body of \<open>classcache_store\<close> on the tuples of the name.\<close>

definition store_classes ::
  "classloader_t \<Rightarrow> classinfo \<Rightarrow> classcache_class_entry list \<Rightarrow> classcache_class_entry list \<times> classinfo result" where
  "store_classes initloader cls es =
     (case classcache_find_loader es initloader of
        Some i \<Rightarrow>
          (let clsen = es ! i
           in if initloader \<in> set (ce_loaders clsen) then
                (if classobj clsen \<noteq> Some cls then
                   (case classobj clsen of None \<Rightarrow> (es, Inl Assertion_failed) | Some c \<Rightarrow> (es, Inr c))
                 else (es, Inr cls))
              else
                (case classobj clsen of
                   Some c \<Rightarrow>
                     if c \<noteq> cls then (es, Inl (LinkageError ''loading constraint violated: ''))
                     else (es[i := add_loader initloader clsen], Inr cls)
                 | None \<Rightarrow>
                     (let es1 = es[i := add_loader initloader clsen]
                      in case find_index (\<lambda>e. classobj e = Some cls) es1 of
                           Some j \<Rightarrow>
                             (case classcache_merge_class_entries es1 i j of
                                Inl e \<Rightarrow> (es1, Inl e) | Inr es2 \<Rightarrow> (es2, Inr cls))
                         | None \<Rightarrow>
                             (es1[i := (add_loader initloader clsen)\<lparr>classobj := Some cls\<rparr>], Inr cls))))
      | None \<Rightarrow>
          (case find_index (\<lambda>e. classobj e = Some cls) es of
             Some i \<Rightarrow>
               (if initloader \<in> set (ce_loaders (es ! i)) then (es, Inr cls)
                else (es[i := add_loader initloader (es ! i)], Inr cls))
           | None \<Rightarrow>
               (\<lparr> classobj = Some cls, ce_loaders = [initloader], ce_constraints = [] \<rparr> # es, Inr cls)))"

definition store_defined_classes ::
  "classinfo \<Rightarrow> classcache_class_entry list \<Rightarrow> classcache_class_entry list \<times> classinfo" where
  "store_defined_classes cls es =
     (case List.find (\<lambda>e. map_option cls_classloader (classobj e) = Some (cls_classloader cls)) es of
        Some clsen \<Rightarrow> (es, (case classobj clsen of Some c \<Rightarrow> c | None \<Rightarrow> cls))
      | None \<Rightarrow> (\<lparr> classobj = Some cls, ce_loaders = [], ce_constraints = [] \<rparr> # es, cls))"

definition add_constraint_classes ::
  "classloader_t \<Rightarrow> classloader_t \<Rightarrow> classcache_class_entry list \<Rightarrow> classcache_class_entry list \<times> bool result" where
  "add_constraint_classes a b es =
     (case (classcache_find_loader es a, classcache_find_loader es b) of
        (Some i, Some j) \<Rightarrow>
          (if i = j then (es, Inr True)
           else if classobj (es ! i) \<noteq> None \<and> classobj (es ! j) \<noteq> None \<and> classobj (es ! i) \<noteq> classobj (es ! j)
           then (es, Inl (LinkageError ''loading constraint violated: ''))
           else (case classcache_merge_class_entries es i j of
                   Inl e \<Rightarrow> (es, Inl e) | Inr es' \<Rightarrow> (es', Inr True)))
      | (Some i, None) \<Rightarrow> (es[i := add_constrained b (es ! i)], Inr True)
      | (None, Some j) \<Rightarrow> (es[j := add_constrained a (es ! j)], Inr True)
      | (None, None) \<Rightarrow>
          (\<lparr> classobj = None, ce_loaders = [], ce_constraints = [a, b] \<rparr> # es, Inr True))"

text \<open>The public operations.\<close>

definition classcache_lookup ::
  "(string \<Rightarrow> u4) \<Rightarrow> hashtable \<Rightarrow> classloader_t \<Rightarrow> string \<Rightarrow> classinfo option result" where
  "classcache_lookup hashf t initloader classname =
     (case classcache_lookup_name hashf t classname of
        None \<Rightarrow> Inr None
      | Some en \<Rightarrow>
          (case List.find (\<lambda>e. initloader \<in> set (ce_loaders e)) (ne_classes en) of
             None \<Rightarrow> Inr None
           | Some clsen \<Rightarrow> (case classobj clsen of None \<Rightarrow> Inl Assertion_failed | Some c \<Rightarrow> Inr (Some c))))"

definition classcache_lookup_defined ::
  "(string \<Rightarrow> u4) \<Rightarrow> hashtable \<Rightarrow> classloader_t \<Rightarrow> string \<Rightarrow> classinfo option" where
  "classcache_lookup_defined hashf t defloader classname =
     (case classcache_lookup_name hashf t classname of
        None \<Rightarrow> None
      | Some en \<Rightarrow>
          (case List.find (\<lambda>e. map_option cls_classloader (classobj e) = Some defloader) (ne_classes en) of
             None \<Rightarrow> None | Some clsen \<Rightarrow> classobj clsen))"

definition classcache_lookup_defined_or_initiated ::
  "(string \<Rightarrow> u4) \<Rightarrow> hashtable \<Rightarrow> classloader_t \<Rightarrow> string \<Rightarrow> classinfo option result" where
  "classcache_lookup_defined_or_initiated hashf t loader classname =
     (case classcache_lookup_name hashf t classname of
        None \<Rightarrow> Inr None
      | Some en \<Rightarrow>
          (case List.find (\<lambda>e. map_option cls_classloader (classobj e) = Some loader \<or>
                          loader \<in> set (ce_loaders e)) (ne_classes en) of
             None \<Rightarrow> Inr None
           | Some clsen \<Rightarrow> (case classobj clsen of None \<Rightarrow> Inl Assertion_failed | Some c \<Rightarrow> Inr (Some c))))"

definition set_classes :: "classcache_class_entry list \<Rightarrow> classcache_name_entry \<Rightarrow> classcache_name_entry" where
  "set_classes es en = en\<lparr>ne_classes := es\<rparr>"

definition classcache_store ::
  "(string \<Rightarrow> u4) \<Rightarrow> hashtable \<Rightarrow> classloader_t \<Rightarrow> classinfo \<Rightarrow> hashtable \<times> classinfo result" where
  "classcache_store hashf t initloader cls =
     (case classcache_new_name hashf t (cls_name cls) of (t1, en) \<Rightarrow>
        (case store_classes initloader cls (ne_classes en) of (es, r) \<Rightarrow>
           (cc_update hashf t1 (cls_name cls) (set_classes es), r)))"

definition classcache_store_unique ::
  "(string \<Rightarrow> u4) \<Rightarrow> hashtable \<Rightarrow> classinfo \<Rightarrow> hashtable \<times> bool result" where
  "classcache_store_unique hashf t cls =
     (case classcache_store hashf t None cls of
        (t', Inl e) \<Rightarrow> (t', Inl e)
      | (t', Inr c) \<Rightarrow>
          if c \<noteq> cls then (t', Inl (InternalError ''class already stored in the class cache''))
          else (t', Inr True))"

definition classcache_store_defined ::
  "(string \<Rightarrow> u4) \<Rightarrow> hashtable \<Rightarrow> classinfo \<Rightarrow> hashtable \<times> classinfo" where
  "classcache_store_defined hashf t cls =
     (case classcache_new_name hashf t (cls_name cls) of (t1, en) \<Rightarrow>
        (case store_defined_classes cls (ne_classes en) of (es, r) \<Rightarrow>
           (cc_update hashf t1 (cls_name cls) (set_classes es), r)))"

definition classcache_add_constraint ::
  "(string \<Rightarrow> u4) \<Rightarrow> hashtable \<Rightarrow> classloader_t \<Rightarrow> classloader_t \<Rightarrow> string \<Rightarrow> hashtable \<times> bool result" where
  "classcache_add_constraint hashf t a b classname =
     (if a = b then (t, Inr True)
      else case classcache_new_name hashf t classname of (t1, en) \<Rightarrow>
        (case add_constraint_classes a b (ne_classes en) of (es, r) \<Rightarrow>
           (cc_update hashf t1 classname (set_classes es), r)))"

text \<open>A method descriptor as far as this function reads it: for the return type and for each
  parameter the class name of a reference type, or \<open>None\<close>.\<close>

fun constrain_all ::
  "(string \<Rightarrow> u4) \<Rightarrow> classloader_t \<Rightarrow> classloader_t \<Rightarrow> string option list \<Rightarrow> hashtable \<Rightarrow> hashtable \<times> bool result" where
  "constrain_all hashf a b [] t = (t, Inr True)"
| "constrain_all hashf a b (None # tds) t = constrain_all hashf a b tds t"
| "constrain_all hashf a b (Some name # tds) t =
     (case classcache_add_constraint hashf t a b name of
        (t', Inl e) \<Rightarrow> (t', Inl e)
      | (t', Inr ok) \<Rightarrow> constrain_all hashf a b tds t')"

definition classcache_add_constraints_for_params ::
  "(string \<Rightarrow> u4) \<Rightarrow> hashtable \<Rightarrow> classloader_t \<Rightarrow> classloader_t \<Rightarrow> string option \<Rightarrow> string option list \<Rightarrow>
    hashtable \<times> bool result" where
  "classcache_add_constraints_for_params hashf t a b returntype paramtypes =
     (if a = b then (t, Inr True) else constrain_all hashf a b (returntype # paramtypes) t)"

definition classcache_number_of_loaded_classes :: "hashtable \<Rightarrow> nat" where
  "classcache_number_of_loaded_classes t =
     sum_list (map (\<lambda>en. if take 1 (ne_name en) = ''$'' then 0
                         else length (filter (\<lambda>e. classobj e \<noteq> None) (ne_classes en)))
                (concat (ht_ptr t)))"

definition classcache_foreach_loaded_class ::
  "(classinfo \<Rightarrow> 'd \<Rightarrow> 'd) \<Rightarrow> hashtable \<Rightarrow> 'd \<Rightarrow> 'd" where
  "classcache_foreach_loaded_class func t =
     fold func (List.map_filter classobj
       (concat (map ne_classes (filter (\<lambda>en. take 1 (ne_name en) \<noteq> ''$'') (concat (ht_ptr t))))))"

section \<open>Lists of tuples\<close>

lemma find_index_Some:
  "find_index P xs = Some i \<Longrightarrow> i < length xs \<and> P (xs ! i) \<and> (\<forall>j < i. \<not> P (xs ! j))"
proof (induction xs arbitrary: i)
  case (Cons x xs)
  then show ?case by (auto split: if_splits simp: map_option_eq_Some less_Suc_eq_0_disj)
qed simp

lemma find_index_None: "find_index P xs = None \<longleftrightarrow> (\<forall>x \<in> set xs. \<not> P x)"
  by (induction xs) auto

lemma set_merge_loaders [simp]: "set (classcache_merge_loaders as bs) = set as \<union> set bs"
  by (induction as) auto

text \<open>The invariants stated in the header comment of the source: a tuple without a class has no
  initiating loaders, a class and a loader each occur in at most one tuple; and the tuples of a name
  hold classes of that name.\<close>

definition lset :: "classcache_class_entry \<Rightarrow> classloader_t set" where
  "lset e = set (ce_loaders e) \<union> set (ce_constraints e)"

definition sep :: "classcache_class_entry \<Rightarrow> classcache_class_entry \<Rightarrow> bool" where
  "sep e f \<longleftrightarrow> lset e \<inter> lset f = {} \<and> (classobj e \<noteq> None \<longrightarrow> classobj e \<noteq> classobj f)"

definition entry_wf :: "string \<Rightarrow> classcache_class_entry \<Rightarrow> bool" where
  "entry_wf name e \<longleftrightarrow> (classobj e = None \<longrightarrow> ce_loaders e = []) \<and>
     (\<forall>c. classobj e = Some c \<longrightarrow> cls_name c = name)"

definition seps :: "classcache_class_entry list \<Rightarrow> bool" where
  "seps es \<longleftrightarrow> (\<forall>i < length es. \<forall>j < length es. i \<noteq> j \<longrightarrow> sep (es ! i) (es ! j))"

definition es_ok :: "string \<Rightarrow> classcache_class_entry list \<Rightarrow> bool" where
  "es_ok name es \<longleftrightarrow> seps es \<and> (\<forall>e \<in> set es. entry_wf name e)"

lemma mentions_lset: "mentions l e \<longleftrightarrow> l \<in> lset e"
  by (simp add: mentions_def lset_def)

lemma sep_sym: "sep e f \<Longrightarrow> sep f e"
  by (auto simp: sep_def)

lemma set_update_conv: "i < length xs \<Longrightarrow> set (xs[i := x]) = insert x ((!) xs ` ({..<length xs} - {i}))"
  by (auto simp: set_conv_nth nth_list_update image_iff)

lemma seps_update:
  assumes "seps es" "i < length es" "\<And>j. j < length es \<Longrightarrow> j \<noteq> i \<Longrightarrow> sep x (es ! j)"
  shows "seps (es[i := x])"
  using assms sep_sym by (auto simp: seps_def nth_list_update)

lemma es_ok_update:
  assumes "es_ok name es" "i < length es" "entry_wf name x"
    "\<And>j. j < length es \<Longrightarrow> j \<noteq> i \<Longrightarrow> sep x (es ! j)"
  shows "es_ok name (es[i := x])"
  using assms seps_update [of es i x] by (auto simp: es_ok_def set_update_conv)

lemma es_ok_Cons:
  assumes "es_ok name es" "entry_wf name x" "\<And>e. e \<in> set es \<Longrightarrow> sep x e"
  shows "es_ok name (x # es)"
proof -
  have "sep ((x # es) ! i) ((x # es) ! j)" if "i < length (x # es)" "j < length (x # es)" "i \<noteq> j" for i j
    using that assms sep_sym by (cases i; cases j) (auto simp: es_ok_def seps_def)
  then show ?thesis using assms(1,2) by (auto simp: es_ok_def seps_def)
qed

lemma remove_nth_index:
  assumes "j < length es" "k < length (classcache_remove_class_entry es j)"
  shows "classcache_remove_class_entry es j ! k = es ! (if k < j then k else Suc k)"
    "(if k < j then k else Suc k) < length es" "(if k < j then k else Suc k) \<noteq> j"
  using assms by (auto simp: classcache_remove_class_entry_def nth_append min_def)

text \<open>Merging two tuples keeps the loaders and the class of both, and nothing else changes.\<close>

lemma merge_set:
  assumes "i < length es" "j < length es" "i \<noteq> j"
  shows "set (classcache_remove_class_entry (es[i := x]) j) = insert x ((!) es ` ({..<length es} - {i, j}))"
proof -
  have "set (classcache_remove_class_entry ys j) = (!) ys ` ({..<length ys} - {j})" if "j < length ys" for ys
  proof -
    have "set (take j ys) = (!) ys ` {..<j}"
      using that nth_image [of j ys] by (simp add: atLeast0LessThan)
    moreover have "drop (Suc j) ys = map ((!) ys) [Suc j..<length ys]"
      by (metis add_0 drop_map drop_upt map_nth)
    then have "set (drop (Suc j) ys) = (!) ys ` {Suc j..<length ys}" by simp
    moreover have "{..<length ys} - {j} = {..<j} \<union> {Suc j..<length ys}" using that by auto
    ultimately show ?thesis by (simp add: classcache_remove_class_entry_def image_Un)
  qed
  from this [of "es[i := x]"] show ?thesis
    using assms by (auto simp: nth_list_update image_iff)
qed

lemma merge_seps:
  assumes "seps es" "i < length es" "j < length es" "i \<noteq> j"
    "lset x \<subseteq> lset (es ! i) \<union> lset (es ! j)" "classobj x = classobj (es ! i) \<or> classobj x = classobj (es ! j)"
  shows "seps (classcache_remove_class_entry (es[i := x]) j)"
  unfolding seps_def
proof (intro allI impI)
  let ?r = "classcache_remove_class_entry (es[i := x]) j"
  define f where "f k = (if k < j then k else Suc k)" for k
  have x: "sep x (es ! k)" if "k < length es" "k \<noteq> i" "k \<noteq> j" for k
  proof -
    have "sep (es ! i) (es ! k)" "sep (es ! j) (es ! k)" using assms(1-3) that by (auto simp: seps_def)
    then show ?thesis using assms(5,6) by (auto simp: sep_def)
  qed
  have j: "j < length (es[i := x])" using assms(3) by simp
  fix k l assume kl: "k < length ?r" "l < length ?r" "k \<noteq> l"
  have ne: "f k \<noteq> f l" using kl(3) by (auto simp: f_def)
  note rk = remove_nth_index [OF j kl(1), folded f_def] and rl = remove_nth_index [OF j kl(2), folded f_def]
  have "sep (es[i := x] ! f k) (es[i := x] ! f l)"
  proof (cases "f k = i")
    case True
    then show ?thesis using x [of "f l"] rk rl ne by simp
  next
    case False
    have "sep (es ! f k) (es ! f l)" using assms(1) rk rl ne by (simp add: seps_def)
    then show ?thesis using False x [of "f k"] sep_sym rk rl by (cases "f l = i") simp_all
  qed
  then show "sep (?r ! k) (?r ! l)" using rk(1) rl(1) by simp
qed

lemma merged_entry_props:
  "lset (merged_entry a b) = lset a \<union> lset b" "set (ce_loaders (merged_entry a b)) = set (ce_loaders a) \<union> set (ce_loaders b)"
  "classobj (merged_entry a b) = (if classobj a = None then classobj b else classobj a)"
  by (auto simp: merged_entry_def lset_def)

section \<open>Resolutions and constraints\<close>

text \<open>What the tuples of a name say: which class a loader resolves the name to, and which loaders
  must agree on it.\<close>

definition resolves :: "classcache_class_entry list \<Rightarrow> classloader_t \<Rightarrow> classinfo \<Rightarrow> bool" where
  "resolves es l c \<longleftrightarrow> (\<exists>e \<in> set es. l \<in> set (ce_loaders e) \<and> classobj e = Some c)"

definition tied :: "classcache_class_entry list \<Rightarrow> classloader_t \<Rightarrow> classloader_t \<Rightarrow> bool" where
  "tied es a b \<longleftrightarrow> (\<exists>e \<in> set es. a \<in> lset e \<and> b \<in> lset e)"

lemma seps_same:
  assumes "seps es" "e \<in> set es" "f \<in> set es" "l \<in> lset e" "l \<in> lset f"
  shows "e = f"
proof -
  obtain i j where "i < length es" "e = es ! i" "j < length es" "f = es ! j"
    using assms(2,3) by (auto simp: in_set_conv_nth)
  then show ?thesis using assms(1,4,5) by (cases "i = j") (auto simp: seps_def sep_def)
qed

lemma tied_agree:
  assumes "es_ok name es" "tied es a b" "resolves es a c" "resolves es b d"
  shows "c = d"
proof -
  obtain e f g where e: "e \<in> set es" "a \<in> lset e" "b \<in> lset e"
    and f: "f \<in> set es" "a \<in> set (ce_loaders f)" "classobj f = Some c"
    and g: "g \<in> set es" "b \<in> set (ce_loaders g)" "classobj g = Some d"
    using assms(2-4) by (auto simp: tied_def resolves_def)
  have "f = e" "g = e"
    using seps_same [of es] assms(1) e f g by (auto simp: es_ok_def lset_def)
  then show ?thesis using f g by simp
qed

text \<open>The tuples only grow: no resolution and no constraint is ever lost.\<close>

definition grows :: "classcache_class_entry list \<Rightarrow> classcache_class_entry list \<Rightarrow> bool" where
  "grows es es' \<longleftrightarrow> (\<forall>e \<in> set es. \<exists>e' \<in> set es'. lset e \<subseteq> lset e' \<and>
     set (ce_loaders e) \<subseteq> set (ce_loaders e') \<and> (classobj e \<noteq> None \<longrightarrow> classobj e' = classobj e))"

lemma grows_refl [simp]: "grows es es"
  by (auto simp: grows_def)

lemma grows_Cons [simp]: "grows es (e # es)"
  by (auto simp: grows_def)

lemma grows_update:
  assumes "i < length es" "lset (es ! i) \<subseteq> lset x" "set (ce_loaders (es ! i)) \<subseteq> set (ce_loaders x)"
    "classobj (es ! i) \<noteq> None \<longrightarrow> classobj x = classobj (es ! i)"
  shows "grows es (es[i := x])"
  unfolding grows_def
proof
  fix e assume "e \<in> set es"
  then obtain k where k: "k < length es" "e = es ! k" by (auto simp: in_set_conv_nth)
  show "\<exists>e' \<in> set (es[i := x]). lset e \<subseteq> lset e' \<and> set (ce_loaders e) \<subseteq> set (ce_loaders e') \<and>
      (classobj e \<noteq> None \<longrightarrow> classobj e' = classobj e)"
  proof (cases "k = i")
    case True
    then show ?thesis using assms k by (intro bexI [of _ x]) (auto simp: set_update_conv)
  next
    case False
    then show ?thesis using assms k by (intro bexI [of _ e]) (auto simp: set_update_conv)
  qed
qed

lemma grows_merge:
  assumes "i < length es" "j < length es" "i \<noteq> j"
    "classobj (es ! i) = None \<or> classobj (es ! j) = None \<or> classobj (es ! i) = classobj (es ! j)"
  shows "grows es (classcache_remove_class_entry (es[i := merged_entry (es ! i) (es ! j)]) j)"
  unfolding grows_def merge_set [OF assms(1-3)]
proof
  fix e assume "e \<in> set es"
  then obtain k where k: "k < length es" "e = es ! k" by (auto simp: in_set_conv_nth)
  let ?m = "merged_entry (es ! i) (es ! j)" and ?rest = "(!) es ` ({..<length es} - {i, j})"
  show "\<exists>e' \<in> insert ?m ?rest. lset e \<subseteq> lset e' \<and> set (ce_loaders e) \<subseteq> set (ce_loaders e') \<and>
      (classobj e \<noteq> None \<longrightarrow> classobj e' = classobj e)"
  proof (cases "k = i \<or> k = j")
    case True
    then show ?thesis using assms(4) k by (intro bexI [of _ ?m]) (auto simp: merged_entry_props)
  next
    case False
    then show ?thesis using k by (intro bexI [of _ e]) auto
  qed
qed

lemma growsE:
  assumes "grows es es'" "e \<in> set es"
  obtains e' where "e' \<in> set es'" "lset e \<subseteq> lset e'" "set (ce_loaders e) \<subseteq> set (ce_loaders e')"
    "classobj e \<noteq> None \<longrightarrow> classobj e' = classobj e"
  using assms unfolding grows_def by blast

lemma grows_tied:
  assumes g: "grows es es'" and "tied es a b"
  shows "tied es' a b"
proof -
  obtain e where e: "e \<in> set es" "a \<in> lset e" "b \<in> lset e" using assms(2) by (auto simp: tied_def)
  obtain e' where "e' \<in> set es'" "lset e \<subseteq> lset e'" using growsE [OF g e(1)] .
  then show ?thesis using e by (auto simp: tied_def)
qed

lemma grows_resolves:
  assumes g: "grows es es'" and "resolves es l c"
  shows "resolves es' l c"
proof -
  obtain e where e: "e \<in> set es" "l \<in> set (ce_loaders e)" "classobj e = Some c"
    using assms(2) by (auto simp: resolves_def)
  obtain e' where "e' \<in> set es'" "set (ce_loaders e) \<subseteq> set (ce_loaders e')"
    "classobj e \<noteq> None \<longrightarrow> classobj e' = classobj e" using growsE [OF g e(1)] .
  then show ?thesis using e by (auto simp: resolves_def)
qed

lemma grows_trans:
  assumes "grows a b" "grows b c"
  shows "grows a c"
  unfolding grows_def
proof
  fix e assume e: "e \<in> set a"
  obtain f where f: "f \<in> set b" "lset e \<subseteq> lset f" "set (ce_loaders e) \<subseteq> set (ce_loaders f)"
    "classobj e \<noteq> None \<longrightarrow> classobj f = classobj e" using growsE [OF assms(1) e] .
  obtain g where "g \<in> set c" "lset f \<subseteq> lset g" "set (ce_loaders f) \<subseteq> set (ce_loaders g)"
    "classobj f \<noteq> None \<longrightarrow> classobj g = classobj f" using growsE [OF assms(2) f(1)] .
  then show "\<exists>g \<in> set c. lset e \<subseteq> lset g \<and> set (ce_loaders e) \<subseteq> set (ce_loaders g) \<and>
      (classobj e \<noteq> None \<longrightarrow> classobj g = classobj e)"
    using f by (intro bexI [of _ g]) auto
qed

section \<open>The operations on the tuples of one name\<close>

lemma find_loaderD:
  assumes "classcache_find_loader es l = Some i"
  shows "i < length es" "l \<in> lset (es ! i)"
  using find_index_Some [of "mentions l" es i] assms
  by (simp_all add: classcache_find_loader_def mentions_lset)

lemma find_loader_None: "classcache_find_loader es l = None \<longleftrightarrow> (\<forall>e \<in> set es. l \<notin> lset e)"
  by (simp add: classcache_find_loader_def find_index_None mentions_lset)

lemma loader_only_here:
  assumes "seps es" "i < length es" "l \<in> lset (es ! i)" "j < length es" "j \<noteq> i"
  shows "l \<notin> lset (es ! j)"
  using assms by (auto simp: seps_def sep_def)

lemma lset_add [simp]:
  "lset (add_loader l e) = insert l (lset e)" "classobj (add_loader l e) = classobj e"
  "lset (add_constrained l e) = insert l (lset e)" "classobj (add_constrained l e) = classobj e"
  "set (ce_loaders (add_loader l e)) = insert l (set (ce_loaders e))"
  "ce_loaders (add_constrained l e) = ce_loaders e" "lset (e\<lparr>classobj := x\<rparr>) = lset e"
  by (auto simp: lset_def add_loader_def add_constrained_def)

lemma resolves_update:
  assumes "i < length es"
  shows "resolves (es[i := x]) l c \<longleftrightarrow> (l \<in> set (ce_loaders x) \<and> classobj x = Some c) \<or>
    (\<exists>j < length es. j \<noteq> i \<and> l \<in> set (ce_loaders (es ! j)) \<and> classobj (es ! j) = Some c)"
  using assms by (auto simp: resolves_def set_update_conv)

lemma resolves_nth:
  assumes "i < length es"
  shows "resolves es l c \<longleftrightarrow> (l \<in> set (ce_loaders (es ! i)) \<and> classobj (es ! i) = Some c) \<or>
    (\<exists>j < length es. j \<noteq> i \<and> l \<in> set (ce_loaders (es ! j)) \<and> classobj (es ! j) = Some c)"
  using resolves_update [OF assms, of "es ! i"] by simp

text \<open>The outcome of \<open>classcache_store\<close> on the tuples: an earlier resolution wins, a class other than
  the one the loader is constrained to is refused, and otherwise exactly the new resolution is
  added.\<close>

definition constrained_to :: "classcache_class_entry list \<Rightarrow> classloader_t \<Rightarrow> classinfo \<Rightarrow> bool" where
  "constrained_to es l c \<longleftrightarrow> (\<exists>e \<in> set es. l \<in> set (ce_constraints e) \<and> classobj e = Some c)"

definition store_spec ::
  "string \<Rightarrow> classloader_t \<Rightarrow> classinfo \<Rightarrow> classcache_class_entry list \<Rightarrow> classcache_class_entry list \<Rightarrow> classinfo result \<Rightarrow> bool" where
  "store_spec name l cls es es' r \<longleftrightarrow> es_ok name es' \<and> grows es es' \<and>
     (if \<exists>d. resolves es l d then (\<exists>d. resolves es l d \<and> r = Inr d) \<and> es' = es
      else if \<exists>d. d \<noteq> cls \<and> constrained_to es l d
      then r = Inl (LinkageError ''loading constraint violated: '') \<and> es' = es
      else r = Inr cls \<and> (\<forall>l' c. resolves es' l' c \<longleftrightarrow> resolves es l' c \<or> l' = l \<and> c = cls))"

lemma store_new_loader:
  assumes ok: "es_ok name es" and name: "cls_name cls = name" and none: "\<forall>e \<in> set es. l \<notin> lset e"
  shows "\<exists>es'. store_classes l cls es = (es', Inr cls) \<and> es_ok name es' \<and> grows es es' \<and>
    (\<forall>l' c. resolves es' l' c \<longleftrightarrow> resolves es l' c \<or> l' = l \<and> c = cls)"
proof (cases "find_index (\<lambda>e. classobj e = Some cls) es")
  case None
  let ?e = "\<lparr> classobj = Some cls, ce_loaders = [l], ce_constraints = [] \<rparr>"
  have run: "store_classes l cls es = (?e # es, Inr cls)"
    using none None by (simp add: store_classes_def find_loader_None [THEN iffD2])
  have "es_ok name (?e # es)"
    using none None name by (intro es_ok_Cons [OF ok]) (auto simp: entry_wf_def sep_def lset_def find_index_None)
  moreover have "resolves (?e # es) l' c \<longleftrightarrow> resolves es l' c \<or> l' = l \<and> c = cls" for l' c
    by (auto simp: resolves_def)
  ultimately show ?thesis using run by auto
next
  case (Some i)
  then have i: "i < length es" "classobj (es ! i) = Some cls" using find_index_Some by force+
  have nl: "l \<notin> set (ce_loaders (es ! i))" using none i(1) by (auto simp: lset_def)
  let ?x = "add_loader l (es ! i)"
  have run: "store_classes l cls es = (es[i := ?x], Inr cls)"
    using none Some nl by (simp add: store_classes_def find_loader_None [THEN iffD2])
  have "es_ok name (es[i := ?x])"
  proof (rule es_ok_update [OF ok i(1)])
    show "entry_wf name ?x" using i name by (simp add: entry_wf_def)
    fix j assume j: "j < length es" "j \<noteq> i"
    then have "sep (es ! i) (es ! j)" using ok i(1) by (simp add: es_ok_def seps_def)
    then show "sep ?x (es ! j)" using none j by (simp add: sep_def)
  qed
  moreover have "grows es (es[i := ?x])" using i by (intro grows_update) auto
  moreover have "resolves (es[i := ?x]) l' c \<longleftrightarrow> resolves es l' c \<or> l' = l \<and> c = cls" for l' c
    using resolves_update [OF i(1), of ?x l' c] resolves_nth [OF i(1), of l' c] i(2) by auto
  ultimately show ?thesis using run by blast
qed

lemma es_ok_nth: "es_ok name es \<Longrightarrow> i < length es \<Longrightarrow> entry_wf name (es ! i)"
  by (simp add: es_ok_def)

text \<open>The first resolution of a tuple that only had constraints.\<close>

lemma store_first_resolution:
  assumes ok: "es_ok name es" and name: "cls_name cls = name" and i: "i < length es" "l \<in> lset (es ! i)"
    and fi: "classcache_find_loader es l = Some i" and free: "classobj (es ! i) = None"
  shows "\<exists>es'. store_classes l cls es = (es', Inr cls) \<and> es_ok name es' \<and> grows es es' \<and>
    (\<forall>l' c. resolves es' l' c \<longleftrightarrow> resolves es l' c \<or> l' = l \<and> c = cls)"
proof -
  have noload: "ce_loaders (es ! i) = []" using es_ok_nth [OF ok i(1)] free by (simp add: entry_wf_def)
  let ?a = "add_loader l (es ! i)"
  let ?es1 = "es[i := ?a]"
  have sp: "seps es" using ok by (simp add: es_ok_def)
  have sep_i: "sep (es ! i) (es ! j)" "l \<notin> lset (es ! j)" if "j < length es" "j \<noteq> i" for j
    using sp that i loader_only_here [OF sp i] by (auto simp: seps_def)
  have seps1: "seps ?es1"
    using sep_i free by (intro seps_update [OF sp i(1)]) (auto simp: sep_def)
  have old: "resolves es l' c \<longleftrightarrow>
      (\<exists>j < length es. j \<noteq> i \<and> l' \<in> set (ce_loaders (es ! j)) \<and> classobj (es ! j) = Some c)" for l' c
    using resolves_nth [OF i(1), of l' c] free by simp
  show ?thesis
  proof (cases "find_index (\<lambda>e. classobj e = Some cls) ?es1")
    case None
    let ?x = "?a\<lparr>classobj := Some cls\<rparr>"
    have run: "store_classes l cls es = (es[i := ?x], Inr cls)"
      using fi noload free None by (simp add: store_classes_def Let_def)
    have none: "Some cls \<noteq> classobj (es ! j)" if "j < length es" "j \<noteq> i" for j
    proof -
      have "es ! j \<in> set ?es1" using that i(1) by (auto simp: set_update_conv)
      then show ?thesis using None by (metis (mono_tags, lifting) find_index_None)
    qed
    have "es_ok name (es[i := ?x])"
    proof (rule es_ok_update [OF ok i(1)])
      show "entry_wf name ?x" using name by (simp add: entry_wf_def)
      show "sep ?x (es ! j)" if "j < length es" "j \<noteq> i" for j
        using none [OF that] sep_i [OF that] by (simp add: sep_def)
    qed
    moreover have "grows es (es[i := ?x])" using i noload free by (intro grows_update) auto
    moreover have "resolves (es[i := ?x]) l' c \<longleftrightarrow> resolves es l' c \<or> l' = l \<and> c = cls" for l' c
      using resolves_update [OF i(1), of ?x l' c] old noload by (auto simp: add_loader_def)
    ultimately show ?thesis using run by blast
  next
    case (Some j)
    then have j: "j < length ?es1" "classobj (?es1 ! j) = Some cls"
      using find_index_Some [OF Some] by blast+
    then have ji: "j \<noteq> i" using free i(1) by auto
    let ?m = "merged_entry (?es1 ! i) (?es1 ! j)"
    let ?es2 = "classcache_remove_class_entry (?es1[i := ?m]) j"
    have jl: "j < length es" "es ! j = ?es1 ! j" using j ji by simp_all
    have run: "store_classes l cls es = (?es2, Inr cls)"
      using fi noload free Some i by (simp add: store_classes_def Let_def classcache_merge_class_entries_def)
    have i1: "i < length ?es1" using i by simp
    have m: "classobj ?m = Some cls" "set (ce_loaders ?m) = insert l (set (ce_loaders (es ! j)))"
      using i free j ji noload by (simp_all add: merged_entry_props)
    have set2: "set ?es2 = insert ?m ((!) ?es1 ` ({..<length ?es1} - {i, j}))"
      by (rule merge_set) (use i1 j ji in auto)
    have "seps ?es2"
      by (rule merge_seps [OF seps1 i1 j(1)]) (use ji in \<open>simp_all add: merged_entry_props\<close>)
    moreover have "entry_wf name e" if "e \<in> set ?es2" for e
    proof -
      consider "e = ?m" | k where "k < length es" "e = es ! k"
        using \<open>e \<in> set ?es2\<close> unfolding set2 by (auto simp: nth_list_update)
      then show ?thesis using m(1) name es_ok_nth [OF ok] by cases (simp_all add: entry_wf_def)
    qed
    ultimately have "es_ok name ?es2" by (simp add: es_ok_def)
    moreover have "grows es ?es1" using i noload free by (intro grows_update) auto
    then have "grows es ?es2"
      by (rule grows_trans) (rule grows_merge [OF i1 j(1)], use ji free i in simp_all)
    moreover have "resolves ?es2 l' c \<longleftrightarrow> resolves es l' c \<or> l' = l \<and> c = cls" for l' c
    proof -
      have "resolves ?es2 l' c \<longleftrightarrow> (l' \<in> set (ce_loaders ?m) \<and> classobj ?m = Some c) \<or>
          (\<exists>k < length es. k \<noteq> i \<and> k \<noteq> j \<and> l' \<in> set (ce_loaders (es ! k)) \<and> classobj (es ! k) = Some c)"
        unfolding resolves_def set2 by (auto simp: nth_list_update)
      also have "(l' \<in> set (ce_loaders ?m) \<and> classobj ?m = Some c) \<longleftrightarrow>
          (l' = l \<and> c = cls) \<or> (l' \<in> set (ce_loaders (es ! j)) \<and> classobj (es ! j) = Some c)"
        unfolding m jl(2) j(2) by auto
      finally have "resolves ?es2 l' c \<longleftrightarrow> (l' = l \<and> c = cls) \<or> resolves es l' c"
        unfolding old using jl(1) ji by blast
      then show ?thesis by blast
    qed
    ultimately show ?thesis using run by blast
  qed
qed

lemma store_classes_spec:
  assumes ok: "es_ok name es" and name: "cls_name cls = name" and run: "store_classes l cls es = (es', r)"
  shows "store_spec name l cls es es' r"
proof (cases "classcache_find_loader es l")
  case None
  then have none: "\<forall>e \<in> set es. l \<notin> lset e" by (simp add: find_loader_None)
  then have "\<not> resolves es l d" "\<not> constrained_to es l d" for d
    by (auto simp: resolves_def constrained_to_def lset_def)
  then show ?thesis using store_new_loader [OF ok name none] run by (auto simp: store_spec_def)
next
  case (Some i)
  note i = find_loaderD [OF Some]
  have sp: "seps es" using ok by (simp add: es_ok_def)
  have here: "resolves es l d \<longleftrightarrow> l \<in> set (ce_loaders (es ! i)) \<and> classobj (es ! i) = Some d" for d
    using resolves_nth [OF i(1), of l d] loader_only_here [OF sp i] by (auto simp: lset_def)
  have con: "constrained_to es l d \<longleftrightarrow> l \<in> set (ce_constraints (es ! i)) \<and> classobj (es ! i) = Some d" for d
    using i loader_only_here [OF sp i] by (fastforce simp: constrained_to_def lset_def in_set_conv_nth)
  have wf: "entry_wf name (es ! i)" by (rule es_ok_nth [OF ok i(1)])
  show ?thesis
  proof (cases "l \<in> set (ce_loaders (es ! i))")
    case True
    then obtain d where "classobj (es ! i) = Some d" using wf by (auto simp: entry_wf_def)
    then show ?thesis
      using run Some True ok here by (auto simp: store_spec_def store_classes_def Let_def split: if_splits)
  next
    case False
    then have c: "l \<in> set (ce_constraints (es ! i))" using i(2) by (simp add: lset_def)
    have nores: "\<not> resolves es l d" for d using here False by simp
    show ?thesis
    proof (cases "classobj (es ! i)")
      case None
      then have "\<not> constrained_to es l d" for d using con by simp
      then show ?thesis
        using store_first_resolution [OF ok name i Some None] run nores by (auto simp: store_spec_def)
    next
      case obj: (Some d)
      show ?thesis
      proof (cases "d = cls")
        case no: False
        then have "constrained_to es l d" using con c obj by simp
        then show ?thesis
          using run Some False obj no nores ok by (auto simp: store_spec_def store_classes_def Let_def)
      next
        case True
        let ?x = "add_loader l (es ! i)"
        have r: "es' = es[i := ?x]" "r = Inr cls"
          using run Some False obj True by (simp_all add: store_classes_def Let_def)
        have "es_ok name (es[i := ?x])"
        proof (rule es_ok_update [OF ok i(1)])
          show "entry_wf name ?x" using obj True name by (simp add: entry_wf_def)
          fix j assume j: "j < length es" "j \<noteq> i"
          then have "sep (es ! i) (es ! j)" using sp i(1) by (simp add: seps_def)
          then show "sep ?x (es ! j)" using loader_only_here [OF sp i j] by (simp add: sep_def)
        qed
        moreover have "grows es (es[i := ?x])" using i by (intro grows_update) auto
        moreover have "resolves (es[i := ?x]) l' c \<longleftrightarrow> resolves es l' c \<or> l' = l \<and> c = cls" for l' c
          using resolves_update [OF i(1), of ?x l' c] resolves_nth [OF i(1), of l' c] obj True by auto
        moreover have "\<not> (\<exists>d. d \<noteq> cls \<and> constrained_to es l d)" using con obj True by auto
        ultimately show ?thesis using r nores by (auto simp: store_spec_def)
      qed
    qed
  qed
qed

lemma store_defined_spec:
  assumes ok: "es_ok name es" and name: "cls_name cls = name" and run: "store_defined_classes cls es = (es', r)"
  shows "es_ok name es'" "grows es es'" "resolves es' l c \<longleftrightarrow> resolves es l c" "tied es' a b \<longleftrightarrow> tied es a b"
    "\<exists>e \<in> set es'. classobj e = Some r" "cls_classloader r = cls_classloader cls"
proof -
  let ?P = "\<lambda>e. map_option cls_classloader (classobj e) = Some (cls_classloader cls)"
  have "es_ok name es' \<and> grows es es' \<and> (resolves es' l c \<longleftrightarrow> resolves es l c) \<and> (tied es' a b \<longleftrightarrow> tied es a b) \<and>
    (\<exists>e \<in> set es'. classobj e = Some r) \<and> cls_classloader r = cls_classloader cls"
  proof (cases "List.find ?P es")
    case None
    then have "\<forall>e \<in> set es. \<not> ?P e" by (simp add: find_None_iff)
    then have "\<forall>e \<in> set es. classobj e \<noteq> Some cls" by auto
    then have "es_ok name (\<lparr> classobj = Some cls, ce_loaders = [], ce_constraints = [] \<rparr> # es)"
      using name by (intro es_ok_Cons [OF ok]) (auto simp: entry_wf_def sep_def lset_def)
    then show ?thesis
      using run None by (auto simp: store_defined_classes_def resolves_def tied_def lset_def)
  next
    case (Some e)
    then have "e \<in> set es" "?P e" by (auto simp: find_Some_iff)
    then show ?thesis using run Some ok by (auto simp: store_defined_classes_def split: option.splits)
  qed
  then show "es_ok name es'" "grows es es'" "resolves es' l c \<longleftrightarrow> resolves es l c" "tied es' a b \<longleftrightarrow> tied es a b"
    "\<exists>e \<in> set es'. classobj e = Some r" "cls_classloader r = cls_classloader cls" by blast+
qed

lemma resolves_merge:
  assumes ok: "es_ok name es" and i: "i < length es" and j: "j < length es" and ij: "i \<noteq> j"
    and c: "classobj (es ! i) = None \<or> classobj (es ! j) = None \<or> classobj (es ! i) = classobj (es ! j)"
  shows "resolves (classcache_remove_class_entry (es[i := merged_entry (es ! i) (es ! j)]) j) l d \<longleftrightarrow> resolves es l d"
proof -
  let ?m = "merged_entry (es ! i) (es ! j)" and ?Q = "\<lambda>e. l \<in> set (ce_loaders e) \<and> classobj e = Some d"
  have "?Q ?m \<longleftrightarrow> ?Q (es ! i) \<or> ?Q (es ! j)"
    using c es_ok_nth [OF ok i] es_ok_nth [OF ok j] by (auto simp: merged_entry_props entry_wf_def)
  then show ?thesis
    unfolding resolves_nth [OF i, of l d] unfolding resolves_def merge_set [OF i j ij]
    using j ij by blast
qed

lemma add_constraint_spec:
  assumes ok: "es_ok name es" and ab: "a \<noteq> b" and run: "add_constraint_classes a b es = (es', r)"
  shows "es_ok name es' \<and> grows es es' \<and> (\<forall>l c. resolves es' l c \<longleftrightarrow> resolves es l c) \<and>
    (r = Inr True \<and> tied es' a b \<or> r = Inl (LinkageError ''loading constraint violated: '') \<and> es' = es)"
proof -
  have sp: "seps es" using ok by (simp add: es_ok_def)
  show ?thesis
  proof (cases "classcache_find_loader es a"; cases "classcache_find_loader es b")
    assume none: "classcache_find_loader es a = None" "classcache_find_loader es b = None"
    let ?e = "\<lparr> classobj = None, ce_loaders = [], ce_constraints = [a, b] \<rparr>"
    have "es_ok name (?e # es)"
      using none by (intro es_ok_Cons [OF ok]) (auto simp: entry_wf_def sep_def lset_def find_loader_None)
    moreover have "tied (?e # es) a b" by (simp add: tied_def lset_def)
    moreover have "resolves (?e # es) l c \<longleftrightarrow> resolves es l c" for l c by (simp add: resolves_def)
    ultimately show ?thesis using run none by (auto simp: add_constraint_classes_def)
  next
    fix j assume f: "classcache_find_loader es a = None" "classcache_find_loader es b = Some j"
    note j = find_loaderD [OF f(2)]
    let ?x = "add_constrained a (es ! j)"
    have "es_ok name (es[j := ?x])"
      using es_ok_nth [OF ok j(1)] f(1) sp j
      by (intro es_ok_update [OF ok j(1)]) (auto simp: entry_wf_def find_loader_None seps_def sep_def)
    moreover have "grows es (es[j := ?x])" using j by (intro grows_update) auto
    moreover have "resolves (es[j := ?x]) l c \<longleftrightarrow> resolves es l c" for l c
      using resolves_update [OF j(1), of ?x l c] resolves_nth [OF j(1), of l c] by simp
    moreover have "tied (es[j := ?x]) a b" using j by (auto simp: tied_def set_update_conv)
    ultimately show ?thesis using run f by (auto simp: add_constraint_classes_def)
  next
    fix i assume f: "classcache_find_loader es a = Some i" "classcache_find_loader es b = None"
    note i = find_loaderD [OF f(1)]
    let ?x = "add_constrained b (es ! i)"
    have "es_ok name (es[i := ?x])"
      using es_ok_nth [OF ok i(1)] f(2) sp i
      by (intro es_ok_update [OF ok i(1)]) (auto simp: entry_wf_def find_loader_None seps_def sep_def)
    moreover have "grows es (es[i := ?x])" using i by (intro grows_update) auto
    moreover have "resolves (es[i := ?x]) l c \<longleftrightarrow> resolves es l c" for l c
      using resolves_update [OF i(1), of ?x l c] resolves_nth [OF i(1), of l c] by simp
    moreover have "tied (es[i := ?x]) a b" using i by (auto simp: tied_def set_update_conv)
    ultimately show ?thesis using run f by (auto simp: add_constraint_classes_def)
  next
    fix i j assume f: "classcache_find_loader es a = Some i" "classcache_find_loader es b = Some j"
    note i = find_loaderD [OF f(1)] and j = find_loaderD [OF f(2)]
    show ?thesis
    proof (cases "i = j")
      case True
      then have "tied es a b" using i j by (auto simp: tied_def)
      then show ?thesis using run f True ok by (auto simp: add_constraint_classes_def)
    next
      case ij: False
      show ?thesis
      proof (cases "classobj (es ! i) = None \<or> classobj (es ! j) = None \<or> classobj (es ! i) = classobj (es ! j)")
        case False
        then show ?thesis using run f ij ok by (auto simp: add_constraint_classes_def)
      next
        case True
        let ?m = "merged_entry (es ! i) (es ! j)"
        let ?es2 = "classcache_remove_class_entry (es[i := ?m]) j"
        have r: "es' = ?es2" "r = Inr True"
          using run f ij True by (auto simp: add_constraint_classes_def classcache_merge_class_entries_def Let_def)
        have set2: "set ?es2 = insert ?m ((!) es ` ({..<length es} - {i, j}))"
          by (rule merge_set [OF i(1) j(1) ij])
        have "seps ?es2" by (rule merge_seps [OF sp i(1) j(1) ij]) (auto simp: merged_entry_props)
        moreover have "entry_wf name ?m"
          using es_ok_nth [OF ok i(1)] es_ok_nth [OF ok j(1)] True
          by (auto simp: entry_wf_def merged_entry_def)
        then have "\<forall>e \<in> set ?es2. entry_wf name e" using ok unfolding set2 by (auto simp: es_ok_def)
        moreover have "grows es ?es2" by (rule grows_merge [OF i(1) j(1) ij True])
        moreover have "resolves ?es2 l c \<longleftrightarrow> resolves es l c" for l c
          by (rule resolves_merge [OF ok i(1) j(1) ij True])
        moreover have "tied ?es2 a b" using i j unfolding tied_def set2 by (auto simp: merged_entry_props)
        ultimately show ?thesis using r by (auto simp: es_ok_def)
      qed
    qed
  qed
qed

section \<open>The cache\<close>

definition classes_of :: "(string \<Rightarrow> u4) \<Rightarrow> hashtable \<Rightarrow> string \<Rightarrow> classcache_class_entry list" where
  "classes_of hashf t name =
     (case classcache_lookup_name hashf t name of None \<Rightarrow> [] | Some en \<Rightarrow> ne_classes en)"

definition cache_ok :: "(string \<Rightarrow> u4) \<Rightarrow> hashtable \<Rightarrow> bool" where
  "cache_ok hashf t \<longleftrightarrow> cc_inv hashf t \<and> (\<forall>name. es_ok name (classes_of hashf t name))"

text \<open>Every writer gets the entry of a name, computes new tuples and puts them back.\<close>

lemma write_back:
  assumes inv: "cc_inv hashf t" and run: "classcache_new_name hashf t name = (t1, en)"
  shows "ne_classes en = classes_of hashf t name" "cc_inv hashf (cc_update hashf t1 name (set_classes es))"
    "classes_of hashf (cc_update hashf t1 name (set_classes es)) = (classes_of hashf t)(name := es)"
proof -
  have key: "\<forall>c. ne_name (set_classes es c) = ne_name c" by (simp add: set_classes_def)
  note n = new_name_props [OF inv run]
  show "ne_classes en = classes_of hashf t name"
    using n(3) by (auto simp: classes_of_def split: option.splits)
  show "cc_inv hashf (cc_update hashf t1 name (set_classes es))" by (rule ccn.update_invar [OF n(1) key])
  show "classes_of hashf (cc_update hashf t1 name (set_classes es)) = (classes_of hashf t)(name := es)"
    unfolding classes_of_def ccn.update_lookup [OF n(1) key, of name] n(2)
    by (intro ext) (simp add: set_classes_def)
qed

lemma cache_ok_write:
  assumes "cache_ok hashf t" "cc_inv hashf t'" "classes_of hashf t' = (classes_of hashf t)(name := es)" "es_ok name es"
  shows "cache_ok hashf t'"
  using assms by (simp add: cache_ok_def)

lemma store_effect:
  assumes ok: "cache_ok hashf t" and run: "classcache_store hashf t l cls = (t', r)"
  shows "\<exists>es. store_spec (cls_name cls) l cls (classes_of hashf t (cls_name cls)) es r \<and>
    classes_of hashf t' = (classes_of hashf t)(cls_name cls := es) \<and> cache_ok hashf t'"
proof -
  obtain t1 en where n: "classcache_new_name hashf t (cls_name cls) = (t1, en)" by (cases "classcache_new_name hashf t (cls_name cls)")
  obtain es where s: "store_classes l cls (ne_classes en) = (es, r)"
    "t' = cc_update hashf t1 (cls_name cls) (set_classes es)"
    using run n by (auto simp: classcache_store_def split: prod.splits)
  have inv: "cc_inv hashf t" "es_ok (cls_name cls) (classes_of hashf t (cls_name cls))"
    using ok by (simp_all add: cache_ok_def)
  note w = write_back [OF inv(1) n]
  have sp: "store_spec (cls_name cls) l cls (classes_of hashf t (cls_name cls)) es r"
    using store_classes_spec [OF inv(2) refl] s(1) w(1) by simp
  then have "es_ok (cls_name cls) es" by (simp add: store_spec_def)
  then show ?thesis using sp s(2) w(2,3) cache_ok_write [OF ok] by blast
qed

lemma store_defined_effect:
  assumes ok: "cache_ok hashf t" and run: "classcache_store_defined hashf t cls = (t', r)"
  shows "\<exists>es. store_defined_classes cls (classes_of hashf t (cls_name cls)) = (es, r) \<and>
    classes_of hashf t' = (classes_of hashf t)(cls_name cls := es) \<and> cache_ok hashf t'"
proof -
  obtain t1 en where n: "classcache_new_name hashf t (cls_name cls) = (t1, en)" by (cases "classcache_new_name hashf t (cls_name cls)")
  obtain es where s: "store_defined_classes cls (ne_classes en) = (es, r)"
    "t' = cc_update hashf t1 (cls_name cls) (set_classes es)"
    using run n by (auto simp: classcache_store_defined_def split: prod.splits)
  have inv: "cc_inv hashf t" "es_ok (cls_name cls) (classes_of hashf t (cls_name cls))"
    using ok by (simp_all add: cache_ok_def)
  note w = write_back [OF inv(1) n]
  have "es_ok (cls_name cls) es" using store_defined_spec(1) [OF inv(2) refl] s(1) w(1) by simp
  then show ?thesis using s w cache_ok_write [OF ok] by auto
qed

lemma add_constraint_effect:
  assumes ok: "cache_ok hashf t" and run: "classcache_add_constraint hashf t a b name = (t', r)" and ab: "a \<noteq> b"
  shows "\<exists>es. add_constraint_classes a b (classes_of hashf t name) = (es, r) \<and>
    classes_of hashf t' = (classes_of hashf t)(name := es) \<and> cache_ok hashf t'"
proof -
  obtain t1 en where n: "classcache_new_name hashf t name = (t1, en)" by (cases "classcache_new_name hashf t name")
  obtain es where s: "add_constraint_classes a b (ne_classes en) = (es, r)"
    "t' = cc_update hashf t1 name (set_classes es)"
    using run n ab by (auto simp: classcache_add_constraint_def split: prod.splits)
  have inv: "cc_inv hashf t" "es_ok name (classes_of hashf t name)"
    using ok by (simp_all add: cache_ok_def)
  note w = write_back [OF inv(1) n]
  have "es_ok name es" using add_constraint_spec [OF inv(2) ab] s(1) w(1) by simp
  then show ?thesis using s w cache_ok_write [OF ok] by auto
qed

text \<open>Any sequence of operations on a cache.\<close>

datatype cc_op = Op_store classloader_t classinfo | Op_store_defined classinfo
  | Op_add_constraint classloader_t classloader_t string

fun cc_step :: "(string \<Rightarrow> u4) \<Rightarrow> cc_op \<Rightarrow> hashtable \<Rightarrow> hashtable" where
  "cc_step hashf (Op_store l cls) t = fst (classcache_store hashf t l cls)"
| "cc_step hashf (Op_store_defined cls) t = fst (classcache_store_defined hashf t cls)"
| "cc_step hashf (Op_add_constraint a b name) t = fst (classcache_add_constraint hashf t a b name)"

lemma cc_step_ok:
  assumes ok: "cache_ok hashf t"
  shows "cache_ok hashf (cc_step hashf opr t) \<and> grows (classes_of hashf t name) (classes_of hashf (cc_step hashf opr t) name)"
proof (cases opr)
  case (Op_store l cls)
  obtain t' r where run: "classcache_store hashf t l cls = (t', r)" by (cases "classcache_store hashf t l cls")
  show ?thesis using store_effect [OF ok run] run Op_store by (auto simp: store_spec_def)
next
  case (Op_store_defined cls)
  obtain t' r where run: "classcache_store_defined hashf t cls = (t', r)" by (cases "classcache_store_defined hashf t cls")
  have "es_ok (cls_name cls) (classes_of hashf t (cls_name cls))" using ok by (simp add: cache_ok_def)
  then show ?thesis
    using store_defined_effect [OF ok run] store_defined_spec(2) [OF _ refl] run Op_store_defined by fastforce
next
  case (Op_add_constraint a b n)
  show ?thesis
  proof (cases "a = b")
    case True
    then show ?thesis using Op_add_constraint ok by (simp add: classcache_add_constraint_def)
  next
    case False
    obtain t' r where run: "classcache_add_constraint hashf t a b n = (t', r)" by (cases "classcache_add_constraint hashf t a b n")
    have "es_ok n (classes_of hashf t n)" using ok by (simp add: cache_ok_def)
    then show ?thesis
      using add_constraint_effect [OF ok run False] add_constraint_spec [OF _ False] run Op_add_constraint by fastforce
  qed
qed

lemma cc_run_ok:
  assumes "cache_ok hashf t"
  shows "cache_ok hashf (fold (cc_step hashf) ops t) \<and>
    grows (classes_of hashf t name) (classes_of hashf (fold (cc_step hashf) ops t) name)"
  using assms
proof (induction ops arbitrary: t)
  case (Cons opr ops)
  then show ?case using cc_step_ok [OF Cons.prems, of opr name] grows_trans by fastforce
qed simp

lemma cache_ok_init: "cache_ok hashf classcache_init"
proof -
  have "classcache_lookup_name hashf classcache_init name = None" for name
    using cc_lookup_iff [OF cc_init_inv(1)] cc_init_inv(2) by (metis empty_iff not_Some_eq)
  then show ?thesis using cc_init_inv(1) by (simp add: cache_ok_def classes_of_def es_ok_def seps_def)
qed

lemma lookup_resolves:
  assumes ok: "cache_ok hashf t"
  shows "\<exists>r. classcache_lookup hashf t l name = Inr r \<and> (\<forall>c. r = Some c \<longleftrightarrow> resolves (classes_of hashf t name) l c)"
proof -
  let ?es = "classes_of hashf t name" and ?P = "\<lambda>e. l \<in> set (ce_loaders e)"
  have es: "es_ok name ?es" using ok by (simp add: cache_ok_def)
  have eq: "classcache_lookup hashf t l name = (case List.find ?P ?es of None \<Rightarrow> Inr None
      | Some clsen \<Rightarrow> (case classobj clsen of None \<Rightarrow> Inl Assertion_failed | Some c \<Rightarrow> Inr (Some c)))"
    by (simp add: classcache_lookup_def classes_of_def split: option.splits)
  show ?thesis
  proof (cases "List.find ?P ?es")
    case None
    then have "\<not> resolves ?es l c" for c by (auto simp: find_None_iff resolves_def)
    then show ?thesis using eq None by simp
  next
    case (Some e)
    then have e: "e \<in> set ?es" "l \<in> set (ce_loaders e)" by (auto simp: find_Some_iff)
    then obtain d where d: "classobj e = Some d" using es by (auto simp: es_ok_def entry_wf_def)
    have same: "f = e" if "f \<in> set ?es" "l \<in> set (ce_loaders f)" for f
      by (rule seps_same [of ?es _ _ l]) (use es e that in \<open>simp_all add: es_ok_def lset_def\<close>)
    have "d = c" if "resolves ?es l c" for c
    proof -
      obtain f where "f \<in> set ?es" "l \<in> set (ce_loaders f)" "classobj f = Some c"
        using \<open>resolves ?es l c\<close> unfolding resolves_def by blast
      then show ?thesis using same d by simp
    qed
    moreover have "resolves ?es l d" unfolding resolves_def using e d by blast
    ultimately have "resolves ?es l c \<longleftrightarrow> d = c" for c by blast
    then show ?thesis by (intro exI [of _ "Some d"]) (simp add: eq Some d)
  qed
qed

lemma lookup_iff:
  "cache_ok hashf t \<Longrightarrow> classcache_lookup hashf t l name = Inr (Some c) \<longleftrightarrow> resolves (classes_of hashf t name) l c"
proof -
  assume "cache_ok hashf t"
  then obtain r where "classcache_lookup hashf t l name = Inr r" "\<forall>c. r = Some c \<longleftrightarrow> resolves (classes_of hashf t name) l c"
    using lookup_resolves by blast
  then show ?thesis by simp
qed

section \<open>Properties\<close>

text \<open>\<^bold>\<open>C10.\<close> Loading constraints are enforced. Once \<open>classcache_add_constraint\<close> has accepted that two
  loaders agree on a name, then after any further operations on the cache the two loaders never
  resolve the name to different classes.\<close>

theorem loading_constraint_enforced:
  assumes "classcache_add_constraint hashf (fold (cc_step hashf) ops1 classcache_init) a b name = (t1, Inr True)"
    and "classcache_lookup hashf (fold (cc_step hashf) ops2 t1) a name = Inr (Some c)"
    and "classcache_lookup hashf (fold (cc_step hashf) ops2 t1) b name = Inr (Some d)"
  shows "c = d"
proof (cases "a = b")
  case True
  then show ?thesis using assms(2,3) by simp
next
  case False
  have ok: "cache_ok hashf (fold (cc_step hashf) ops1 classcache_init)"
    using cc_run_ok [OF cache_ok_init] by blast
  then have es0: "es_ok name (classes_of hashf (fold (cc_step hashf) ops1 classcache_init) name)"
    by (simp add: cache_ok_def)
  obtain es where es: "add_constraint_classes a b (classes_of hashf (fold (cc_step hashf) ops1 classcache_init) name) = (es, Inr True)"
    "classes_of hashf t1 = (classes_of hashf (fold (cc_step hashf) ops1 classcache_init))(name := es)" "cache_ok hashf t1"
    using add_constraint_effect [OF ok assms(1) False] by blast
  then have "tied (classes_of hashf t1 name) a b" using add_constraint_spec [OF es0 False es(1)] by simp
  moreover have run: "cache_ok hashf (fold (cc_step hashf) ops2 t1)"
    "grows (classes_of hashf t1 name) (classes_of hashf (fold (cc_step hashf) ops2 t1) name)"
    using cc_run_ok [OF es(3)] by blast+
  ultimately have "tied (classes_of hashf (fold (cc_step hashf) ops2 t1) name) a b" using grows_tied by blast
  moreover have "es_ok name (classes_of hashf (fold (cc_step hashf) ops2 t1) name)" using run(1) by (simp add: cache_ok_def)
  ultimately show ?thesis
    using tied_agree assms(2,3) lookup_iff [OF run(1)] by blast
qed

definition wit_class :: classinfo where
  "wit_class = \<lparr> cls_id = 1, cls_name = ''A'', cls_classloader = Some 1 \<rparr>"

definition wit_class2 :: classinfo where
  "wit_class2 = \<lparr> cls_id = 2, cls_name = ''A'', cls_classloader = Some 2 \<rparr>"

lemma wit_constraint_run:
  "snd (classcache_add_constraint (\<lambda>_. 0) classcache_init (Some 1) (Some 2) ''A'') = Inr True"
  "classcache_lookup (\<lambda>_. 0) (fold (cc_step (\<lambda>_. 0)) [Op_store (Some 1) wit_class, Op_store (Some 2) wit_class]
     (fst (classcache_add_constraint (\<lambda>_. 0) classcache_init (Some 1) (Some 2) ''A''))) (Some 1) ''A'' = Inr (Some wit_class)"
  "classcache_lookup (\<lambda>_. 0) (fold (cc_step (\<lambda>_. 0)) [Op_store (Some 1) wit_class, Op_store (Some 2) wit_class]
     (fst (classcache_add_constraint (\<lambda>_. 0) classcache_init (Some 1) (Some 2) ''A''))) (Some 2) ''A'' = Inr (Some wit_class)"
  by code_simp+

theorem loading_constraint_enforced_witness:
  "\<exists>t1 c d. classcache_add_constraint (\<lambda>_. 0) (fold (cc_step (\<lambda>_. 0)) [] classcache_init) (Some 1) (Some 2) ''A'' = (t1, Inr True) \<and>
     classcache_lookup (\<lambda>_. 0) (fold (cc_step (\<lambda>_. 0)) [Op_store (Some 1) wit_class, Op_store (Some 2) wit_class] t1) (Some 1) ''A'' = Inr (Some c) \<and>
     classcache_lookup (\<lambda>_. 0) (fold (cc_step (\<lambda>_. 0)) [Op_store (Some 1) wit_class, Op_store (Some 2) wit_class] t1) (Some 2) ''A'' = Inr (Some d) \<and> c = d"
proof -
  let ?ops = "[Op_store (Some 1) wit_class, Op_store (Some 2) wit_class]"
  obtain t1 where t1: "classcache_add_constraint (\<lambda>_. 0) classcache_init (Some 1) (Some 2) ''A'' = (t1, Inr True)"
    using wit_constraint_run(1) by (metis prod.collapse)
  then have a: "classcache_add_constraint (\<lambda>_. 0) (fold (cc_step (\<lambda>_. 0)) [] classcache_init) (Some 1) (Some 2) ''A'' = (t1, Inr True)"
    by simp
  obtain c d where cd: "classcache_lookup (\<lambda>_. 0) (fold (cc_step (\<lambda>_. 0)) ?ops t1) (Some 1) ''A'' = Inr (Some c)"
    "classcache_lookup (\<lambda>_. 0) (fold (cc_step (\<lambda>_. 0)) ?ops t1) (Some 2) ''A'' = Inr (Some d)"
    using wit_constraint_run(2,3) unfolding t1 fst_conv by blast
  have "c = d" by (rule loading_constraint_enforced [OF a cd])
  with a cd show ?thesis by blast
qed

text \<open>\<^bold>\<open>C11.\<close> Resolution is stable: a class found for a loader and a name is found for them after any
  further operations.\<close>

theorem resolution_stable:
  assumes "classcache_lookup hashf (fold (cc_step hashf) ops1 classcache_init) l name = Inr (Some c)"
  shows "classcache_lookup hashf (fold (cc_step hashf) (ops1 @ ops2) classcache_init) l name = Inr (Some c)"
proof -
  let ?t = "fold (cc_step hashf) ops1 classcache_init"
  have ok: "cache_ok hashf ?t" using cc_run_ok [OF cache_ok_init] by blast
  note r = cc_run_ok [OF ok, of ops2 name]
  have "resolves (classes_of hashf ?t name) l c" using assms lookup_iff [OF ok] by simp
  then have "resolves (classes_of hashf (fold (cc_step hashf) ops2 ?t) name) l c" using r grows_resolves by blast
  then show ?thesis using lookup_iff [of hashf "fold (cc_step hashf) ops2 ?t"] r by simp
qed

theorem resolution_stable_witness:
  "classcache_lookup (\<lambda>_. 0) (fold (cc_step (\<lambda>_. 0)) ([Op_store (Some 1) wit_class] @ [Op_store (Some 1) wit_class2]) classcache_init)
     (Some 1) ''A'' = Inr (Some wit_class)"
  by (rule resolution_stable) code_simp

text \<open>\<^bold>\<open>C12.\<close> What \<open>classcache_store\<close> answers and records. If the loader already resolves the name, the
  earlier class is returned and no lookup changes; if the loader is constrained to another class, a
  \<open>LinkageError\<close> is thrown and no lookup changes; otherwise the class is returned and exactly the
  lookup of this loader and name changes.\<close>

theorem store_outcome:
  assumes "t = fold (cc_step hashf) ops classcache_init" and "classcache_store hashf t l cls = (t', r)"
  shows "case classcache_lookup hashf t l (cls_name cls) of
     Inr (Some d) \<Rightarrow> r = Inr d \<and> classcache_lookup hashf t' = classcache_lookup hashf t
   | Inr None \<Rightarrow>
       if \<exists>d. d \<noteq> cls \<and> constrained_to (classes_of hashf t (cls_name cls)) l d
       then r = Inl (LinkageError ''loading constraint violated: '') \<and> classcache_lookup hashf t' = classcache_lookup hashf t
       else r = Inr cls \<and> classcache_lookup hashf t' = (classcache_lookup hashf t)
              (l := (classcache_lookup hashf t l)(cls_name cls := Inr (Some cls)))
   | Inl e \<Rightarrow> False"
proof -
  let ?n = "cls_name cls"
  have ok: "cache_ok hashf t" using cc_run_ok [OF cache_ok_init] assms(1) by blast
  obtain es where es: "store_spec ?n l cls (classes_of hashf t ?n) es r"
    "classes_of hashf t' = (classes_of hashf t)(?n := es)" "cache_ok hashf t'"
    using store_effect [OF ok assms(2)] by blast
  obtain q where q: "classcache_lookup hashf t l ?n = Inr q" "\<And>c. q = Some c \<longleftrightarrow> resolves (classes_of hashf t ?n) l c"
    using lookup_resolves [OF ok] by blast
  have lk_ext: "classcache_lookup hashf t' l' n' = classcache_lookup hashf t l' n'"
    if "\<And>c. resolves (classes_of hashf t' n') l' c \<longleftrightarrow> resolves (classes_of hashf t n') l' c" for l' n'
  proof -
    obtain u v where "classcache_lookup hashf t l' n' = Inr u" "\<And>c. u = Some c \<longleftrightarrow> resolves (classes_of hashf t n') l' c"
      "classcache_lookup hashf t' l' n' = Inr v" "\<And>c. v = Some c \<longleftrightarrow> resolves (classes_of hashf t' n') l' c"
      using lookup_resolves [OF ok] lookup_resolves [OF es(3)] by blast
    then show ?thesis using that by (metis not_Some_eq)
  qed
  have same: "classcache_lookup hashf t' = classcache_lookup hashf t" if "es = classes_of hashf t ?n"
    using that es(2) by (intro HOL.ext lk_ext) simp
  show ?thesis
  proof (cases q)
    case (Some d)
    then have ex: "\<exists>d. resolves (classes_of hashf t ?n) l d" using q(2) by blast
    have "(\<exists>d. resolves (classes_of hashf t ?n) l d \<and> r = Inr d) \<and> es = classes_of hashf t ?n"
      using es(1) unfolding store_spec_def if_P [OF ex] by blast
    then obtain d' where "resolves (classes_of hashf t ?n) l d'" "r = Inr d'" "es = classes_of hashf t ?n" by blast
    then show ?thesis using q(1) q(2) [of d'] same Some by simp
  next
    case None
    then have nores: "\<not> resolves (classes_of hashf t ?n) l d" for d using q(2) by auto
    show ?thesis
    proof (cases "\<exists>d. d \<noteq> cls \<and> constrained_to (classes_of hashf t ?n) l d")
      case True
      then show ?thesis using es(1) nores q(1) None same by (auto simp: store_spec_def)
    next
      case False
      then have r: "r = Inr cls" "\<And>l' c. resolves es l' c \<longleftrightarrow> resolves (classes_of hashf t ?n) l' c \<or> l' = l \<and> c = cls"
        using es(1) nores by (simp_all add: store_spec_def)
      have "classcache_lookup hashf t' l ?n = Inr (Some cls)" using lookup_iff [OF es(3)] es(2) r(2) by simp
      then have "classcache_lookup hashf t' l' n' = ((classcache_lookup hashf t)
          (l := (classcache_lookup hashf t l)(?n := Inr (Some cls)))) l' n'" for l' n'
        using lk_ext [of n' l'] r(2) es(2) by auto
      then have "classcache_lookup hashf t' = (classcache_lookup hashf t)
          (l := (classcache_lookup hashf t l)(?n := Inr (Some cls)))" by (intro HOL.ext)
      then show ?thesis using r(1) q(1) None False by simp
    qed
  qed
qed

theorem store_outcome_witness:
  "\<exists>t' r. classcache_store (\<lambda>_. 0) classcache_init (Some 1) wit_class = (t', r) \<and>
     classcache_lookup (\<lambda>_. 0) t' (Some 1) ''A'' = Inr (Some wit_class)"
proof -
  obtain t' r where run: "classcache_store (\<lambda>_. 0) classcache_init (Some 1) wit_class = (t', r)"
    by (cases "classcache_store (\<lambda>_. 0) classcache_init (Some 1) wit_class")
  have "classcache_lookup (\<lambda>_. 0) classcache_init (Some 1) ''A'' = Inr None" by code_simp
  moreover have "\<not> constrained_to (classes_of (\<lambda>_. 0) classcache_init ''A'') (Some 1) d" for d
  proof -
    have "classes_of (\<lambda>_. 0) classcache_init ''A'' = []" by code_simp
    then show ?thesis by (simp add: constrained_to_def)
  qed
  ultimately have "classcache_lookup (\<lambda>_. 0) t' (Some 1) ''A'' = Inr (Some wit_class)"
    using store_outcome [of classcache_init "\<lambda>_. 0" "[]", OF _ run] by (simp add: wit_class_def)
  then show ?thesis using run by auto
qed

text \<open>\<^bold>\<open>C13.\<close> The invariants the source documents hold in every cache the operations can build: a tuple
  without a class has no initiating loader, a class is in at most one tuple of its name, a loader is
  in at most one tuple of a name; so the assertion in \<open>classcache_lookup\<close> never fails.\<close>

theorem cache_invariants:
  fixes hashf :: "string \<Rightarrow> u4" and ops :: "cc_op list"
  defines "t \<equiv> fold (cc_step hashf) ops classcache_init"
  shows "es_ok name (classes_of hashf t name) \<and> (\<exists>r. classcache_lookup hashf t l name = Inr r)"
proof -
  have ok: "cache_ok hashf t" using cc_run_ok [OF cache_ok_init] unfolding t_def by blast
  then show ?thesis using lookup_resolves [OF ok, of l name] unfolding cache_ok_def by blast
qed

end
