(* ===== verification/Avl.thy ===== *)
theory Avl
  imports Prelude
begin

text \<open>
  The AVL tree of the toolbox (\<^verbatim>\<open>src/src/toolbox/avl.cpp\<close>). A node holds its data, the balance
  field (height of the right subtree less height of the left one) and two children; \<open>Null\<close> is a
  \<open>NULL\<close> child, and following one fails. The comparator is an argument, called with the node's data
  first.

  The locale \<open>avl_order\<close> is the contract between the tree and a comparator: the data of the tree
  are linearly ordered by \<open>before\<close>, and the comparator sends a probe to the side where its match
  lies. Insertion and search are verified once against it.
\<close>

section \<open>The tree\<close>

datatype 'a avl_node = Null | Node (data: 'a) (balance: int) "'a avl_node" "'a avl_node"

record 'a avl_tree_t =
  avl_root :: "'a avl_node"
  avl_entries :: nat

definition avl_create :: "'a avl_tree_t" where
  "avl_create = \<lparr> avl_root = Null, avl_entries = 0 \<rparr>"

definition avl_newnode :: "'a \<Rightarrow> 'a avl_node" where
  "avl_newnode d = Node d 0 Null Null"

definition null_deref :: vm_error where
  "null_deref = Vm_abort ''null dereference''"

fun avl_rotate_left :: "'a avl_node \<Rightarrow> 'a avl_node result" where
  "avl_rotate_left (Node a ba l (Node b bb m r)) = Inr (Node b bb (Node a ba l m) r)"
| "avl_rotate_left _ = Inl null_deref"

fun avl_rotate_right :: "'a avl_node \<Rightarrow> 'a avl_node result" where
  "avl_rotate_right (Node c bc (Node b bb l m) r) = Inr (Node b bb l (Node c bc m r))"
| "avl_rotate_right _ = Inl null_deref"

fun set_balance :: "int \<Rightarrow> 'a avl_node \<Rightarrow> 'a avl_node" where
  "set_balance b Null = Null"
| "set_balance b (Node d _ l r) = Node d b l r"

text \<open>The balance of the children after a double rotation; the switch has no default.\<close>

fun avl_adjust_balance :: "'a avl_node \<Rightarrow> 'a avl_node result" where
  "avl_adjust_balance (Node d b (Node dl bl ll lr) (Node dr br rl rr)) =
     (let (bl', br') = (if b = -1 then (0, 1) else if b = 0 then (0, 0) else if b = 1 then (-1, 0) else (bl, br))
      in Inr (Node d 0 (Node dl bl' ll lr) (Node dr br' rl rr)))"
| "avl_adjust_balance _ = Inl null_deref"

text \<open>The two rebalancing branches of \<open>avl_insert_intern\<close>.\<close>

definition avl_left_too_tall :: "'a avl_node \<Rightarrow> 'a avl_node result" where
  "avl_left_too_tall t = (case t of
     Node d b (Node dl bl ll lr) r \<Rightarrow>
       if bl < 0 then
         rbind (avl_rotate_right t) (\<lambda>t1. case t1 of
             Node d1 b1 l1 r1 \<Rightarrow> Inr (Node d1 0 l1 (set_balance 0 r1)) | Null \<Rightarrow> Inl null_deref)
       else
         rbind (avl_rotate_left (Node dl bl ll lr)) (\<lambda>l1.
           rbind (avl_rotate_right (Node d b l1 r)) avl_adjust_balance)
   | _ \<Rightarrow> Inl null_deref)"

definition avl_right_too_tall :: "'a avl_node \<Rightarrow> 'a avl_node result" where
  "avl_right_too_tall t = (case t of
     Node d b l (Node dr br rl rr) \<Rightarrow>
       if br > 0 then
         rbind (avl_rotate_left t) (\<lambda>t1. case t1 of
             Node d1 b1 l1 r1 \<Rightarrow> Inr (Node d1 0 (set_balance 0 l1) r1) | Null \<Rightarrow> Inl null_deref)
       else
         rbind (avl_rotate_right (Node dr br rl rr)) (\<lambda>r1.
           rbind (avl_rotate_left (Node d b l r1)) avl_adjust_balance)
   | _ \<Rightarrow> Inl null_deref)"

text \<open>What \<open>avl_insert_intern\<close> does once the child subtree is in place: the new node and the value
  returned to the parent.\<close>

definition avl_rebalance :: "int \<Rightarrow> 'a avl_node \<Rightarrow> ('a avl_node \<times> int) result" where
  "avl_rebalance bal t =
     (if bal \<noteq> 0 \<and> balance t \<noteq> 0 then
        (if balance t < -1 then rbind (avl_left_too_tall t) (\<lambda>t1. Inr (t1, 0))
         else if balance t > 1 then rbind (avl_right_too_tall t) (\<lambda>t1. Inr (t1, 0))
         else Inr (t, 1))
      else Inr (t, 0))"

fun avl_insert_intern :: "('a \<Rightarrow> 'a \<Rightarrow> int) \<Rightarrow> 'a avl_node \<Rightarrow> 'a \<Rightarrow> ('a avl_node \<times> int) result" where
  "avl_insert_intern cmp Null d = Inl null_deref"
| "avl_insert_intern cmp (Node x b l r) d =
     (let res = cmp x d
      in if res = 0 then Inl (Vm_abort ''avl_insert_intern: node already in the tree'')
         else if res < 0 then
           rbind (if l = Null then Inr (avl_newnode d, 1) else avl_insert_intern cmp l d)
             (\<lambda>(l', bal). avl_rebalance bal (Node x (b - bal) l' r))
         else
           rbind (if r = Null then Inr (avl_newnode d, 1) else avl_insert_intern cmp r d)
             (\<lambda>(r', bal). avl_rebalance bal (Node x (b + bal) l r')))"

definition avl_insert :: "('a \<Rightarrow> 'a \<Rightarrow> int) \<Rightarrow> 'a avl_tree_t \<Rightarrow> 'a \<Rightarrow> 'a avl_tree_t result" where
  "avl_insert cmp tree d =
     (if avl_root tree = Null
      then Inr (tree\<lparr>avl_root := avl_newnode d, avl_entries := avl_entries tree + 1\<rparr>)
      else rbind (avl_insert_intern cmp (avl_root tree) d)
        (\<lambda>(t, _). Inr (tree\<lparr>avl_root := t, avl_entries := avl_entries tree + 1\<rparr>)))"

fun avl_find_node :: "('a \<Rightarrow> 'a \<Rightarrow> int) \<Rightarrow> 'a avl_node \<Rightarrow> 'a \<Rightarrow> 'a option" where
  "avl_find_node cmp Null d = None"
| "avl_find_node cmp (Node x b l r) d =
     (let res = cmp x d
      in if res = 0 then Some x else if res < 0 then avl_find_node cmp l d else avl_find_node cmp r d)"

definition avl_find :: "('a \<Rightarrow> 'a \<Rightarrow> int) \<Rightarrow> 'a avl_tree_t \<Rightarrow> 'a \<Rightarrow> 'a option" where
  "avl_find cmp tree d = avl_find_node cmp (avl_root tree) d"

section \<open>Balance\<close>

fun height :: "'a avl_node \<Rightarrow> nat" where
  "height Null = 0"
| "height (Node d b l r) = Suc (max (height l) (height r))"

fun inorder :: "'a avl_node \<Rightarrow> 'a list" where
  "inorder Null = []"
| "inorder (Node d b l r) = inorder l @ d # inorder r"

fun balanced :: "'a avl_node \<Rightarrow> bool" where
  "balanced Null \<longleftrightarrow> True"
| "balanced (Node d b l r) \<longleftrightarrow> b = int (height r) - int (height l) \<and> \<bar>b\<bar> \<le> 1 \<and> balanced l \<and> balanced r"

lemma height_0 [simp]: "height t = 0 \<longleftrightarrow> t = Null"
  by (cases t) auto

text \<open>Rebalancing a node one of whose subtrees has just grown by one level.\<close>

lemma left_too_tall:
  assumes "balanced l" "balanced r" "height l = height r + 2" "balance l \<noteq> 0" "b = -2"
  shows "\<exists>t. avl_left_too_tall (Node d b l r) = Inr t \<and> balanced t \<and> t \<noteq> Null \<and>
    inorder t = inorder l @ d # inorder r \<and> height t = height r + 2"
proof -
  obtain dl bl ll lr where l: "l = Node dl bl ll lr" using assms(3) by (cases l) auto
  show ?thesis
  proof (cases "bl < 0")
    case True
    then show ?thesis using assms l by (auto simp: avl_left_too_tall_def max_def split: if_splits)
  next
    case False
    then have "height lr = height ll + 1" using assms l by (auto simp: max_def split: if_splits)
    then obtain m bm ml mr where m: "lr = Node m bm ml mr" by (cases lr) auto
    have bm: "bm = -1 \<or> bm = 0 \<or> bm = 1" using assms l m by auto
    have hs: "height ll + 1 = height lr" "height lr = height r + 1"
      using assms l False \<open>height lr = height ll + 1\<close> by (auto simp: max_def split: if_splits)
    show ?thesis
      using assms l m False bm hs by (auto simp: avl_left_too_tall_def max_def split: if_splits)
  qed
qed

lemma right_too_tall:
  assumes "balanced l" "balanced r" "height r = height l + 2" "balance r \<noteq> 0" "b = 2"
  shows "\<exists>t. avl_right_too_tall (Node d b l r) = Inr t \<and> balanced t \<and> t \<noteq> Null \<and>
    inorder t = inorder l @ d # inorder r \<and> height t = height l + 2"
proof -
  obtain dr br rl rr where r: "r = Node dr br rl rr" using assms(3) by (cases r) auto
  show ?thesis
  proof (cases "br > 0")
    case True
    then show ?thesis using assms r by (auto simp: avl_right_too_tall_def max_def split: if_splits)
  next
    case False
    then have "height rl = height rr + 1" using assms r by (auto simp: max_def split: if_splits)
    then obtain m bm ml mr where m: "rl = Node m bm ml mr" by (cases rl) auto
    have bm: "bm = -1 \<or> bm = 0 \<or> bm = 1" using assms r m by auto
    have hs: "height rr + 1 = height rl" "height rl = height l + 1"
      using assms r False \<open>height rl = height rr + 1\<close> by (auto simp: max_def split: if_splits)
    show ?thesis
      using assms r m False bm hs by (auto simp: avl_right_too_tall_def max_def split: if_splits)
  qed
qed

text \<open>The result of inserting below a node: balanced, taller by exactly the value returned, and a
  subtree that grew is not in perfect balance unless it is a new leaf.\<close>

definition grown :: "'a avl_node \<Rightarrow> 'a avl_node \<times> int \<Rightarrow> bool" where
  "grown t res \<longleftrightarrow> (case res of (t', bal) \<Rightarrow> balanced t' \<and> t' \<noteq> Null \<and> (bal = 0 \<or> bal = 1) \<and>
     int (height t') = int (height t) + bal \<and> (bal = 1 \<and> t \<noteq> Null \<longrightarrow> balance t' \<noteq> 0))"

lemma rebalance_left:
  assumes "balanced (Node x b l r)" "grown l (l', bal)"
  shows "\<exists>t' bal'. avl_rebalance bal (Node x (b - bal) l' r) = Inr (t', bal') \<and>
    grown (Node x b l r) (t', bal') \<and> inorder t' = inorder l' @ x # inorder r"
proof (cases "bal = 1 \<and> b = -1")
  case True
  have "l \<noteq> Null" using assms(1) True by auto
  then have "height l' = height r + 2" "balance l' \<noteq> 0" "balanced l'" "balanced r"
    using assms True by (auto simp: grown_def)
  then obtain t where "avl_left_too_tall (Node x (-2) l' r) = Inr t" "balanced t" "t \<noteq> Null"
    "inorder t = inorder l' @ x # inorder r" "height t = height r + 2"
    using left_too_tall [of l' r "-2" x] by auto
  moreover from this have "avl_rebalance bal (Node x (b - bal) l' r) = Inr (t, 0)"
    using True by (simp add: avl_rebalance_def)
  moreover from calculation have "grown (Node x b l r) (t, 0)"
    using True assms(1) by (simp add: grown_def)
  ultimately show ?thesis by blast
next
  case False
  then show ?thesis using assms by (auto simp: avl_rebalance_def grown_def max_def)
qed

lemma rebalance_right:
  assumes "balanced (Node x b l r)" "grown r (r', bal)"
  shows "\<exists>t' bal'. avl_rebalance bal (Node x (b + bal) l r') = Inr (t', bal') \<and>
    grown (Node x b l r) (t', bal') \<and> inorder t' = inorder l @ x # inorder r'"
proof (cases "bal = 1 \<and> b = 1")
  case True
  have "r \<noteq> Null" using assms(1) True by auto
  then have "height r' = height l + 2" "balance r' \<noteq> 0" "balanced r'" "balanced l"
    using assms True by (auto simp: grown_def)
  then obtain t where "avl_right_too_tall (Node x 2 l r') = Inr t" "balanced t" "t \<noteq> Null"
    "inorder t = inorder l @ x # inorder r'" "height t = height l + 2"
    using right_too_tall [of l r' 2 x] by auto
  moreover from this have "avl_rebalance bal (Node x (b + bal) l r') = Inr (t, 0)"
    using True by (simp add: avl_rebalance_def)
  moreover from calculation have "grown (Node x b l r) (t, 0)"
    using True assms(1) by (simp add: grown_def)
  ultimately show ?thesis by blast
next
  case False
  then show ?thesis using assms by (auto simp: avl_rebalance_def grown_def max_def)
qed

text \<open>A balanced tree has at least about the square root of two to the height as many entries.\<close>

lemma balanced_size: "balanced t \<Longrightarrow> 2 ^ (height t div 2) \<le> length (inorder t) + 1"
proof (induction t)
  case (Node d b l r)
  have "height r \<le> height l + 1" "height l \<le> height r + 1" using Node.prems by auto
  then have h: "height l \<ge> height (Node d b l r) - 2" "height r \<ge> height (Node d b l r) - 2" by auto
  have IH: "2 ^ (height l div 2) \<le> length (inorder l) + 1" "2 ^ (height r div 2) \<le> length (inorder r) + 1"
    using Node by auto
  show ?case
  proof (cases "height (Node d b l r) < 2")
    case True
    then have "height (Node d b l r) div 2 = 0" by simp
    then show ?thesis by (simp only: power_0)
  next
    case False
    then obtain n where n: "height (Node d b l r) = n + 2" by (metis le_add_diff_inverse2 not_less)
    define k where "k = n div 2"
    have k: "height (Node d b l r) div 2 = Suc k" unfolding n by (simp add: k_def)
    have "(2::nat) ^ k \<le> 2 ^ (height l div 2)" "(2::nat) ^ k \<le> 2 ^ (height r div 2)"
      using h unfolding n by (auto simp: k_def intro!: power_increasing div_le_mono)
    then have "2 ^ k \<le> length (inorder l) + 1" "2 ^ k \<le> length (inorder r) + 1"
      using IH order_trans by blast+
    then have "2 ^ Suc k \<le> length (inorder l) + 1 + (length (inorder r) + 1)" by simp
    then show ?thesis unfolding k by simp
  qed
qed simp

section \<open>Search order\<close>

text \<open>The contract of a comparator. \<open>before\<close> orders the data that can be in one tree, and \<open>probe q\<close>
  says that \<open>q\<close> is something one may search for: what compares to one side of a datum compares to
  that side of every datum further on.\<close>

locale avl_order =
  fixes cmp :: "'a \<Rightarrow> 'a \<Rightarrow> int"
    and before :: "'a \<Rightarrow> 'a \<Rightarrow> bool"
    and probe :: "'a \<Rightarrow> bool"
  assumes before_trans: "before x y \<Longrightarrow> before y z \<Longrightarrow> before x z"
    and before_cmp: "before x y \<Longrightarrow> cmp x y > 0 \<and> cmp y x < 0"
    and probe_left: "probe q \<Longrightarrow> before x y \<Longrightarrow> cmp x q \<le> 0 \<Longrightarrow> cmp y q < 0"
    and probe_right: "probe q \<Longrightarrow> before x y \<Longrightarrow> cmp y q \<ge> 0 \<Longrightarrow> cmp x q > 0"
begin

definition ordered :: "'a avl_node \<Rightarrow> bool" where
  "ordered t \<longleftrightarrow> sorted_wrt before (inorder t)"

definition fits :: "'a avl_node \<Rightarrow> 'a \<Rightarrow> bool" where
  "fits t d \<longleftrightarrow> (\<forall>x \<in> set (inorder t). before x d \<or> before d x)"

lemma before_irrefl: "\<not> before x x"
  using before_cmp by fastforce

lemma ordered_Node:
  "ordered (Node x b l r) \<longleftrightarrow> ordered l \<and> ordered r \<and>
    (\<forall>y \<in> set (inorder l). before y x) \<and> (\<forall>y \<in> set (inorder r). before x y)"
  using before_trans by (auto simp: ordered_def sorted_wrt_append)

text \<open>Inserting a datum that is before or after every other one never fails, keeps the tree balanced
  and ordered, and adds exactly that datum.\<close>

lemma insert_intern_ok:
  assumes "t \<noteq> Null" "balanced t" "ordered t" "fits t d"
  shows "\<exists>t' bal. avl_insert_intern cmp t d = Inr (t', bal) \<and> grown t (t', bal) \<and> ordered t' \<and>
    set (inorder t') = insert d (set (inorder t)) \<and> length (inorder t') = Suc (length (inorder t))"
  using assms
proof (induction t)
  case (Node x b l r)
  have new: "grown Null (avl_newnode d, 1)" "ordered (avl_newnode d)" "inorder (avl_newnode d) = [d]"
    by (simp_all add: grown_def avl_newnode_def ordered_def)
  have o: "ordered l" "ordered r" "\<forall>y \<in> set (inorder l). before y x" "\<forall>y \<in> set (inorder r). before x y"
    using Node.prems(3) by (simp_all add: ordered_Node)
  have f: "fits l d" "fits r d" "before x d \<or> before d x" using Node.prems(4) by (auto simp: fits_def)
  from f(3) show ?case
  proof
    assume xd: "before d x"
    then have c: "cmp x d < 0" using before_cmp by simp
    obtain l' bal where l': "(if l = Null then Inr (avl_newnode d, 1) else avl_insert_intern cmp l d) = Inr (l', bal)"
      "grown l (l', bal)" "ordered l'" "set (inorder l') = insert d (set (inorder l))"
      "length (inorder l') = Suc (length (inorder l))"
      using new Node.IH(1) Node.prems(2) o(1) f(1) by (cases "l = Null") (auto simp: avl_newnode_def)
    obtain t' bal' where t': "avl_rebalance bal (Node x (b - bal) l' r) = Inr (t', bal')"
      "grown (Node x b l r) (t', bal')" "inorder t' = inorder l' @ x # inorder r"
      using rebalance_left [OF Node.prems(2) l'(2)] by blast
    have "ordered t'"
      using l'(3,4) o xd before_trans by (simp add: ordered_def t'(3) sorted_wrt_append) blast
    then show ?thesis using c l' t' by auto
  next
    assume xd: "before x d"
    then have c: "cmp x d > 0" using before_cmp by simp
    obtain r' bal where r': "(if r = Null then Inr (avl_newnode d, 1) else avl_insert_intern cmp r d) = Inr (r', bal)"
      "grown r (r', bal)" "ordered r'" "set (inorder r') = insert d (set (inorder r))"
      "length (inorder r') = Suc (length (inorder r))"
      using new Node.IH(2) Node.prems(2) o(2) f(2) by (cases "r = Null") (auto simp: avl_newnode_def)
    obtain t' bal' where t': "avl_rebalance bal (Node x (b + bal) l r') = Inr (t', bal')"
      "grown (Node x b l r) (t', bal')" "inorder t' = inorder l @ x # inorder r'"
      using rebalance_right [OF Node.prems(2) r'(2)] by blast
    have "ordered t'"
      using r'(3,4) o xd before_trans by (simp add: ordered_def t'(3) sorted_wrt_append) blast
    then show ?thesis using c r' t' by auto
  qed
qed simp

definition tree_ok :: "'a avl_tree_t \<Rightarrow> bool" where
  "tree_ok tree \<longleftrightarrow> balanced (avl_root tree) \<and> ordered (avl_root tree) \<and>
     avl_entries tree = length (inorder (avl_root tree))"

definition elems :: "'a avl_tree_t \<Rightarrow> 'a set" where
  "elems tree = set (inorder (avl_root tree))"

lemma create_ok: "tree_ok avl_create" "elems avl_create = {}"
  by (simp_all add: tree_ok_def elems_def avl_create_def ordered_def)

lemma insert_ok:
  assumes "tree_ok tree" "fits (avl_root tree) d"
  obtains tree' where "avl_insert cmp tree d = Inr tree'" "tree_ok tree'" "elems tree' = insert d (elems tree)"
proof (cases "avl_root tree = Null")
  case True
  then show thesis
    using assms(1) by (intro that [of "tree\<lparr>avl_root := avl_newnode d, avl_entries := avl_entries tree + 1\<rparr>"])
      (simp_all add: avl_insert_def avl_newnode_def tree_ok_def elems_def ordered_def)
next
  case False
  have inv: "balanced (avl_root tree)" "ordered (avl_root tree)" using assms(1) by (simp_all add: tree_ok_def)
  obtain t' bal where t': "avl_insert_intern cmp (avl_root tree) d = Inr (t', bal)" "grown (avl_root tree) (t', bal)"
    "ordered t'" "set (inorder t') = insert d (set (inorder (avl_root tree)))"
    "length (inorder t') = Suc (length (inorder (avl_root tree)))"
    using insert_intern_ok [OF False inv assms(2)] by blast
  then show thesis
    using False assms(1) by (intro that [of "tree\<lparr>avl_root := t', avl_entries := avl_entries tree + 1\<rparr>"])
      (simp_all add: avl_insert_def tree_ok_def elems_def grown_def)
qed

text \<open>A search finds a datum that matches the probe exactly when there is one, and there is at most
  one.\<close>

lemma find_node_iff:
  assumes "ordered t" "probe q"
  shows "avl_find_node cmp t q = Some x \<longleftrightarrow> x \<in> set (inorder t) \<and> cmp x q = 0"
  using assms(1)
proof (induction t)
  case (Node y b l r)
  have o: "ordered l" "ordered r" "\<forall>z \<in> set (inorder l). before z y" "\<forall>z \<in> set (inorder r). before y z"
    using Node.prems by (simp_all add: ordered_Node)
  have L: "cmp z q > 0" if "z \<in> set (inorder l)" "cmp y q \<ge> 0" for z
    using probe_right [OF assms(2)] o(3) that by blast
  have R: "cmp z q < 0" if "z \<in> set (inorder r)" "cmp y q \<le> 0" for z
    using probe_left [OF assms(2)] o(4) that by blast
  show ?case
  proof (cases "cmp y q" "0::int" rule: linorder_cases)
    case less
    then show ?thesis using Node.IH(1) [OF o(1)] R by fastforce
  next
    case equal
    then show ?thesis using L R by fastforce
  next
    case greater
    then show ?thesis using Node.IH(2) [OF o(2)] L by fastforce
  qed
qed simp

lemma find_iff:
  "tree_ok tree \<Longrightarrow> probe q \<Longrightarrow> avl_find cmp tree q = Some x \<longleftrightarrow> x \<in> elems tree \<and> cmp x q = 0"
  by (simp add: tree_ok_def avl_find_def elems_def find_node_iff)

end

end
