(* ===== verification/MethodTree.thy ===== *)
theory MethodTree
  imports Avl
begin

text \<open>
  The tree of machine code ranges (\<^verbatim>\<open>src/src/vm/jit/methodtree.cpp\<close>), by which a program counter is
  mapped to the method it is in. Addresses are the \<open>long\<close> values the comparator compares. The ranges
  of different methods do not overlap; the probe of a lookup is the one-address range of the
  program counter.
\<close>

section \<open>Operations\<close>

record methodtree_element_t =
  startpc :: int
  endpc :: int

definition methodtree_comparator :: "methodtree_element_t \<Rightarrow> methodtree_element_t \<Rightarrow> int" where
  "methodtree_comparator mte mtepc =
     (if startpc mte \<le> startpc mtepc \<and> startpc mtepc \<le> endpc mte \<and>
         startpc mte \<le> endpc mtepc \<and> endpc mtepc \<le> endpc mte then 0
      else if startpc mtepc < startpc mte then -1
      else 1)"

definition methodtree_insert ::
  "methodtree_element_t avl_tree_t \<Rightarrow> int \<Rightarrow> int \<Rightarrow> methodtree_element_t avl_tree_t result" where
  "methodtree_insert tree start stop =
     avl_insert methodtree_comparator tree \<lparr> startpc = start, endpc = stop \<rparr>"

text \<open>\<open>asm_vm_call_method\<close> and its end label are the first range.\<close>

definition methodtree_init :: "int \<Rightarrow> int \<Rightarrow> methodtree_element_t avl_tree_t result" where
  "methodtree_init asm_start asm_end = methodtree_insert avl_create asm_start asm_end"

definition methodtree_find_nocheck :: "methodtree_element_t avl_tree_t \<Rightarrow> int \<Rightarrow> int option" where
  "methodtree_find_nocheck tree pc =
     (case avl_find methodtree_comparator tree \<lparr> startpc = pc, endpc = pc \<rparr> of
        None \<Rightarrow> None | Some mte \<Rightarrow> Some (startpc mte))"

text \<open>A failed lookup dumps a stack trace and aborts; \<open>failing\<close> is the static flag that stops a
  failure inside the stack trace from recursing.\<close>

definition methodtree_find :: "bool \<Rightarrow> methodtree_element_t avl_tree_t \<Rightarrow> int \<Rightarrow> int result" where
  "methodtree_find failing tree pc =
     (case methodtree_find_nocheck tree pc of
        None \<Rightarrow> Inl (Vm_abort (if failing then ''Exiting without stacktrace...'' else ''Exiting...''))
      | Some pv \<Rightarrow> Inr pv)"

fun methodtree_insert_all ::
  "(int \<times> int) list \<Rightarrow> methodtree_element_t avl_tree_t \<Rightarrow> methodtree_element_t avl_tree_t result" where
  "methodtree_insert_all [] tree = Inr tree"
| "methodtree_insert_all ((a, b) # rs) tree = rbind (methodtree_insert tree a b) (methodtree_insert_all rs)"

section \<open>The order of disjoint ranges\<close>

definition mt_before :: "methodtree_element_t \<Rightarrow> methodtree_element_t \<Rightarrow> bool" where
  "mt_before x y \<longleftrightarrow> startpc x \<le> endpc x \<and> startpc y \<le> endpc y \<and> endpc x < startpc y"

definition mt_probe :: "methodtree_element_t \<Rightarrow> bool" where
  "mt_probe q \<longleftrightarrow> startpc q = endpc q"

interpretation mt: avl_order methodtree_comparator mt_before mt_probe
  by unfold_locales (auto simp: mt_before_def mt_probe_def methodtree_comparator_def split: if_splits)

lemma comparator_probe:
  "methodtree_comparator x \<lparr> startpc = pc, endpc = pc \<rparr> = 0 \<longleftrightarrow> startpc x \<le> pc \<and> pc \<le> endpc x"
  by (auto simp: methodtree_comparator_def)

fun disjoint_ranges :: "(int \<times> int) list \<Rightarrow> bool" where
  "disjoint_ranges [] \<longleftrightarrow> True"
| "disjoint_ranges ((a, b) # rs) \<longleftrightarrow> a \<le> b \<and> list_all (\<lambda>(c, d). b < c \<or> d < a) rs \<and> disjoint_ranges rs"

lemma disjoint_ranges_valid: "disjoint_ranges rs \<Longrightarrow> (a, b) \<in> set rs \<Longrightarrow> a \<le> b"
  by (induction rs rule: disjoint_ranges.induct) auto

lemma insert_all_ok:
  assumes "mt.tree_ok tree" "disjoint_ranges rs" "\<forall>x \<in> mt.elems tree. startpc x \<le> endpc x"
    "\<forall>x \<in> mt.elems tree. \<forall>(a, b) \<in> set rs. endpc x < a \<or> b < startpc x"
  shows "\<exists>tree'. methodtree_insert_all rs tree = Inr tree' \<and> mt.tree_ok tree' \<and>
    mt.elems tree' = mt.elems tree \<union> (\<lambda>(a, b). \<lparr> startpc = a, endpc = b \<rparr>) ` set rs"
  using assms
proof (induction rs arbitrary: tree)
  case (Cons r rs)
  obtain a b where r: "r = (a, b)" by (cases r)
  let ?d = "\<lparr> startpc = a, endpc = b \<rparr>"
  have ab: "a \<le> b" using Cons.prems(2) by (simp add: r)
  have "mt.fits (avl_root tree) ?d"
    using Cons.prems(3,4) ab by (auto simp: mt.fits_def mt.elems_def r mt_before_def)
  then obtain t1 where t1: "avl_insert methodtree_comparator tree ?d = Inr t1" "mt.tree_ok t1"
    "mt.elems t1 = insert ?d (mt.elems tree)"
    using mt.insert_ok [OF Cons.prems(1)] by blast
  have "\<exists>tree'. methodtree_insert_all rs t1 = Inr tree' \<and> mt.tree_ok tree' \<and>
      mt.elems tree' = mt.elems t1 \<union> (\<lambda>(a, b). \<lparr> startpc = a, endpc = b \<rparr>) ` set rs"
  proof (rule Cons.IH [OF t1(2)])
    show "disjoint_ranges rs" using Cons.prems(2) by (simp add: r)
    show "\<forall>x \<in> mt.elems t1. startpc x \<le> endpc x" using Cons.prems(3) ab by (simp add: t1(3))
    show "\<forall>x \<in> mt.elems t1. \<forall>(a, b) \<in> set rs. endpc x < a \<or> b < startpc x"
      using Cons.prems(2,4) by (fastforce simp: t1(3) r list_all_iff)
  qed
  then show ?case using t1 by (auto simp: r methodtree_insert_def)
qed simp

lemma insert_all_runs: "disjoint_ranges rs \<Longrightarrow> \<exists>tree. methodtree_insert_all rs avl_create = Inr tree"
  using insert_all_ok [OF mt.create_ok(1), of rs] mt.create_ok(2) by auto

section \<open>Properties\<close>

text \<open>\<^bold>\<open>C14.\<close> Whatever the order in which non-overlapping code ranges are registered, every insertion
  succeeds, and afterwards a lookup of any program counter returns the start of the range it lies in,
  and nothing when it lies in none.\<close>

theorem methodtree_find_correct:
  assumes "disjoint_ranges rs"
  shows "\<exists>tree. methodtree_insert_all rs avl_create = Inr tree \<and>
    (\<forall>pc pv. methodtree_find_nocheck tree pc = Some pv \<longleftrightarrow> (\<exists>b. (pv, b) \<in> set rs \<and> pv \<le> pc \<and> pc \<le> b))"
proof -
  obtain tree where t: "methodtree_insert_all rs avl_create = Inr tree" "mt.tree_ok tree"
    "mt.elems tree = (\<lambda>(a, b). \<lparr> startpc = a, endpc = b \<rparr>) ` set rs"
    using insert_all_ok [OF mt.create_ok(1) assms] mt.create_ok(2) by auto
  have "methodtree_find_nocheck tree pc = Some pv \<longleftrightarrow> (\<exists>b. (pv, b) \<in> set rs \<and> pv \<le> pc \<and> pc \<le> b)" for pc pv
  proof -
    have "avl_find methodtree_comparator tree \<lparr> startpc = pc, endpc = pc \<rparr> = Some x \<longleftrightarrow>
        x \<in> mt.elems tree \<and> startpc x \<le> pc \<and> pc \<le> endpc x" for x
      using mt.find_iff [OF t(2), of "\<lparr> startpc = pc, endpc = pc \<rparr>" x] by (simp add: mt_probe_def comparator_probe)
    moreover have "methodtree_find_nocheck tree pc = Some pv \<longleftrightarrow>
        (\<exists>x. avl_find methodtree_comparator tree \<lparr> startpc = pc, endpc = pc \<rparr> = Some x \<and> startpc x = pv)"
      by (auto simp: methodtree_find_nocheck_def split: option.splits)
    ultimately have "methodtree_find_nocheck tree pc = Some pv \<longleftrightarrow>
        (\<exists>x \<in> mt.elems tree. startpc x = pv \<and> startpc x \<le> pc \<and> pc \<le> endpc x)"
      by blast
    also have "\<dots> \<longleftrightarrow> (\<exists>p \<in> set rs. fst p = pv \<and> fst p \<le> pc \<and> pc \<le> snd p)"
      by (simp add: t(3) case_prod_beta)
    finally show ?thesis by force
  qed
  then show ?thesis using t(1) by blast
qed

theorem methodtree_find_correct_witness:
  "\<exists>tree. methodtree_insert_all [(100, 199), (0, 49), (50, 99)] avl_create = Inr tree \<and>
     methodtree_find_nocheck tree 60 = Some 50"
proof -
  have "disjoint_ranges [(100, 199), (0, 49), (50, 99)]" by simp
  from methodtree_find_correct [OF this] obtain tree where
    "methodtree_insert_all [(100, 199), (0, 49), (50, 99)] avl_create = Inr tree"
    "\<forall>pc pv. methodtree_find_nocheck tree pc = Some pv \<longleftrightarrow>
      (\<exists>b. (pv, b) \<in> set [(100, 199), (0, 49), (50, 99)] \<and> pv \<le> pc \<and> pc \<le> b)" by blast
  moreover from this(2) have "methodtree_find_nocheck tree 60 = Some 50" by auto
  ultimately show ?thesis by blast
qed

text \<open>\<^bold>\<open>C15.\<close> The tree stays balanced: after registering \<open>n\<close> non-overlapping ranges the balance fields are
  the true height differences, all within one, the entry counter is \<open>n\<close>, and a lookup visits at most
  about twice the logarithm of \<open>n\<close> nodes.\<close>

theorem methodtree_balanced:
  assumes "disjoint_ranges rs" "methodtree_insert_all rs avl_create = Inr tree"
  shows "balanced (avl_root tree) \<and> avl_entries tree = length (inorder (avl_root tree)) \<and>
    2 ^ (height (avl_root tree) div 2) \<le> avl_entries tree + 1"
proof -
  have "mt.tree_ok tree" using insert_all_ok [OF mt.create_ok(1) assms(1)] mt.create_ok(2) assms(2) by auto
  then show ?thesis using balanced_size [of "avl_root tree"] by (simp add: mt.tree_ok_def)
qed

theorem methodtree_balanced_witness:
  "\<exists>tree. methodtree_insert_all [(1, 1), (2, 2), (3, 3)] avl_create = Inr tree \<and> balanced (avl_root tree)"
proof -
  have d: "disjoint_ranges [(1, 1), (2, 2), (3, 3)]" by simp
  obtain tree where "methodtree_insert_all [(1, 1), (2, 2), (3, 3)] avl_create = Inr tree"
    using insert_all_runs [OF d] by blast
  then show ?thesis using methodtree_balanced [OF d] by blast
qed

text \<open>A range inside one that is registered is led to it by every other node.\<close>

lemma insert_inside:
  assumes "mt.ordered t" "x \<in> set (inorder t)" "startpc x \<le> startpc d" "startpc d \<le> endpc d" "endpc d \<le> endpc x"
  shows "avl_insert_intern methodtree_comparator t d = Inl (Vm_abort ''avl_insert_intern: node already in the tree'')"
  using assms(1,2)
proof (induction t)
  case (Node y b l r)
  have o: "mt.ordered l" "mt.ordered r" "\<forall>z \<in> set (inorder l). mt_before z y" "\<forall>z \<in> set (inorder r). mt_before y z"
    using Node.prems(1) by (simp_all add: mt.ordered_Node)
  from Node.prems(2) consider "x = y" | "x \<in> set (inorder l)" | "x \<in> set (inorder r)" by auto
  then show ?case
  proof cases
    case 1
    then have "methodtree_comparator y d = 0" using assms(3-5) by (simp add: methodtree_comparator_def)
    then show ?thesis by simp
  next
    case 2
    then have "methodtree_comparator y d < 0" using o(3) assms(3-5) by (auto simp: mt_before_def methodtree_comparator_def)
    then show ?thesis using Node.IH(1) [OF o(1) 2] 2 by (auto simp: Let_def)
  next
    case 3
    then have "methodtree_comparator y d > 0" using o(4) assms(3-5) by (auto simp: mt_before_def methodtree_comparator_def)
    then show ?thesis using Node.IH(2) [OF o(2) 3] 3 by (auto simp: Let_def)
  qed
qed simp

text \<open>\<^bold>\<open>C16.\<close> Registering a range that lies inside one that is already there aborts the VM.\<close>

theorem methodtree_duplicate_aborts:
  assumes "disjoint_ranges rs" "methodtree_insert_all rs avl_create = Inr tree"
    "(a, b) \<in> set rs" "a \<le> c" "c \<le> d" "d \<le> b"
  shows "methodtree_insert tree c d = Inl (Vm_abort ''avl_insert_intern: node already in the tree'')"
proof -
  have t: "mt.tree_ok tree" "\<lparr> startpc = a, endpc = b \<rparr> \<in> mt.elems tree"
    using insert_all_ok [OF mt.create_ok(1) assms(1)] mt.create_ok(2) assms(2,3) by auto
  then have "avl_root tree \<noteq> Null" by (auto simp: mt.elems_def)
  moreover have "avl_insert_intern methodtree_comparator (avl_root tree) \<lparr> startpc = c, endpc = d \<rparr> =
      Inl (Vm_abort ''avl_insert_intern: node already in the tree'')"
    using t assms(4-6) by (intro insert_inside [of _ "\<lparr> startpc = a, endpc = b \<rparr>"]) (simp_all add: mt.tree_ok_def mt.elems_def)
  ultimately show ?thesis by (simp add: methodtree_insert_def avl_insert_def)
qed

theorem methodtree_duplicate_aborts_witness:
  "\<exists>tree. methodtree_insert_all [(100, 199), (0, 49)] avl_create = Inr tree \<and>
     methodtree_insert tree 10 20 = Inl (Vm_abort ''avl_insert_intern: node already in the tree'')"
proof -
  have d: "disjoint_ranges [(100, 199), (0, 49)]" by simp
  obtain tree where t: "methodtree_insert_all [(100, 199), (0, 49)] avl_create = Inr tree"
    using insert_all_runs [OF d] by blast
  have "methodtree_insert tree 10 20 = Inl (Vm_abort ''avl_insert_intern: node already in the tree'')"
    by (rule methodtree_duplicate_aborts [OF d t, of 0 49]) simp_all
  with t show ?thesis by blast
qed

end
