(* ===== verification/Probing.thy ===== *)
theory Probing
  imports Prelude
begin

unbundle bit_operations_syntax

text \<open>
  The arithmetic of the open-addressing tables: the helpers of \<^verbatim>\<open>src/src/toolbox/util.hpp\<close> and the
  probe sequence of \<^verbatim>\<open>src/src/toolbox/hashtable.hpp\<close>. A probe starts at the hash and continues with
  \<open>index = 5 * index + 1 + perturb\<close>, the perturbation losing five bits per step. Once the
  perturbation is spent the sequence is a linear congruential generator; \<open>probe_covers\<close> shows that it
  then visits every slot of a table whose size is a power of two, which is what makes the search
  loops end.
\<close>

section \<open>Helpers on sizes\<close>

definition next_power_of_two :: "size_t \<Rightarrow> size_t" where
  "next_power_of_two n =
     (let n = n - 1;
          n = drop_bit 1 n OR n;
          n = drop_bit 2 n OR n;
          n = drop_bit 4 n OR n;
          n = drop_bit 8 n OR n;
          n = drop_bit 16 n OR n;
          n = drop_bit 32 n OR n
      in n + 1)"

definition is_power_of_two :: "size_t \<Rightarrow> bool" where
  "is_power_of_two n \<longleftrightarrow> n AND (n - 1) = 0"

definition fast_modulo :: "size_t \<Rightarrow> size_t \<Rightarrow> size_t" where
  "fast_modulo n modul = n AND (modul - 1)"

definition divide_rounding_up :: "size_t \<Rightarrow> size_t \<Rightarrow> size_t" where
  "divide_rounding_up a b = (a + b - 1) div b"

section \<open>The probe sequence\<close>

definition probe_step :: "size_t \<times> size_t \<Rightarrow> size_t \<times> size_t" where
  "probe_step = (\<lambda>(index, perturb). (5 * index + 1 + perturb, drop_bit 5 perturb))"

text \<open>The slot looked at in step \<open>n\<close> of a probe for \<open>hash\<close>.\<close>

definition probe_slot :: "size_t \<Rightarrow> size_t \<Rightarrow> nat \<Rightarrow> nat" where
  "probe_slot capacity hash n = unat (fast_modulo (fst ((probe_step ^^ n) (hash, hash))) capacity)"

section \<open>The generator has full period\<close>

definition lcg :: "nat \<Rightarrow> nat" where
  "lcg x = 5 * x + 1"

lemma lcg_block: "\<exists>u v. \<forall>x. (lcg ^^ 2 ^ k) x = (1 + 2 ^ (k + 2) * u) * x + 2 ^ k * (1 + 2 * v)"
proof (induction k)
  case 0
  have "\<forall>x. (lcg ^^ 2 ^ 0) x = (1 + 2 ^ (0 + 2) * 1) * x + 2 ^ 0 * (1 + 2 * 0)" by (simp add: lcg_def)
  then show ?case by blast
next
  case (Suc k)
  then obtain u v where f: "\<And>x. (lcg ^^ 2 ^ k) x = (1 + 2 ^ (k + 2) * u) * x + 2 ^ k * (1 + 2 * v)"
    by blast
  let ?u = "u + 2 ^ (k + 1) * u * u" and ?v = "v + 2 ^ k * u * (1 + 2 * v)"
  have "(lcg ^^ 2 ^ Suc k) x = (1 + 2 ^ (Suc k + 2) * ?u) * x + 2 ^ Suc k * (1 + 2 * ?v)" for x
  proof -
    have "(lcg ^^ 2 ^ Suc k) x = (lcg ^^ 2 ^ k) ((lcg ^^ 2 ^ k) x)"
      by (simp add: mult_2 funpow_add)
    also have "\<dots> = (1 + 2 ^ (Suc k + 2) * ?u) * x + 2 ^ Suc k * (1 + 2 * ?v)"
      by (simp add: f algebra_simps power_add)
    finally show ?thesis .
  qed
  then show ?case by blast
qed

lemma lcg_jump: "(lcg ^^ 2 ^ k) x mod 2 ^ Suc k = (x + 2 ^ k) mod 2 ^ Suc k"
proof -
  obtain u v where "\<forall>x. (lcg ^^ 2 ^ k) x = (1 + 2 ^ (k + 2) * u) * x + 2 ^ k * (1 + 2 * v)"
    using lcg_block by blast
  then have "(lcg ^^ 2 ^ k) x = x + 2 ^ k + 2 ^ Suc k * (2 * u * x + v)"
    by (simp add: algebra_simps power_add)
  then show ?thesis by simp
qed

lemma mod_below_double: "x < 2 * m \<Longrightarrow> x mod m = (if x < m then x else x - m)" for x :: nat
  by (cases "x < m") (simp_all add: le_mod_geq)

lemma mod_halves:
  fixes z :: nat
  assumes "z mod m = y mod m" and "y < 2 * m"
  shows "z mod (2 * m) = y \<or> (z + m) mod (2 * m) = y"
proof -
  define r where "r = z mod (2 * m)"
  have m: "0 < m" using assms(2) by (cases m) auto
  have r: "r < 2 * m" "r mod m = y mod m"
    using m assms(1) by (auto simp: r_def mod_mod_cancel)
  have "(z + m) mod (2 * m) = (r + m) mod (2 * m)" by (simp add: r_def mod_add_left_eq)
  moreover have "r = y \<or> r = y + m \<or> y = r + m"
    using r assms(2) m by (simp add: mod_below_double split: if_splits)
  moreover have "(y + m + m) mod (2 * m) = y" if "y < 2 * m"
    using that mod_add_self2 [of y "2 * m"] by (simp add: mult_2 add.assoc)
  ultimately show ?thesis using assms(2) r by (auto simp flip: r_def)
qed

lemma lcg_full_period: "y < 2 ^ k \<Longrightarrow> \<exists>n < 2 ^ k. (lcg ^^ n) x mod 2 ^ k = y"
proof (induction k arbitrary: y)
  case 0
  then show ?case by auto
next
  case (Suc k)
  obtain n where n: "n < 2 ^ k" "(lcg ^^ n) x mod 2 ^ k = y mod 2 ^ k"
    using Suc.IH [of "y mod 2 ^ k"] by auto
  let ?z = "(lcg ^^ n) x"
  have "y < 2 * 2 ^ k" using Suc.prems by simp
  from mod_halves [OF n(2) this]
  consider "?z mod 2 ^ Suc k = y" | "(?z + 2 ^ k) mod 2 ^ Suc k = y" by auto
  then show ?case
  proof cases
    case 1
    then show ?thesis using n(1) by (intro exI [of _ n]) simp
  next
    case 2
    have "(lcg ^^ (2 ^ k + n)) x = (lcg ^^ 2 ^ k) ?z" by (simp only: funpow_add o_apply)
    then have "(lcg ^^ (2 ^ k + n)) x mod 2 ^ Suc k = y" using 2 lcg_jump by simp
    then show ?thesis using n(1) by (intro exI [of _ "2 ^ k + n"]) simp
  qed
qed

section \<open>The probe reaches every slot\<close>

lemma fast_modulo_power: "k < 64 \<Longrightarrow> unat (fast_modulo n (2 ^ k)) = unat n mod 2 ^ k"
proof -
  assume k: "k < 64"
  have "fast_modulo n (2 ^ k) = take_bit k n"
    by (simp add: fast_modulo_def take_bit_eq_mask mask_eq_exp_minus_1)
  then show ?thesis by (simp only: unsigned_take_bit_eq) (simp add: take_bit_eq_mod)
qed

lemma perturb_spent: "snd ((probe_step ^^ n) (i, p)) = drop_bit (5 * n) p"
  by (induction n) (simp_all add: probe_step_def case_prod_beta add.commute)

lemma perturb_gone: "13 \<le> n \<Longrightarrow> snd ((probe_step ^^ n) (i, p)) = 0"
proof -
  assume "13 \<le> n"
  then have "LENGTH(64) \<le> 5 * n" by simp
  then show ?thesis unfolding perturb_spent by (intro bit_word_eqI) (auto simp: bit_simps dest: bit_imp_le_length)
qed

lemma probe_lcg:
  assumes "k < 64"
  shows "unat (fst ((probe_step ^^ (13 + n)) (h, h))) mod 2 ^ k =
    (lcg ^^ n) (unat (fst ((probe_step ^^ 13) (h, h)))) mod 2 ^ k"
proof (induction n)
  case 0
  then show ?case by simp
next
  case (Suc n)
  let ?s = "(probe_step ^^ (13 + n)) (h, h)"
  have "snd ?s = 0" by (rule perturb_gone) simp
  then have "fst (probe_step ?s) = 5 * fst ?s + 1" by (simp add: probe_step_def case_prod_beta)
  then have "unat (fst (probe_step ?s)) = (5 * unat (fst ?s) + 1) mod 2 ^ 64"
    by (simp add: unat_word_ariths mod_simps)
  moreover have "(2::nat) ^ k dvd 2 ^ 64" using assms by (intro le_imp_power_dvd) simp
  ultimately have "unat (fst (probe_step ?s)) mod 2 ^ k = (5 * unat (fst ?s) + 1) mod 2 ^ k"
    by (simp add: mod_mod_cancel)
  also have "\<dots> = (5 * (unat (fst ?s) mod 2 ^ k) + 1) mod 2 ^ k"
    by (intro mod_add_cong mod_mult_cong) simp_all
  also have "\<dots> = lcg ((lcg ^^ n) (unat (fst ((probe_step ^^ 13) (h, h))))) mod 2 ^ k"
    unfolding Suc.IH lcg_def [of "(lcg ^^ n) _"] by (intro mod_add_cong mod_mult_cong) simp_all
  finally show ?case unfolding add_Suc_right funpow.simps o_apply .
qed

text \<open>Every slot of a table of \<open>2 ^ k\<close> slots is looked at within \<open>13 + 2 ^ k\<close> steps.\<close>

lemma probe_covers:
  assumes "k < 64" and "i < 2 ^ k"
  shows "\<exists>n < 13 + 2 ^ k. probe_slot (2 ^ k) h n = i"
proof -
  obtain n where "n < 2 ^ k" "(lcg ^^ n) (unat (fst ((probe_step ^^ 13) (h, h)))) mod 2 ^ k = i"
    using lcg_full_period [OF assms(2)] by blast
  then show ?thesis
    using probe_lcg [OF assms(1)]
    by (intro exI [of _ "13 + n"]) (simp add: probe_slot_def fast_modulo_power assms(1))
qed

lemma probe_slot_less: "k < 64 \<Longrightarrow> probe_slot (2 ^ k) h n < 2 ^ k"
  by (simp add: probe_slot_def fast_modulo_power)

section \<open>The next power of two\<close>

text \<open>Doubling the shift doubles the range of bits each position has gathered.\<close>

lemma smear_step:
  assumes "\<And>i. bit w i \<longleftrightarrow> (\<exists>d < s. bit (m :: size_t) (i + d))"
  shows "bit (drop_bit s w OR w) i \<longleftrightarrow> (\<exists>d < 2 * s. bit m (i + d))"
proof -
  have "(\<exists>d < s. bit m (s + i + d)) \<or> (\<exists>d < s. bit m (i + d)) \<longleftrightarrow> (\<exists>d < 2 * s. bit m (i + d))"
    (is "?l \<longleftrightarrow> ?r")
  proof
    show "?l \<Longrightarrow> ?r" by (metis add.assoc add.commute add_less_mono1 mult_2 trans_less_add1 nat_add_left_cancel_less)
    assume ?r
    then obtain d where d: "d < 2 * s" "bit m (i + d)" by blast
    show ?l
    proof (cases "d < s")
      case False
      then have "bit m (s + i + (d - s))" "d - s < s" using d by (auto simp: ac_simps)
      then show ?thesis by blast
    qed (use d in blast)
  qed
  then show ?thesis by (simp add: bit_simps assms)
qed

lemma next_power_of_two_bits:
  "bit (next_power_of_two n - 1) i \<longleftrightarrow> (\<exists>j \<ge> i. bit (n - 1) j)"
proof -
  let ?m = "n - 1"
  have 0: "bit ?m i \<longleftrightarrow> (\<exists>d < 1. bit ?m (i + d))" for i by simp
  note 1 = smear_step [OF 0, simplified]
  note 2 = smear_step [OF 1, simplified]
  note 3 = smear_step [OF 2, simplified]
  note 4 = smear_step [OF 3, simplified]
  note 5 = smear_step [OF 4, simplified]
  note 6 = smear_step [OF 5, simplified]
  have "bit (next_power_of_two n - 1) i \<longleftrightarrow> (\<exists>d < 64. bit ?m (i + d))"
    using 6 [of i] by (simp add: next_power_of_two_def Let_def)
  also have "\<dots> \<longleftrightarrow> (\<exists>j \<ge> i. bit ?m j)"
  proof
    assume "\<exists>j \<ge> i. bit ?m j"
    then obtain j where j: "i \<le> j" "bit ?m j" by blast
    then have "j < 64" using bit_imp_le_length [of ?m j] by simp
    then show "\<exists>d < 64. bit ?m (i + d)" using j by (intro exI [of _ "j - i"]) simp
  qed (metis le_add1)
  finally show ?thesis .
qed

lemma bit_nat_below: "x < 2 ^ k \<Longrightarrow> bit x j \<Longrightarrow> j < k" for x :: nat
proof (rule ccontr)
  assume x: "x < 2 ^ k" and b: "bit x j" and "\<not> j < k"
  then have "(2::nat) ^ k \<le> 2 ^ j" by simp
  with x have "x < 2 ^ j" by (rule less_le_trans)
  with b show False by (simp add: bit_iff_odd)
qed

lemma bit_nat_top: "x < 2 ^ Suc k \<Longrightarrow> 2 ^ k \<le> x \<Longrightarrow> bit x k" for x :: nat
proof -
  assume "x < 2 ^ Suc k" "2 ^ k \<le> x"
  then have "x div 2 ^ k = 1" by (simp add: div_nat_eqI)
  then show "bit x k" by (simp add: bit_iff_odd)
qed

text \<open>The result is the least power of two that is not below the argument.\<close>

lemma next_power_of_two_least:
  assumes "0 < n" and "unat n \<le> 2 ^ 63"
  shows "\<exists>k \<le> 63. next_power_of_two n = 2 ^ k \<and> unat n \<le> 2 ^ k \<and> (\<forall>j. unat n \<le> 2 ^ j \<longrightarrow> k \<le> j)"
proof -
  define k where "k = (LEAST k. unat n \<le> 2 ^ k)"
  have le: "unat n \<le> 2 ^ k" unfolding k_def using assms(2) by (rule LeastI)
  have least: "k \<le> j" if "unat n \<le> 2 ^ j" for j unfolding k_def using that by (rule Least_le)
  have k63: "k \<le> 63" using assms(2) by (rule least)
  have m: "unat (n - 1) = unat n - 1" "0 < unat n"
    using assms(1) by (simp_all add: unat_minus_one unat_gt_0)
  have "bit (next_power_of_two n - 1) i \<longleftrightarrow> i < k" for i
  proof
    assume "bit (next_power_of_two n - 1) i"
    then obtain j where "i \<le> j" "bit (unat (n - 1)) j"
      by (auto simp: next_power_of_two_bits bit_unsigned_iff dest: bit_imp_le_length)
    moreover have "unat (n - 1) < 2 ^ k" using le m by linarith
    ultimately show "i < k" using bit_nat_below by fastforce
  next
    assume i: "i < k"
    then obtain l where l: "k = Suc l" by (cases k) auto
    have "2 ^ l < unat n" using least [of l] l by (rule_tac ccontr) simp
    then have "bit (unat (n - 1)) l" using le l m by (intro bit_nat_top) auto
    then have "bit (n - 1) l" by (simp add: bit_unsigned_iff)
    then show "bit (next_power_of_two n - 1) i" using i l unfolding next_power_of_two_bits by (metis less_Suc_eq_le)
  qed
  then have "next_power_of_two n - 1 = mask k"
    using k63 by (intro bit_word_eqI) (simp add: bit_simps)
  then have "next_power_of_two n = 2 ^ k" by (simp add: mask_eq_exp_minus_1)
  then show ?thesis using le least k63 by blast
qed

end
