(* ===== verification/HashTable.thy ===== *)
theory HashTable
  imports Probing "HOL-Library.Multiset"
begin

text \<open>
  The open-addressing hash table of the toolbox (\<^verbatim>\<open>src/src/toolbox/hashtable.hpp\<close>, struct
  \<open>HashTable\<close>). A slot is empty, deleted or occupied by an entry; an entry carries its own key and
  hash. An operation gets the hash of its key, the comparison \<open>*e == t\<close> with an occupied entry and,
  where the table may grow, the hash of an entry. On a deleted slot the comparison is false, as it
  is for the entry types of the tree: their deleted mark is a key that no caller passes.

  Sizes are natural numbers; the two computations that can wrap keep their width
  (\<open>next_power_of_two\<close> and the product under the threshold). The search loops have fuel
  \<open>13 + capacity\<close>; \<open>find_loop_returns\<close> shows that this is enough whenever a slot is empty, and
  \<open>ht_find_ok\<close> that \<open>find\<close> always makes sure that one is.
\<close>

section \<open>The table\<close>

datatype 'e slot = Empty | Deleted | Occupied 'e

record 'e hash_table =
  ht_entries :: "'e slot list"
  ht_capacity :: nat
  ht_count :: nat
  ht_deleted :: nat
  ht_threshold :: nat
  ht_load_factor :: nat

definition DEFAULT_INITIAL_CAPACITY :: nat where "DEFAULT_INITIAL_CAPACITY = 256"

definition DEFAULT_LOAD_FACTOR :: nat where "DEFAULT_LOAD_FACTOR = 85"

definition update_threshold :: "'e hash_table \<Rightarrow> 'e hash_table" where
  "update_threshold t = t\<lparr> ht_threshold := (ht_capacity t * ht_load_factor t) mod 2 ^ 64 div 100 \<rparr>"

definition allocate_table :: "'e hash_table \<Rightarrow> 'e hash_table result" where
  "allocate_table t =
     (if \<not> is_power_of_two (of_nat (ht_capacity t)) then Inl Assertion_failed
      else Inr ((update_threshold (t\<lparr> ht_deleted := 0 \<rparr>))
             \<lparr> ht_entries := replicate (ht_capacity t) Empty \<rparr>))"

definition HashTable_default :: "'e hash_table" where
  "HashTable_default = \<lparr> ht_entries = [], ht_capacity = 0, ht_count = 0, ht_deleted = 0,
     ht_threshold = 0, ht_load_factor = DEFAULT_LOAD_FACTOR \<rparr>"

definition HashTable_new :: "nat \<Rightarrow> nat \<Rightarrow> 'e hash_table result" where
  "HashTable_new initial_capacity load_factor =
     (if initial_capacity = 0 then Inl Assertion_failed
      else allocate_table (HashTable_default
             \<lparr> ht_capacity := initial_capacity, ht_count := 0, ht_load_factor := load_factor \<rparr>))"

section \<open>Searching\<close>

text \<open>The loop of \<open>find\<close>; the result is the entry reference: the slot and whether it is
  occupied by the key.\<close>

fun find_loop :: "nat \<Rightarrow> 'e slot list \<Rightarrow> size_t \<Rightarrow> ('e \<Rightarrow> bool) \<Rightarrow> size_t \<times> size_t \<Rightarrow> nat option
    \<Rightarrow> (nat \<times> bool) option" where
  "find_loop 0 es cap eq ip insert_pos = None"
| "find_loop (Suc fuel) es cap eq ip insert_pos =
     (let e = unat (fast_modulo (fst ip) cap) in
      case es ! e of
        Empty \<Rightarrow> Some (case insert_pos of Some p \<Rightarrow> (p, False) | None \<Rightarrow> (e, False))
      | Deleted \<Rightarrow> find_loop fuel es cap eq (probe_step ip)
                    (case insert_pos of Some p \<Rightarrow> Some p | None \<Rightarrow> Some e)
      | Occupied x \<Rightarrow> if eq x then Some (e, True)
                     else find_loop fuel es cap eq (probe_step ip) insert_pos)"

text \<open>The inner loop of \<open>grow_table\<close>: the first empty slot of the new table.\<close>

fun empty_loop :: "nat \<Rightarrow> 'e slot list \<Rightarrow> size_t \<Rightarrow> size_t \<times> size_t \<Rightarrow> nat option" where
  "empty_loop 0 es cap ip = None"
| "empty_loop (Suc fuel) es cap ip =
     (let e = unat (fast_modulo (fst ip) cap) in
      case es ! e of Empty \<Rightarrow> Some e | _ \<Rightarrow> empty_loop fuel es cap (probe_step ip))"

definition endless_probe :: vm_error where
  "endless_probe = Vm_abort ''the probe loop does not end''"

fun reinsert :: "('e \<Rightarrow> size_t) \<Rightarrow> 'e slot list \<Rightarrow> 'e hash_table \<Rightarrow> 'e hash_table result" where
  "reinsert ehash [] t = Inr t"
| "reinsert ehash (Occupied x # old) t =
     (case empty_loop (13 + ht_capacity t) (ht_entries t) (of_nat (ht_capacity t)) (ehash x, ehash x) of
        None \<Rightarrow> Inl endless_probe
      | Some e \<Rightarrow> reinsert ehash old (t\<lparr> ht_entries := (ht_entries t)[e := Occupied x] \<rparr>))"
| "reinsert ehash (_ # old) t = reinsert ehash old t"

definition grow_table :: "('e \<Rightarrow> size_t) \<Rightarrow> nat \<Rightarrow> 'e hash_table \<Rightarrow> 'e hash_table result" where
  "grow_table ehash new_capacity t =
     (let cap = unat (next_power_of_two (of_nat new_capacity)) in
      if \<not> 0 < cap \<or> \<not> ht_capacity t < cap then Inl Assertion_failed
      else rbind (allocate_table (t\<lparr> ht_capacity := cap \<rparr>)) (reinsert ehash (ht_entries t)))"

definition ht_find :: "('e \<Rightarrow> size_t) \<Rightarrow> size_t \<Rightarrow> ('e \<Rightarrow> bool) \<Rightarrow> 'e hash_table
    \<Rightarrow> ('e hash_table \<times> nat \<times> bool) result" where
  "ht_find ehash hash eq t =
     rbind (if ht_threshold t \<le> ht_count t + ht_deleted t then grow_table ehash (ht_capacity t + 1) t
            else Inr t)
       (\<lambda>t. case find_loop (13 + ht_capacity t) (ht_entries t) (of_nat (ht_capacity t)) eq (hash, hash) None of
          None \<Rightarrow> Inl endless_probe
        | Some ref \<Rightarrow> Inr (t, ref))"

section \<open>Changing the table\<close>

definition update_ref :: "nat \<times> bool \<Rightarrow> 'e \<Rightarrow> 'e hash_table \<Rightarrow> 'e hash_table" where
  "update_ref ref x t =
     (let t = (case ht_entries t ! fst ref of
                 Empty \<Rightarrow> t\<lparr> ht_count := ht_count t + 1 \<rparr>
               | Deleted \<Rightarrow> t\<lparr> ht_count := ht_count t + 1, ht_deleted := ht_deleted t - 1 \<rparr>
               | Occupied _ \<Rightarrow> t)
      in t\<lparr> ht_entries := (ht_entries t)[fst ref := Occupied x] \<rparr>)"

definition insert_ref :: "nat \<times> bool \<Rightarrow> 'e \<Rightarrow> 'e hash_table \<Rightarrow> 'e hash_table" where
  "insert_ref ref x t = (if snd ref then t else update_ref ref x t)"

definition remove_ref :: "nat \<times> bool \<Rightarrow> 'e hash_table \<Rightarrow> 'e hash_table" where
  "remove_ref ref t =
     (if snd ref then t\<lparr> ht_entries := (ht_entries t)[fst ref := Deleted],
                         ht_count := ht_count t - 1, ht_deleted := ht_deleted t + 1 \<rparr>
      else t)"

text \<open>The operations return the table and the slot of the entry they refer to.\<close>

definition ht_insert :: "('e \<Rightarrow> size_t) \<Rightarrow> size_t \<Rightarrow> ('e \<Rightarrow> bool) \<Rightarrow> 'e \<Rightarrow> 'e hash_table
    \<Rightarrow> ('e hash_table \<times> nat) result" where
  "ht_insert ehash hash eq x t =
     rbind (ht_find ehash hash eq t) (\<lambda>(t, ref). Inr (insert_ref ref x t, fst ref))"

definition ht_update :: "('e \<Rightarrow> size_t) \<Rightarrow> size_t \<Rightarrow> ('e \<Rightarrow> bool) \<Rightarrow> 'e \<Rightarrow> 'e hash_table
    \<Rightarrow> ('e hash_table \<times> nat) result" where
  "ht_update ehash hash eq x t =
     rbind (ht_find ehash hash eq t) (\<lambda>(t, ref). Inr (update_ref ref x t, fst ref))"

definition ht_remove :: "('e \<Rightarrow> size_t) \<Rightarrow> size_t \<Rightarrow> ('e \<Rightarrow> bool) \<Rightarrow> 'e hash_table \<Rightarrow> 'e hash_table result" where
  "ht_remove ehash hash eq t = rbind (ht_find ehash hash eq t) (\<lambda>(t, ref). Inr (remove_ref ref t))"

definition ht_clear :: "'e hash_table \<Rightarrow> 'e hash_table" where
  "ht_clear t = t\<lparr> ht_count := 0, ht_deleted := 0, ht_entries := map (\<lambda>_. Empty) (ht_entries t) \<rparr>"

definition ht_reserve :: "('e \<Rightarrow> size_t) \<Rightarrow> nat \<Rightarrow> 'e hash_table \<Rightarrow> 'e hash_table result" where
  "ht_reserve ehash n t = (if n \<le> ht_capacity t then Inr t else grow_table ehash n t)"

definition set_load_factor :: "nat \<Rightarrow> 'e hash_table \<Rightarrow> 'e hash_table result" where
  "set_load_factor lf t =
     (if 0 < lf \<and> lf < 100 then Inr (update_threshold (t\<lparr> ht_load_factor := lf \<rparr>)) else Inl Assertion_failed)"

section \<open>Iterating\<close>

fun is_occupied :: "'e slot \<Rightarrow> bool" where
  "is_occupied (Occupied _) = True"
| "is_occupied _ = False"

text \<open>\<open>next_occupied\<close> advances at least once, then until an occupied entry or the end.\<close>

function skip_unoccupied :: "'e slot list \<Rightarrow> nat \<Rightarrow> nat" where
  "skip_unoccupied es current =
     (if current < length es \<and> \<not> is_occupied (es ! current) then skip_unoccupied es (current + 1)
      else current)"
  by auto
termination by (relation "measure (\<lambda>(es, c). length es - c)") auto

declare skip_unoccupied.simps [simp del]

definition next_occupied :: "'e slot list \<Rightarrow> nat \<Rightarrow> nat" where
  "next_occupied es current =
     (if current = length es then current else skip_unoccupied es (current + 1))"

definition ht_begin :: "'e hash_table \<Rightarrow> nat" where
  "ht_begin t = (if ht_entries t \<noteq> [] \<and> \<not> is_occupied (ht_entries t ! 0)
                 then next_occupied (ht_entries t) 0 else 0)"

lemma skip_ge: "c \<le> skip_unoccupied es c"
  by (induction es c rule: skip_unoccupied.induct) (subst skip_unoccupied.simps, auto)

text \<open>The slots seen by a loop from an iterator to \<open>end()\<close>.\<close>

function iterate_from :: "'e slot list \<Rightarrow> nat \<Rightarrow> 'e slot list" where
  "iterate_from es it = (if it < length es then es ! it # iterate_from es (next_occupied es it) else [])"
  by auto
termination
  by (relation "measure (\<lambda>(es, c). length es - c)")
    (auto simp: next_occupied_def intro!: diff_less_mono2 Suc_le_lessD [OF skip_ge [of "Suc _", simplified]])

declare iterate_from.simps [simp del]

definition ht_iterate :: "'e hash_table \<Rightarrow> 'e slot list" where
  "ht_iterate t = iterate_from (ht_entries t) (ht_begin t)"

section \<open>What a table holds\<close>

fun occs :: "'e slot list \<Rightarrow> 'e list" where
  "occs [] = []"
| "occs (Occupied x # es) = x # occs es"
| "occs (_ # es) = occs es"

abbreviation ht_elems :: "'e hash_table \<Rightarrow> 'e list" where
  "ht_elems t \<equiv> occs (ht_entries t)"

definition deleted_slots :: "'e slot list \<Rightarrow> nat" where
  "deleted_slots es = length (filter (\<lambda>s. s = Deleted) es)"

lemma occs_append [simp]: "occs (xs @ ys) = occs xs @ occs ys"
  by (induction xs rule: occs.induct) auto

lemma set_occs: "x \<in> set (occs es) \<longleftrightarrow> Occupied x \<in> set es"
  by (induction es rule: occs.induct) auto

lemma occs_le: "length (occs es) \<le> length es"
  by (induction es rule: occs.induct) auto

lemma occs_replicate [simp]: "occs (replicate n Empty) = []"
  by (induction n) auto

lemma occs_empty [simp]: "occs (map (\<lambda>_. Empty) es) = []"
  by (induction es) auto

lemma occs_split: "i < length es \<Longrightarrow> occs es = occs (take i es) @ occs [es ! i] @ occs (drop (Suc i) es)"
  using id_take_nth_drop [of i es] by (metis occs_append append_Cons append_Nil)

lemma occs_Cons: "occs (s # es) = occs [s] @ occs es"
  by (cases s) auto

lemma mset_occs_update:
  "i < length es \<Longrightarrow> mset (occs (es[i := s])) + mset (occs [es ! i]) = mset (occs es) + mset (occs [s])"
  by (simp add: upd_conv_take_nth_drop occs_Cons [of s "drop _ _"] occs_split [of i es])

lemma deleted_split:
  "i < length es \<Longrightarrow> deleted_slots (es[i := s]) + of_bool (es ! i = Deleted) = deleted_slots es + of_bool (s = Deleted)"
proof -
  assume i: "i < length es"
  have "deleted_slots es = deleted_slots (take i es @ es ! i # drop (Suc i) es)"
    using i by (simp flip: id_take_nth_drop)
  then show ?thesis using i by (simp add: upd_conv_take_nth_drop deleted_slots_def)
qed

lemma empty_exists:
  "length (occs es) + deleted_slots es < length es \<Longrightarrow> \<exists>i < length es. es ! i = Empty"
proof -
  assume "length (occs es) + deleted_slots es < length es"
  then have "Empty \<in> set es"
    by (induction es rule: occs.induct) (auto simp: deleted_slots_def split: if_splits)
  then show ?thesis by (auto simp: in_set_conv_nth)
qed

section \<open>The invariant\<close>

text \<open>An entry is reachable in slot \<open>i\<close> if a probe for its hash gets there over slots that are
  not empty.\<close>

definition on_path :: "'e slot list \<Rightarrow> size_t \<Rightarrow> nat \<Rightarrow> bool" where
  "on_path es h i \<longleftrightarrow> (\<exists>n. probe_slot (of_nat (length es)) h n = i \<and>
     (\<forall>m < n. es ! probe_slot (of_nat (length es)) h m \<noteq> Empty))"

definition all_on_path :: "('e \<Rightarrow> size_t) \<Rightarrow> 'e slot list \<Rightarrow> bool" where
  "all_on_path ehash es \<longleftrightarrow> (\<forall>i < length es. \<forall>x. es ! i = Occupied x \<longrightarrow> on_path es (ehash x) i)"

definition power2_size :: "nat \<Rightarrow> bool" where
  "power2_size n \<longleftrightarrow> (\<exists>k \<le> 56. n = 2 ^ k)"

definition ht_inv :: "('e \<Rightarrow> size_t) \<Rightarrow> 'e hash_table \<Rightarrow> bool" where
  "ht_inv ehash t \<longleftrightarrow>
     length (ht_entries t) = ht_capacity t \<and>
     (ht_capacity t = 0 \<or> power2_size (ht_capacity t)) \<and>
     ht_count t = length (ht_elems t) \<and>
     ht_deleted t = deleted_slots (ht_entries t) \<and>
     0 < ht_load_factor t \<and> ht_load_factor t < 100 \<and>
     ht_threshold t = ht_capacity t * ht_load_factor t div 100 \<and>
     all_on_path ehash (ht_entries t)"

lemma power2_sizeE:
  assumes "power2_size n"
  obtains k where "k \<le> 56" "n = 2 ^ k" "(of_nat n :: size_t) = 2 ^ k" "k < 64" "n \<le> 2 ^ 56"
proof -
  obtain k where k: "k \<le> 56" "n = 2 ^ k" using assms by (auto simp: power2_size_def)
  moreover have "(2::nat) ^ k \<le> 2 ^ 56" using k by (intro power_increasing) auto
  ultimately show thesis by (intro that [of k]) auto
qed

lemma probe_in_range: "power2_size (length es) \<Longrightarrow> probe_slot (of_nat (length es)) h n < length es"
  by (elim power2_sizeE) (simp add: probe_slot_less)

text \<open>Reachability survives every change that empties no slot.\<close>

lemma on_path_mono:
  assumes "on_path es h i" and "\<And>j. es ! j \<noteq> Empty \<Longrightarrow> es' ! j \<noteq> Empty" and "length es' = length es"
  shows "on_path es' h i"
  using assms unfolding on_path_def by metis

lemma all_on_path_update:
  assumes "all_on_path ehash es" and "i < length es" and "s \<noteq> Empty"
    and "\<And>x. s = Occupied x \<Longrightarrow> on_path es (ehash x) i"
  shows "all_on_path ehash (es[i := s])"
proof -
  have "on_path (es[i := s]) h j" if "on_path es h j" for h j
    using that by (rule on_path_mono) (use assms(2,3) in \<open>auto simp: nth_list_update split: if_splits\<close>)
  then show ?thesis
    using assms by (auto simp: all_on_path_def nth_list_update split: if_splits)
qed

section \<open>The search loops\<close>

abbreviation probe_at :: "size_t \<Rightarrow> nat \<Rightarrow> size_t \<times> size_t" where
  "probe_at h n \<equiv> (probe_step ^^ n) (h, h)"

lemma find_loop_returns:
  assumes "es ! probe_slot cap h N = Empty" and "n \<le> N" and "N < n + fuel"
  shows "\<exists>r. find_loop fuel es cap eq (probe_at h n) ins = Some r"
  using assms
proof (induction fuel arbitrary: n ins)
  case (Suc fuel)
  show ?case
  proof (cases "n = N")
    case True
    then show ?thesis using Suc.prems(1) by (simp add: probe_slot_def)
  next
    case False
    then have "\<exists>r. find_loop fuel es cap eq (probe_step (probe_at h n)) ins' = Some r" for ins'
      using Suc.IH [of "Suc n" ins'] Suc.prems by simp
    then show ?thesis by (auto simp: Let_def split: slot.splits)
  qed
qed simp

text \<open>What a returning search has seen: the key's entry, or an empty slot before which there is
  no entry with the key, and a free slot on the way.\<close>

definition passed :: "'e slot list \<Rightarrow> size_t \<Rightarrow> ('e \<Rightarrow> bool) \<Rightarrow> size_t \<Rightarrow> nat \<Rightarrow> bool" where
  "passed es cap eq h n \<longleftrightarrow> (\<forall>m < n. es ! probe_slot cap h m \<noteq> Empty \<and>
     (\<forall>x. es ! probe_slot cap h m = Occupied x \<longrightarrow> \<not> eq x))"

definition free_before :: "'e slot list \<Rightarrow> size_t \<Rightarrow> size_t \<Rightarrow> nat \<Rightarrow> nat \<Rightarrow> bool" where
  "free_before es cap h n p \<longleftrightarrow> (\<exists>m \<le> n. p = probe_slot cap h m \<and> \<not> is_occupied (es ! p))"

lemma find_loop_cases:
  assumes "find_loop fuel es cap eq (probe_at h n) ins = Some (p, occ)"
    and "passed es cap eq h n" and "\<And>q. ins = Some q \<Longrightarrow> free_before es cap h n q"
  shows "if occ then \<exists>x. es ! p = Occupied x \<and> eq x \<and> (\<exists>m. p = probe_slot cap h m)
    else \<exists>N. es ! probe_slot cap h N = Empty \<and> passed es cap eq h N \<and> free_before es cap h N p"
  using assms
proof (induction fuel arbitrary: n ins)
  case (Suc fuel)
  let ?e = "probe_slot cap h n"
  have e: "unat (fast_modulo (fst (probe_at h n)) cap) = ?e" by (simp add: probe_slot_def)
  have mono: "free_before es cap h (Suc n) q" if "free_before es cap h n q" for q
    using that unfolding free_before_def by (blast intro: le_SucI)
  show ?case
  proof (cases "es ! ?e")
    case Empty
    then have "free_before es cap h n p \<and> \<not> occ"
      using Suc.prems(1,3) e by (auto simp: free_before_def split: option.splits)
    then show ?thesis using Empty Suc.prems(2) by auto
  next
    case Deleted
    have "passed es cap eq h (Suc n)"
      using Suc.prems(2) Deleted by (auto simp: passed_def less_Suc_eq)
    moreover have "free_before es cap h (Suc n) ?e"
      unfolding free_before_def using Deleted by (intro exI [of _ n]) simp
    then have "free_before es cap h (Suc n) q"
      if "(case ins of Some p \<Rightarrow> Some p | None \<Rightarrow> Some ?e) = Some q" for q
      using that Suc.prems(3) [THEN mono] by (cases ins) simp_all
    ultimately show ?thesis
      using Suc.IH [of "Suc n" "case ins of Some p \<Rightarrow> Some p | None \<Rightarrow> Some ?e"] Suc.prems(1) Deleted e
      by simp
  next
    case (Occupied x)
    show ?thesis
    proof (cases "eq x")
      case True
      then have "p = ?e \<and> occ" using Suc.prems(1) Occupied e by simp
      then show ?thesis using Occupied True by auto
    next
      case False
      have "passed es cap eq h (Suc n)"
        using Suc.prems(2) Occupied False by (auto simp: passed_def less_Suc_eq)
      then show ?thesis
        using Suc.IH [of "Suc n" ins] Suc.prems(1,3) mono Occupied False e by simp
    qed
  qed
qed simp

lemma empty_loop_returns:
  assumes "es ! probe_slot cap h N = Empty" and "n \<le> N" and "N < n + fuel"
  shows "\<exists>p. empty_loop fuel es cap (probe_at h n) = Some p"
  using assms
proof (induction fuel arbitrary: n)
  case (Suc fuel)
  then show ?case
    using Suc.IH [of "Suc n"]
    by (cases "n = N") (auto simp: probe_slot_def Let_def split: slot.splits)
qed simp

lemma empty_loop_cases:
  assumes "empty_loop fuel es cap (probe_at h n) = Some p" and "\<And>m. m < n \<Longrightarrow> es ! probe_slot cap h m \<noteq> Empty"
  shows "\<exists>N. p = probe_slot cap h N \<and> es ! p = Empty \<and> (\<forall>m < N. es ! probe_slot cap h m \<noteq> Empty)"
  using assms
proof (induction fuel arbitrary: n)
  case (Suc fuel)
  have e: "unat (fast_modulo (fst (probe_at h n)) cap) = probe_slot cap h n" by (simp add: probe_slot_def)
  show ?case
  proof (cases "es ! probe_slot cap h n = Empty")
    case True
    then show ?thesis using Suc.prems e by auto
  next
    case False
    then have "empty_loop fuel es cap (probe_at h (Suc n)) = Some p"
      using Suc.prems(1) e by (simp add: Let_def split: slot.splits)
    then show ?thesis
      using Suc.IH [of "Suc n"] Suc.prems(2) False by (auto simp: less_Suc_eq)
  qed
qed simp

section \<open>Growing\<close>

lemma reinsert_ok:
  assumes "power2_size (ht_capacity t)" and "length (ht_entries t) = ht_capacity t"
    and "length (occs old) + length (ht_elems t) < ht_capacity t"
    and "deleted_slots (ht_entries t) = 0" and "all_on_path ehash (ht_entries t)"
  shows "\<exists>es. reinsert ehash old t = Inr (t\<lparr> ht_entries := es \<rparr>) \<and> length es = ht_capacity t \<and>
    mset (occs es) = mset (ht_elems t) + mset (occs old) \<and> deleted_slots es = 0 \<and> all_on_path ehash es"
  using assms
proof (induction old arbitrary: t rule: occs.induct)
  case 1
  then show ?case by (intro exI [of _ "ht_entries t"]) simp
next
  case (2 x old)
  let ?es = "ht_entries t" and ?c = "of_nat (ht_capacity t) :: size_t" and ?h = "ehash x"
  obtain k where k: "ht_capacity t = 2 ^ k" "?c = 2 ^ k" "k < 64"
    using 2(2) by (elim power2_sizeE) blast
  obtain i where i: "i < length ?es" "?es ! i = Empty"
    using empty_exists [of ?es] 2(3-5) by auto
  then obtain N where N: "N < 13 + ht_capacity t" "probe_slot ?c ?h N = i"
    using probe_covers [where k = k and i = i and h = ?h] k 2(3) by auto
  then obtain p where p: "empty_loop (13 + ht_capacity t) ?es ?c (?h, ?h) = Some p"
    using empty_loop_returns [where es = ?es and cap = ?c and h = ?h and N = N and n = 0 and fuel = "13 + ht_capacity t"] i by auto
  then obtain M where M: "p = probe_slot ?c ?h M" "?es ! p = Empty" "\<forall>m < M. ?es ! probe_slot ?c ?h m \<noteq> Empty"
    using empty_loop_cases [where n = 0] by fastforce
  have pl: "p < length ?es" using M(1) probe_in_range [of ?es] 2(2,3) by simp
  let ?t = "t\<lparr> ht_entries := ?es[p := Occupied x] \<rparr>"
  have on: "on_path ?es ?h p" using M 2(3) by (auto simp: on_path_def)
  have path: "all_on_path ehash (ht_entries ?t)"
    using all_on_path_update [OF 2(6) pl, of "Occupied x"] on by simp
  have ms: "mset (occs (?es[p := Occupied x])) = mset (occs ?es) + {#x#}"
    using mset_occs_update [OF pl, of "Occupied x"] M(2) by simp
  then have "length (occs (?es[p := Occupied x])) = Suc (length (occs ?es))"
    by (metis size_mset size_add_mset add_mset_add_single)
  moreover have "deleted_slots (?es[p := Occupied x]) = 0"
    using deleted_split [OF pl, of "Occupied x"] M(2) 2(5) by simp
  ultimately have "\<exists>es. reinsert ehash old ?t = Inr (?t\<lparr> ht_entries := es \<rparr>) \<and> length es = ht_capacity ?t \<and>
    mset (occs es) = mset (ht_elems ?t) + mset (occs old) \<and> deleted_slots es = 0 \<and> all_on_path ehash es"
    using 2(2-4) path by (intro 2(1)) simp_all
  then show ?case using p ms by simp
qed simp_all

lemma power2_size_is_power:
  "power2_size n \<Longrightarrow> is_power_of_two (of_nat n)"
proof (elim power2_sizeE)
  fix k assume k: "k < 64" "(of_nat n :: size_t) = 2 ^ k"
  have "(2 :: size_t) ^ k AND mask k = 0" by (rule bit_word_eqI) (auto simp: bit_simps)
  then show ?thesis using k by (simp add: is_power_of_two_def mask_eq_exp_minus_1)
qed

text \<open>The capacity that \<open>grow_table\<close> chooses.\<close>

lemma next_capacity:
  assumes "0 < n" and "n \<le> 2 ^ 56"
  shows "power2_size (unat (next_power_of_two (of_nat n))) \<and> n \<le> unat (next_power_of_two (of_nat n)) \<and>
    unat (next_power_of_two (of_nat n)) \<le> 2 * n"
proof -
  have n: "unat (of_nat n :: size_t) = n" using assms(2) by (intro unat_of_nat_small) simp
  moreover have "(0 :: size_t) < of_nat n" using assms(1) n by (metis unat_gt_0 unat_0 neq0_conv word_neq_0_conv)
  ultimately obtain k where k: "k \<le> 63" "next_power_of_two (of_nat n) = 2 ^ k" "n \<le> 2 ^ k"
      "\<forall>j. n \<le> 2 ^ j \<longrightarrow> k \<le> j"
    using next_power_of_two_least [of "of_nat n"] assms(2) by auto
  have "(2::nat) ^ k < 2 ^ 64" using k(1) by (intro power_strict_increasing) auto
  then have "unat ((2 :: size_t) ^ k) = 2 ^ k" using unat_of_nat_small [of "2 ^ k", where 'a = 64] by simp
  moreover have "2 ^ k \<le> 2 * n"
  proof (cases k)
    case (Suc l)
    then have "2 ^ l < n" using k(4) by (metis Suc_n_not_le_n not_le)
    then show ?thesis using Suc by simp
  qed (use assms(1) in simp)
  ultimately show ?thesis using k assms(2) by (auto simp: power2_size_def)
qed

lemma threshold_no_wrap:
  "c \<le> 2 ^ 56 \<Longrightarrow> lf < 100 \<Longrightarrow> c * lf mod 2 ^ 64 = c * lf" for c lf :: nat
proof -
  assume "c \<le> 2 ^ 56" "lf < 100"
  then have "c * lf \<le> 2 ^ 56 * 100" by (intro mult_le_mono) auto
  then show ?thesis by simp
qed

lemma grow_table_ok:
  assumes inv: "ht_inv ehash t" and n: "ht_capacity t < n" "n \<le> 2 ^ 56"
  shows "\<exists>t'. grow_table ehash n t = Inr t' \<and> ht_inv ehash t' \<and> mset (ht_elems t') = mset (ht_elems t) \<and>
    n \<le> ht_capacity t' \<and> ht_capacity t' \<le> 2 * n \<and> ht_deleted t' = 0 \<and> ht_count t' = ht_count t \<and> ht_load_factor t' = ht_load_factor t"
proof -
  let ?c = "unat (next_power_of_two (of_nat n))"
  have p2: "power2_size ?c" and ge: "n \<le> ?c" and le: "?c \<le> 2 * n" using next_capacity [of n] n by auto
  let ?t = "(update_threshold (t\<lparr> ht_capacity := ?c, ht_deleted := 0 \<rparr>))\<lparr> ht_entries := replicate ?c Empty \<rparr>"
  have alloc: "allocate_table (t\<lparr> ht_capacity := ?c \<rparr>) = Inr ?t"
    using power2_size_is_power [OF p2] by (simp add: allocate_table_def)
  have "length (ht_elems t) < ?c" using inv n ge occs_le [of "ht_entries t"] by (simp add: ht_inv_def)
  moreover have "all_on_path ehash (replicate ?c Empty)" by (simp add: all_on_path_def)
  ultimately obtain es where es: "reinsert ehash (ht_entries t) ?t = Inr (?t\<lparr> ht_entries := es \<rparr>)"
      "length es = ?c" "mset (occs es) = mset (ht_elems t)" "deleted_slots es = 0" "all_on_path ehash es"
    using reinsert_ok [of ?t "ht_entries t" ehash] p2 by (auto simp: deleted_slots_def update_threshold_def)
  let ?t' = "?t\<lparr> ht_entries := es \<rparr>"
  have "grow_table ehash n t = Inr ?t'"
    using alloc es(1) n ge by (simp add: grow_table_def Let_def)
  moreover have "length (occs es) = ht_count t"
    using es(3) inv by (metis ht_inv_def size_mset)
  then have "ht_inv ehash ?t'"
    using inv es p2 threshold_no_wrap [of ?c "ht_load_factor t"]
    by (auto simp: ht_inv_def update_threshold_def elim: power2_sizeE)
  ultimately show ?thesis using es ge le by (intro exI [of _ ?t']) (simp add: update_threshold_def)
qed

section \<open>Finding\<close>

text \<open>A search that gave up has seen every entry the key could be in.\<close>

lemma not_on_path:
  assumes path: "all_on_path ehash es" and N: "es ! probe_slot (of_nat (length es)) h N = Empty"
    and passed: "passed es (of_nat (length es)) eq h N"
    and x: "x \<in> set (occs es)" and law: "eq x \<Longrightarrow> ehash x = h"
  shows "\<not> eq x"
proof
  assume eq: "eq x"
  obtain i where i: "i < length es" "es ! i = Occupied x"
    using x unfolding set_occs by (auto simp: in_set_conv_nth)
  then have "on_path es h i" using path law [OF eq] by (auto simp: all_on_path_def)
  then obtain n where n: "probe_slot (of_nat (length es)) h n = i"
      "\<forall>m < n. es ! probe_slot (of_nat (length es)) h m \<noteq> Empty"
    by (auto simp: on_path_def)
  have "n \<le> N" using n(2) N by (metis not_le)
  moreover have "n \<noteq> N" using n(1) N i(2) by auto
  ultimately have "n < N" by simp
  then show False using passed n(1) i(2) eq by (auto simp: passed_def)
qed

definition found :: "('e \<Rightarrow> size_t) \<Rightarrow> size_t \<Rightarrow> ('e \<Rightarrow> bool) \<Rightarrow> 'e hash_table \<Rightarrow> nat \<times> bool \<Rightarrow> bool" where
  "found ehash h eq t ref \<longleftrightarrow>
     fst ref < length (ht_entries t) \<and>
     (if snd ref then \<exists>x. ht_entries t ! fst ref = Occupied x \<and> eq x
      else (\<forall>x \<in> set (ht_elems t). \<not> eq x) \<and> \<not> is_occupied (ht_entries t ! fst ref) \<and>
           on_path (ht_entries t) h (fst ref))"

lemma find_loop_ok:
  assumes inv: "ht_inv ehash t" and empty: "ht_count t + ht_deleted t < ht_capacity t"
    and law: "\<And>x. x \<in> set (ht_elems t) \<Longrightarrow> eq x \<Longrightarrow> ehash x = h"
  shows "\<exists>ref. find_loop (13 + ht_capacity t) (ht_entries t) (of_nat (ht_capacity t)) eq (h, h) None = Some ref \<and>
    found ehash h eq t ref"
proof -
  let ?es = "ht_entries t" and ?c = "of_nat (ht_capacity t) :: size_t"
  have len: "length ?es = ht_capacity t" and p2: "power2_size (length ?es)" and path: "all_on_path ehash ?es"
    using inv empty by (auto simp: ht_inv_def)
  obtain k where k: "ht_capacity t = 2 ^ k" "?c = 2 ^ k" "k < 64"
    using p2 len by (metis power2_sizeE)
  obtain i where i: "i < length ?es" "?es ! i = Empty"
    using empty_exists [of ?es] inv empty by (auto simp: ht_inv_def)
  then obtain N where N: "N < 13 + ht_capacity t" "probe_slot ?c h N = i"
    using probe_covers [where k = k and i = i and h = h] k len by auto
  then obtain ref where ref: "find_loop (13 + ht_capacity t) ?es ?c eq (h, h) None = Some ref"
    using find_loop_returns [where es = ?es and cap = ?c and h = h and N = N and n = 0 and fuel = "13 + ht_capacity t"
        and eq = eq and ins = None] i
    by auto
  obtain p occ where po: "ref = (p, occ)" by (cases ref)
  have cases: "if occ then \<exists>x. ?es ! p = Occupied x \<and> eq x \<and> (\<exists>m. p = probe_slot ?c h m)
      else \<exists>N. ?es ! probe_slot ?c h N = Empty \<and> passed ?es ?c eq h N \<and> free_before ?es ?c h N p"
    using find_loop_cases [where n = 0 and ins = None] ref po by (fastforce simp: passed_def)
  have "found ehash h eq t ref"
  proof (cases occ)
    case True
    then show ?thesis using cases po probe_in_range [OF p2] len by (auto simp: found_def)
  next
    case False
    then obtain N m where N: "?es ! probe_slot ?c h N = Empty" "passed ?es ?c eq h N" "m \<le> N"
        "p = probe_slot ?c h m" "\<not> is_occupied (?es ! p)"
      using cases by (auto simp: free_before_def)
    have "\<forall>x \<in> set (ht_elems t). \<not> eq x"
      using not_on_path [OF path, of h N eq] N(1,2) law len by auto
    moreover have "on_path ?es h p"
      using N(2-4) len unfolding on_path_def passed_def by (intro exI [of _ m]) auto
    ultimately show ?thesis using N po False probe_in_range [OF p2] len by (auto simp: found_def)
  qed
  then show ?thesis using ref by blast
qed

lemma ht_find_ok:
  assumes inv: "ht_inv ehash t" and cap: "ht_capacity t < 2 ^ 56"
    and law: "\<And>x. x \<in> set (ht_elems t) \<Longrightarrow> eq x \<Longrightarrow> ehash x = h"
  shows "\<exists>t' ref. ht_find ehash h eq t = Inr (t', ref) \<and> ht_inv ehash t' \<and>
    mset (ht_elems t') = mset (ht_elems t) \<and> found ehash h eq t' ref"
proof -
  let ?m = "if ht_threshold t \<le> ht_count t + ht_deleted t then grow_table ehash (ht_capacity t + 1) t else Inr t"
  have "ht_count t \<le> ht_capacity t" using inv occs_le [of "ht_entries t"] by (simp add: ht_inv_def)
  then have "\<exists>t'. ?m = Inr t' \<and> ht_inv ehash t' \<and> mset (ht_elems t') = mset (ht_elems t) \<and>
      ht_count t' + ht_deleted t' < ht_capacity t'"
  proof (cases "ht_threshold t \<le> ht_count t + ht_deleted t")
    case True
    then show ?thesis
      using grow_table_ok [OF inv, of "ht_capacity t + 1"] cap \<open>ht_count t \<le> ht_capacity t\<close> by force
  next
    case False
    have "ht_capacity t * ht_load_factor t div 100 \<le> ht_capacity t * 100 div 100"
      using inv by (intro div_le_mono mult_le_mono2) (simp add: ht_inv_def)
    then have "ht_threshold t \<le> ht_capacity t" using inv by (simp add: ht_inv_def)
    then show ?thesis using False inv by auto
  qed
  then obtain t' where t': "?m = Inr t'" "ht_inv ehash t'" "mset (ht_elems t') = mset (ht_elems t)"
      "ht_count t' + ht_deleted t' < ht_capacity t'"
    by blast
  have "set (ht_elems t') = set (ht_elems t)" using t'(3) by (metis set_mset_mset)
  then obtain ref where "find_loop (13 + ht_capacity t') (ht_entries t') (of_nat (ht_capacity t')) eq (h, h) None = Some ref"
      "found ehash h eq t' ref"
    using find_loop_ok [OF t'(2,4), of eq h] law by auto
  then show ?thesis using t' by (auto simp: ht_find_def)
qed

section \<open>The operations keep the invariant\<close>

text \<open>Writing through a reference: the slot now holds the new entry.\<close>

lemma update_ref_ok:
  assumes inv: "ht_inv ehash t" and f: "found ehash h eq t ref" and h: "ehash x = h"
    and law: "\<And>y. y \<in> set (ht_elems t) \<Longrightarrow> eq y \<Longrightarrow> ehash y = h"
  shows "ht_inv ehash (update_ref ref x t) \<and>
    mset (ht_elems (update_ref ref x t)) + mset (occs [ht_entries t ! fst ref]) = mset (ht_elems t) + {#x#}"
proof -
  let ?es = "ht_entries t" and ?p = "fst ref" and ?t = "update_ref ref x t"
  have p: "?p < length ?es" using f by (simp add: found_def)
  have es': "ht_entries ?t = ?es[?p := Occupied x]" and
    fields: "ht_capacity ?t = ht_capacity t" "ht_load_factor ?t = ht_load_factor t" "ht_threshold ?t = ht_threshold t"
    by (auto simp: update_ref_def Let_def split: slot.splits)
  have path: "on_path ?es h ?p"
  proof (cases "snd ref")
    case True
    then obtain y where y: "?es ! ?p = Occupied y" "eq y" using f by (auto simp: found_def)
    then have "y \<in> set (ht_elems t)" unfolding set_occs using p by (metis nth_mem)
    then show ?thesis using inv y p law [of y] by (auto simp: ht_inv_def all_on_path_def)
  next
    case False
    then show ?thesis using f by (simp add: found_def)
  qed
  have path': "all_on_path ehash (ht_entries ?t)"
    unfolding es' using inv path p h by (intro all_on_path_update) (auto simp: ht_inv_def)
  have ms: "mset (ht_elems ?t) + mset (occs [?es ! ?p]) = mset (ht_elems t) + {#x#}"
    unfolding es' using mset_occs_update [OF p, of "Occupied x"] by simp
  then have "length (ht_elems ?t) + length (occs [?es ! ?p]) = length (ht_elems t) + 1"
    by (metis size_mset size_union size_single)
  then have "ht_count ?t = length (ht_elems ?t)"
    using inv by (cases "?es ! ?p") (auto simp: update_ref_def Let_def ht_inv_def)
  moreover have "ht_deleted ?t = deleted_slots (ht_entries ?t)"
    unfolding es' using inv deleted_split [OF p, of "Occupied x"]
    by (cases "?es ! ?p") (auto simp: update_ref_def Let_def ht_inv_def)
  moreover have "length (ht_entries ?t) = ht_capacity ?t" using inv by (simp add: es' fields ht_inv_def)
  ultimately have "ht_inv ehash ?t" using inv path' fields by (simp add: ht_inv_def)
  then show ?thesis using ms by blast
qed

lemma remove_ref_ok:
  assumes inv: "ht_inv ehash t" and p: "fst ref < length (ht_entries t)"
    and x: "snd ref \<Longrightarrow> ht_entries t ! fst ref = Occupied x"
  shows "ht_inv ehash (remove_ref ref t) \<and>
    (snd ref \<longrightarrow> mset (ht_elems (remove_ref ref t)) + {#x#} = mset (ht_elems t))"
proof (cases "snd ref")
  case True
  let ?es = "ht_entries t" and ?p = "fst ref" and ?t = "remove_ref ref t"
  have ms: "mset (ht_elems ?t) + {#x#} = mset (ht_elems t)"
    using mset_occs_update [OF p, of Deleted] x True by (simp add: remove_ref_def)
  then have "length (ht_elems ?t) + 1 = length (ht_elems t)"
    by (metis size_mset size_union size_single)
  moreover have "deleted_slots (?es[?p := Deleted]) = deleted_slots ?es + 1"
    using deleted_split [OF p, of Deleted] x True by simp
  moreover have "all_on_path ehash (?es[?p := Deleted])"
    using inv p by (intro all_on_path_update) (auto simp: ht_inv_def)
  ultimately have "ht_inv ehash ?t" using inv True by (auto simp: ht_inv_def remove_ref_def)
  then show ?thesis using ms by blast
qed (use inv in \<open>simp add: remove_ref_def\<close>)

lemma ht_clear_ok:
  "ht_inv ehash t \<Longrightarrow> ht_inv ehash (ht_clear t) \<and> ht_elems (ht_clear t) = []"
  by (auto simp: ht_inv_def ht_clear_def all_on_path_def deleted_slots_def)

lemma set_load_factor_ok:
  assumes "ht_inv ehash t" and "0 < lf" and "lf < 100"
  shows "\<exists>t'. set_load_factor lf t = Inr t' \<and> ht_inv ehash t' \<and> ht_entries t' = ht_entries t"
proof -
  have "ht_capacity t \<le> 2 ^ 56" using assms(1) by (auto simp: ht_inv_def elim: power2_sizeE)
  then show ?thesis
    using assms threshold_no_wrap [of "ht_capacity t" lf]
    by (auto simp: set_load_factor_def ht_inv_def update_threshold_def)
qed

lemma HashTable_new_ok:
  assumes "power2_size cap" and "0 < lf" and "lf < 100"
  shows "\<exists>t. HashTable_new cap lf = Inr t \<and> ht_inv ehash t \<and> ht_elems t = [] \<and> ht_capacity t = cap"
proof -
  obtain k where "cap = 2 ^ k" "cap \<le> 2 ^ 56" using assms(1) by (elim power2_sizeE) blast
  then show ?thesis
    using assms power2_size_is_power [of cap] threshold_no_wrap [of cap lf]
    by (auto simp: HashTable_new_def allocate_table_def HashTable_default_def update_threshold_def
        ht_inv_def all_on_path_def deleted_slots_def)
qed

lemma HashTable_default_ok: "ht_inv ehash HashTable_default \<and> ht_elems HashTable_default = []"
  by (simp add: HashTable_default_def ht_inv_def all_on_path_def deleted_slots_def DEFAULT_LOAD_FACTOR_def)

end
