(* ===== verification/HashMap.thy ===== *)
theory HashMap
  imports HashTable
begin

text \<open>
  The open-addressing table as a map from keys to entries, as its clients use it (the class
  reference and field tables of a descriptor pool, the entries of an archive). The key of an entry
  is a function of the entry and the hash is a function of the key. Every sequence of operations
  gives the answers of a finite map, and none of the probe loops runs forever.
\<close>

section \<open>Operations by key\<close>

fun slot_entry :: "'e slot \<Rightarrow> 'e option" where
  "slot_entry (Occupied x) = Some x"
| "slot_entry _ = None"

datatype ('k, 'e) ht_op = Op_find 'k | Op_insert 'e | Op_update 'e | Op_remove 'k | Op_clear
  | Op_reserve nat | Op_load_factor nat

fun ht_apply :: "('e \<Rightarrow> 'k) \<Rightarrow> ('k \<Rightarrow> size_t) \<Rightarrow> ('k, 'e) ht_op \<Rightarrow> 'e hash_table \<Rightarrow> ('e hash_table \<times> 'e option) result" where
  "ht_apply key kh (Op_find k) t =
     rbind (ht_find (kh \<circ> key) (kh k) (\<lambda>e. key e = k) t)
       (\<lambda>(t, ref). Inr (t, if snd ref then slot_entry (ht_entries t ! fst ref) else None))"
| "ht_apply key kh (Op_insert x) t =
     rbind (ht_insert (kh \<circ> key) (kh (key x)) (\<lambda>e. key e = key x) x t)
       (\<lambda>(t, i). Inr (t, slot_entry (ht_entries t ! i)))"
| "ht_apply key kh (Op_update x) t =
     rbind (ht_update (kh \<circ> key) (kh (key x)) (\<lambda>e. key e = key x) x t)
       (\<lambda>(t, i). Inr (t, slot_entry (ht_entries t ! i)))"
| "ht_apply key kh (Op_remove k) t =
     rbind (ht_remove (kh \<circ> key) (kh k) (\<lambda>e. key e = k) t) (\<lambda>t. Inr (t, None))"
| "ht_apply key kh Op_clear t = Inr (ht_clear t, None)"
| "ht_apply key kh (Op_reserve n) t = rbind (ht_reserve (kh \<circ> key) n t) (\<lambda>t. Inr (t, None))"
| "ht_apply key kh (Op_load_factor lf) t = rbind (set_load_factor lf t) (\<lambda>t. Inr (t, None))"

fun ht_run :: "('e \<Rightarrow> 'k) \<Rightarrow> ('k \<Rightarrow> size_t) \<Rightarrow> ('k, 'e) ht_op list \<Rightarrow> 'e hash_table \<Rightarrow> ('e hash_table \<times> 'e option list) result" where
  "ht_run key kh [] t = Inr (t, [])"
| "ht_run key kh (p # ps) t =
     rbind (ht_apply key kh p t) (\<lambda>(t, a). rbind (ht_run key kh ps t) (\<lambda>(t, as). Inr (t, a # as)))"

section \<open>The specification\<close>

fun map_apply :: "('e \<Rightarrow> 'k) \<Rightarrow> ('k, 'e) ht_op \<Rightarrow> ('k \<rightharpoonup> 'e) \<Rightarrow> ('k \<rightharpoonup> 'e) \<times> 'e option" where
  "map_apply key (Op_find k) m = (m, m k)"
| "map_apply key (Op_insert x) m =
     (case m (key x) of None \<Rightarrow> (m(key x \<mapsto> x), Some x) | Some y \<Rightarrow> (m, Some y))"
| "map_apply key (Op_update x) m = (m(key x \<mapsto> x), Some x)"
| "map_apply key (Op_remove k) m = (m(k := None), None)"
| "map_apply key Op_clear m = (Map.empty, None)"
| "map_apply key _ m = (m, None)"

fun map_run :: "('e \<Rightarrow> 'k) \<Rightarrow> ('k, 'e) ht_op list \<Rightarrow> ('k \<rightharpoonup> 'e) \<Rightarrow> ('k \<rightharpoonup> 'e) \<times> 'e option list" where
  "map_run key [] m = (m, [])"
| "map_run key (p # ps) m = (let (m, a) = map_apply key p m; (m, as) = map_run key ps m in (m, a # as))"

text \<open>The map a table stands for, and the tables that stand for one.\<close>

definition ht_map :: "('e \<Rightarrow> 'k) \<Rightarrow> 'e hash_table \<Rightarrow> 'k \<rightharpoonup> 'e" where
  "ht_map key t = map_of (map (\<lambda>e. (key e, e)) (ht_elems t))"

definition ht_ok :: "('e \<Rightarrow> 'k) \<Rightarrow> ('k \<Rightarrow> size_t) \<Rightarrow> 'e hash_table \<Rightarrow> bool" where
  "ht_ok key kh t \<longleftrightarrow> ht_inv (kh \<circ> key) t \<and> distinct (map key (ht_elems t))"

lemma distinct_keys_mset:
  "mset xs = mset ys \<Longrightarrow> distinct (map f xs) \<longleftrightarrow> distinct (map f ys)"
  by (metis mset_map mset_eq_imp_distinct_iff)

lemma ht_map_iff:
  "distinct (map key (ht_elems t)) \<Longrightarrow> ht_map key t k = Some e \<longleftrightarrow> e \<in> set (ht_elems t) \<and> key e = k"
  unfolding ht_map_def by (subst map_of_eq_Some_iff) (auto simp: comp_def)

lemma ht_map_None: "ht_map key t k = None \<longleftrightarrow> (\<forall>e \<in> set (ht_elems t). key e \<noteq> k)"
  by (auto simp: ht_map_def map_of_eq_None_iff image_image)

lemma ht_map_mset:
  assumes "mset (ht_elems t') = mset (ht_elems t)" and "distinct (map key (ht_elems t))"
  shows "ht_map key t' = ht_map key t \<and> distinct (map key (ht_elems t'))"
proof -
  have d: "distinct (map key (ht_elems t'))" using assms distinct_keys_mset by blast
  have s: "set (ht_elems t') = set (ht_elems t)" using assms(1) by (metis set_mset_mset)
  have "ht_map key t' k = ht_map key t k" for k
    by (rule option_eqI) (simp add: ht_map_iff [OF d] ht_map_iff [OF assms(2)] s)
  then show ?thesis using d by blast
qed

text \<open>Adding one entry with a new key, and taking one away.\<close>

lemma ht_map_add:
  assumes ms: "mset (ht_elems t') = mset (ht_elems t) + {#x#}" and d: "distinct (map key (ht_elems t))"
    and new: "\<forall>e \<in> set (ht_elems t). key e \<noteq> key x"
  shows "ht_map key t' = (ht_map key t)(key x \<mapsto> x) \<and> distinct (map key (ht_elems t'))"
proof -
  have c: "mset (ht_elems t') = mset (x # ht_elems t)" using ms by simp
  have "distinct (map key (x # ht_elems t))" using d new by (auto simp: image_iff)
  then have d': "distinct (map key (ht_elems t'))" using distinct_keys_mset [OF c] by blast
  have s: "set (ht_elems t') = insert x (set (ht_elems t))" using mset_eq_setD [OF c] by simp
  have "ht_map key t' k = ((ht_map key t)(key x \<mapsto> x)) k" for k
    using new by (intro option_eqI) (auto simp: ht_map_iff [OF d] ht_map_iff [OF d'] s)
  then show ?thesis using d' by blast
qed

lemma ht_map_del:
  assumes ms: "mset (ht_elems t') + {#x#} = mset (ht_elems t)" and d: "distinct (map key (ht_elems t))"
  shows "ht_map key t' = (ht_map key t)(key x := None) \<and> distinct (map key (ht_elems t'))"
proof -
  have c: "mset (ht_elems t) = mset (x # ht_elems t')" using ms by simp
  have dd: "distinct (map key (x # ht_elems t'))" using d distinct_keys_mset [OF c] by blast
  have s: "set (ht_elems t) = insert x (set (ht_elems t'))" using mset_eq_setD [OF c] by simp
  have d': "distinct (map key (ht_elems t'))" using dd by simp
  have "ht_map key t' k = ((ht_map key t)(key x := None)) k" for k
    using dd by (intro option_eqI) (auto simp: ht_map_iff [OF d] ht_map_iff [OF d'] s image_iff)
  then show ?thesis using d' by blast
qed

section \<open>Each operation\<close>

lemma find_by_key:
  assumes "ht_ok key kh t" and "ht_capacity t < 2 ^ 56"
  shows "\<exists>t' ref. ht_find (kh \<circ> key) (kh k) (\<lambda>e. key e = k) t = Inr (t', ref) \<and> ht_ok key kh t' \<and>
    ht_map key t' = ht_map key t \<and> found (kh \<circ> key) (kh k) (\<lambda>e. key e = k) t' ref \<and>
    (if snd ref then \<exists>e. ht_entries t' ! fst ref = Occupied e \<and> key e = k \<and> ht_map key t k = Some e
     else ht_map key t k = None)"
proof -
  obtain t' ref where t': "ht_find (kh \<circ> key) (kh k) (\<lambda>e. key e = k) t = Inr (t', ref)"
      "ht_inv (kh \<circ> key) t'" "mset (ht_elems t') = mset (ht_elems t)"
      "found (kh \<circ> key) (kh k) (\<lambda>e. key e = k) t' ref"
    using ht_find_ok [of "kh \<circ> key" t "\<lambda>e. key e = k" "kh k"] assms by (auto simp: ht_ok_def)
  have map: "ht_map key t' = ht_map key t" "distinct (map key (ht_elems t'))"
    using ht_map_mset [OF t'(3)] assms(1) by (auto simp: ht_ok_def)
  have "if snd ref then \<exists>e. ht_entries t' ! fst ref = Occupied e \<and> key e = k \<and> ht_map key t k = Some e
     else ht_map key t k = None"
  proof (cases "snd ref")
    case True
    then obtain e where e: "ht_entries t' ! fst ref = Occupied e" "key e = k" "fst ref < length (ht_entries t')"
      using t'(4) by (auto simp: found_def)
    then have "e \<in> set (ht_elems t')" unfolding set_occs by (metis nth_mem)
    then have "ht_map key t' k = Some e" using ht_map_iff [OF map(2)] e by blast
    then show ?thesis using True e map(1) by auto
  next
    case False
    then have "ht_map key t' k = None" using t'(4) by (auto simp: found_def ht_map_None)
    then show ?thesis using False map(1) by simp
  qed
  then show ?thesis using t' map by (auto simp: ht_ok_def)
qed

lemma ok_inv: "ht_ok key kh t \<Longrightarrow> ht_inv (kh \<circ> key) t"
  by (simp add: ht_ok_def)

text \<open>Writing the entry of a key through the reference found for the key.\<close>

lemma update_ref_map:
  assumes ok: "ht_ok key kh t" and f: "found (kh \<circ> key) (kh (key x)) (\<lambda>e. key e = key x) t ref"
  shows "ht_ok key kh (update_ref ref x t) \<and> ht_map key (update_ref ref x t) = (ht_map key t)(key x \<mapsto> x)"
proof -
  let ?t = "update_ref ref x t"
  have inv: "ht_inv (kh \<circ> key) t" and d: "distinct (map key (ht_elems t))" using ok by (auto simp: ht_ok_def)
  have inv': "ht_inv (kh \<circ> key) ?t"
    and ms: "mset (ht_elems ?t) + mset (occs [ht_entries t ! fst ref]) = mset (ht_elems t) + {#x#}"
    using update_ref_ok [OF inv f, of x] by auto
  have "ht_map key ?t = (ht_map key t)(key x \<mapsto> x) \<and> distinct (map key (ht_elems ?t))"
  proof (cases "snd ref")
    case True
    then obtain y where y: "ht_entries t ! fst ref = Occupied y" "key y = key x" "fst ref < length (ht_entries t)"
      using f by (auto simp: found_def)
    let ?d = "remove_ref ref t"
    have del: "mset (ht_elems ?d) + {#y#} = mset (ht_elems t)"
      using remove_ref_ok [OF inv y(3), of y] y(1) True by simp
    have m: "ht_map key ?d = (ht_map key t)(key x := None)" "distinct (map key (ht_elems ?d))"
      using ht_map_del [OF del d] y(2) by auto
    have "mset (ht_elems ?t) = mset (ht_elems ?d) + {#x#}" 
    proof -
      have "(mset (ht_elems ?d) + {#x#}) + {#y#} = mset (ht_elems t) + {#x#}" using del by simp
      also have "\<dots> = mset (ht_elems ?t) + {#y#}" using ms y(1) by simp
      finally show ?thesis unfolding add_right_cancel by (rule sym)
    qed
    moreover have "\<forall>e \<in> set (ht_elems ?d). key e \<noteq> key x"
      using m(1) ht_map_None [of key ?d "key x"] by simp
    ultimately show ?thesis using ht_map_add [of ?t ?d x key] m by simp
  next
    case False
    then have new: "\<forall>e \<in> set (ht_elems t). key e \<noteq> key x" and free: "\<not> is_occupied (ht_entries t ! fst ref)"
      using f by (simp_all add: found_def)
    have "occs [ht_entries t ! fst ref] = []" using free by (cases "ht_entries t ! fst ref") simp_all
    then have "mset (ht_elems ?t) = mset (ht_elems t) + {#x#}" using ms by simp
    then show ?thesis by (rule ht_map_add [OF _ d new])
  qed
  then show ?thesis using inv' by (simp add: ht_ok_def)
qed

lemma remove_ref_map:
  assumes ok: "ht_ok key kh t" and f: "found (kh \<circ> key) (kh k) (\<lambda>e. key e = k) t ref"
  shows "ht_ok key kh (remove_ref ref t) \<and> ht_map key (remove_ref ref t) = (ht_map key t)(k := None)"
proof (cases "snd ref")
  case True
  have inv: "ht_inv (kh \<circ> key) t" and d: "distinct (map key (ht_elems t))" using ok by (auto simp: ht_ok_def)
  obtain y where y: "ht_entries t ! fst ref = Occupied y" "key y = k" "fst ref < length (ht_entries t)"
    using f True by (auto simp: found_def)
  have "ht_inv (kh \<circ> key) (remove_ref ref t)" "mset (ht_elems (remove_ref ref t)) + {#y#} = mset (ht_elems t)"
    using remove_ref_ok [OF inv y(3), of y] y(1) True by auto
  then show ?thesis using ht_map_del [of "remove_ref ref t" y t key] d y(2) by (auto simp: ht_ok_def)
next
  case False
  then have "ht_map key t k = None" using f by (auto simp: found_def ht_map_None)
  then show ?thesis using ok False by (simp add: remove_ref_def fun_upd_idem)
qed

section \<open>Sequences of operations\<close>

text \<open>Occupied and deleted slots grow by at most one per operation, and the table only grows when
  the load factor is reached, so its size stays proportional to the number of operations.\<close>

definition ht_small :: "nat \<Rightarrow> 'e hash_table \<Rightarrow> bool" where
  "ht_small i t \<longleftrightarrow> ht_count t + ht_deleted t \<le> i \<and> ht_capacity t \<le> 2 ^ 48"

lemma ht_find_small:
  assumes inv: "ht_inv ehash t" and small: "ht_small i t" and i: "i < 2 ^ 40"
    and find: "ht_find ehash h eq t = Inr (t', ref)"
  shows "ht_small i t'"
proof (cases "ht_threshold t \<le> ht_count t + ht_deleted t")
  case True
  then have "ht_capacity t * ht_load_factor t div 100 < 2 ^ 40"
    using inv small i by (simp add: ht_inv_def ht_small_def)
  then have "ht_capacity t * ht_load_factor t < 100 * 2 ^ 40" by (simp add: div_less_iff_less_mult)
  moreover have "ht_capacity t * 1 \<le> ht_capacity t * ht_load_factor t"
    using inv by (intro mult_le_mono2) (simp add: ht_inv_def)
  ultimately have "ht_capacity t < 100 * 2 ^ 40" by linarith
  then have cap: "ht_capacity t + 1 \<le> 2 ^ 47" by simp
  then obtain g where "grow_table ehash (ht_capacity t + 1) t = Inr g" "ht_capacity g \<le> 2 * (ht_capacity t + 1)"
      "ht_deleted g = 0" "ht_count g = ht_count t"
    using grow_table_ok [OF inv, of "ht_capacity t + 1"] by auto
  then show ?thesis
    using find True cap small by (auto simp: ht_find_def ht_small_def split: option.splits)
next
  case False
  then show ?thesis using find small by (auto simp: ht_find_def split: option.splits)
qed

lemma update_ref_small: "ht_small i t \<Longrightarrow> ht_small (Suc i) (update_ref ref x t)"
  by (auto simp: ht_small_def update_ref_def Let_def split: slot.splits)

lemma remove_ref_small:
  assumes "ht_inv ehash t" and "found ehash h eq t ref" and "ht_small i t"
  shows "ht_small i (remove_ref ref t)"
proof (cases "snd ref")
  case True
  then obtain x where "ht_entries t ! fst ref = Occupied x" "fst ref < length (ht_entries t)"
    using assms(2) by (auto simp: found_def)
  then have "x \<in> set (ht_elems t)" unfolding set_occs by (metis nth_mem)
  then have "0 < ht_count t" using assms(1) by (auto simp: ht_inv_def)
  then show ?thesis using assms(3) True by (simp add: ht_small_def remove_ref_def)
qed (use assms in \<open>simp add: remove_ref_def\<close>)

fun op_sane :: "('k, 'e) ht_op \<Rightarrow> bool" where
  "op_sane (Op_reserve n) \<longleftrightarrow> n \<le> 2 ^ 40"
| "op_sane (Op_load_factor lf) \<longleftrightarrow> 0 < lf \<and> lf < 100"
| "op_sane _ \<longleftrightarrow> True"

lemma ht_apply_ok:
  assumes ok: "ht_ok key kh t" and small: "ht_small i t" and i: "i < 2 ^ 40" and sane: "op_sane p"
  shows "\<exists>t' a. ht_apply key kh p t = Inr (t', a) \<and> ht_ok key kh t' \<and> ht_small (Suc i) t' \<and>
    map_apply key p (ht_map key t) = (ht_map key t', a)"
proof -
  have cap: "ht_capacity t < 2 ^ 56" using small by (simp add: ht_small_def)
  have weaken: "ht_small i t' \<Longrightarrow> ht_small (Suc i) t'" for t' :: "'a hash_table"
    by (simp add: ht_small_def)
  have inv: "ht_inv (kh \<circ> key) t" using ok by (rule ok_inv)
  note small' = ht_find_small [OF inv small i]
  note find = find_by_key [OF ok cap]
  show ?thesis
  proof (cases p)
    case (Op_find k)
    then show ?thesis using find [of k] small' weaken by (fastforce split: if_splits)
  next
    case (Op_insert x)
    obtain t' ref where t': "ht_find (kh \<circ> key) (kh (key x)) (\<lambda>e. key e = key x) t = Inr (t', ref)"
        "ht_ok key kh t'" "ht_map key t' = ht_map key t"
        "found (kh \<circ> key) (kh (key x)) (\<lambda>e. key e = key x) t' ref"
        "if snd ref then \<exists>e. ht_entries t' ! fst ref = Occupied e \<and> key e = key x \<and> ht_map key t (key x) = Some e
         else ht_map key t (key x) = None"
      using find [of "key x"] by blast
    have s: "ht_small i t'" using small' [OF t'(1)] .
    have p: "fst ref < length (ht_entries t')" using t'(4) by (simp add: found_def)
    have e: "ht_entries (update_ref ref x t') ! fst ref = Occupied x"
      using p by (auto simp: update_ref_def Let_def split: slot.splits)
    show ?thesis
    proof (cases "snd ref")
      case True
      then show ?thesis using Op_insert t' s weaken by (auto simp: ht_insert_def insert_ref_def)
    next
      case False
      then show ?thesis
        using Op_insert t' e update_ref_map [OF t'(2,4)] update_ref_small [OF s, of ref x]
        by (auto simp: ht_insert_def insert_ref_def)
    qed
  next
    case (Op_update x)
    obtain t' ref where t': "ht_find (kh \<circ> key) (kh (key x)) (\<lambda>e. key e = key x) t = Inr (t', ref)"
        "ht_ok key kh t'" "ht_map key t' = ht_map key t"
        "found (kh \<circ> key) (kh (key x)) (\<lambda>e. key e = key x) t' ref"
      using find [of "key x"] by blast
    have "fst ref < length (ht_entries t')" using t'(4) by (simp add: found_def)
    then have "ht_entries (update_ref ref x t') ! fst ref = Occupied x"
      by (auto simp: update_ref_def Let_def split: slot.splits)
    then show ?thesis
      using Op_update t' update_ref_map [OF t'(2,4)] update_ref_small [OF small' [OF t'(1)], of ref x]
      by (auto simp: ht_update_def)
  next
    case (Op_remove k)
    obtain t' ref where t': "ht_find (kh \<circ> key) (kh k) (\<lambda>e. key e = k) t = Inr (t', ref)"
        "ht_ok key kh t'" "ht_map key t' = ht_map key t"
        "found (kh \<circ> key) (kh k) (\<lambda>e. key e = k) t' ref"
      using find [of k] by blast
    then show ?thesis
      using Op_remove remove_ref_map [OF t'(2,4)]
        remove_ref_small [OF ok_inv [OF t'(2)] t'(4) small' [OF t'(1)]] weaken
      by (auto simp: ht_remove_def)
  next
    case Op_clear
    then show ?thesis
      using ht_clear_ok [OF inv] small by (auto simp: ht_ok_def ht_map_def ht_small_def ht_clear_def)
  next
    case (Op_reserve n)
    show ?thesis
    proof (cases "n \<le> ht_capacity t")
      case True
      then show ?thesis using Op_reserve ok small weaken by (simp add: ht_reserve_def)
    next
      case False
      then obtain t' where t': "grow_table (kh \<circ> key) n t = Inr t'" "ht_inv (kh \<circ> key) t'"
          "mset (ht_elems t') = mset (ht_elems t)" "ht_capacity t' \<le> 2 * n" "ht_deleted t' = 0" "ht_count t' = ht_count t"
        using grow_table_ok [OF inv, of n] sane Op_reserve by auto
      then show ?thesis
        using Op_reserve False sane small ht_map_mset [OF t'(3), of key] ok
        by (auto simp: ht_reserve_def ht_ok_def ht_small_def)
    qed
  next
    case (Op_load_factor lf)
    then obtain t' where t': "set_load_factor lf t = Inr t'" "ht_inv (kh \<circ> key) t'" "ht_entries t' = ht_entries t"
      using set_load_factor_ok [OF inv, of lf] sane by auto
    then show ?thesis
      using Op_load_factor ok small
      by (auto simp: ht_ok_def ht_map_def ht_small_def set_load_factor_def update_threshold_def split: if_splits)
  qed
qed

lemma ht_run_ok:
  assumes "ht_ok key kh t" and "ht_small i t" and "i + length ps \<le> 2 ^ 40" and "\<forall>p \<in> set ps. op_sane p"
  shows "\<exists>t' as. ht_run key kh ps t = Inr (t', as) \<and> ht_ok key kh t' \<and>
    map_run key ps (ht_map key t) = (ht_map key t', as)"
  using assms
proof (induction ps arbitrary: t i)
  case (Cons p ps)
  obtain t1 a where t1: "ht_apply key kh p t = Inr (t1, a)" "ht_ok key kh t1" "ht_small (Suc i) t1"
      "map_apply key p (ht_map key t) = (ht_map key t1, a)"
    using ht_apply_ok [OF Cons.prems(1,2), of p] Cons.prems(3,4) by auto
  obtain t' as where "ht_run key kh ps t1 = Inr (t', as)" "ht_ok key kh t'"
      "map_run key ps (ht_map key t1) = (ht_map key t', as)"
    using Cons.IH [OF t1(2,3)] Cons.prems(3,4) by auto
  then show ?case using t1 by simp
qed simp

section \<open>Properties\<close>

text \<open>\<^bold>\<open>C17.\<close> The open-addressing table is a map. From a new table of any power-of-two capacity, every
  sequence of up to \<open>2 ^ 40\<close> finds, inserts, updates, removes, clears, reservations and changes of the
  load factor succeeds (no probe loop runs forever, no assertion fails) and gives exactly the answers
  of a finite map.\<close>

theorem hash_table_is_map:
  assumes "power2_size cap" and "cap \<le> 2 ^ 48" and "0 < lf" and "lf < 100"
    and "length ps \<le> 2 ^ 40" and "\<forall>p \<in> set ps. op_sane p"
  shows "\<exists>t t' as. HashTable_new cap lf = Inr t \<and> ht_run key kh ps t = Inr (t', as) \<and>
    map_run key ps Map.empty = (ht_map key t', as) \<and> ht_ok key kh t'"
proof -
  obtain t where t: "HashTable_new cap lf = Inr t" "ht_inv (kh \<circ> key) t" "ht_elems t = []" "ht_capacity t = cap"
    using HashTable_new_ok [OF assms(1,3,4)] by blast
  have "ht_deleted t = 0"
    using t(1) by (auto simp: HashTable_new_def allocate_table_def update_threshold_def split: if_splits)
  then have "ht_ok key kh t" "ht_small 0 t" "ht_map key t = Map.empty"
    using t assms(2) by (auto simp: ht_ok_def ht_small_def ht_map_def ht_inv_def)
  then show ?thesis using ht_run_ok [of key kh t 0 ps] assms(5,6) t(1) by auto
qed

theorem hash_table_is_map_witness:
  "\<exists>t t' as. HashTable_new 4 85 = Inr t \<and>
    ht_run fst (\<lambda>k. k) [Op_insert (5, 0), Op_insert (9, 1), Op_remove 5, Op_insert (13, 2), Op_find 5, Op_find 13] t
      = Inr (t', as) \<and> as = [Some (5, 0), Some (9, 1), None, Some (13, 2), None, Some (13 :: size_t, 2 :: nat)]"
proof -
  let ?ps = "[Op_insert (5, 0), Op_insert (9, 1), Op_remove 5, Op_insert (13, 2), Op_find 5, Op_find 13]
    :: (size_t, size_t \<times> nat) ht_op list"
  have "power2_size 4" by (auto simp: power2_size_def intro: exI [of _ 2])
  then have "\<exists>t t' as. HashTable_new 4 85 = Inr t \<and> ht_run fst (\<lambda>k. k) ?ps t = Inr (t', as) \<and>
      map_run fst ?ps Map.empty = (ht_map fst t', as) \<and> ht_ok fst (\<lambda>k. k) t'"
    by (rule hash_table_is_map) simp_all
  then show ?thesis by auto
qed

text \<open>\<^bold>\<open>C18.\<close> The probe sequence is exhaustive: in a table of \<open>2 ^ k\<close> slots, the first
  \<open>13 + 2 ^ k\<close> probes for any hash look at every slot. (Thirteen steps use up the 64 bits of the
  perturbation; then the generator \<open>5 * index + 1\<close> has full period.)\<close>

theorem probe_reaches_every_slot:
  assumes "k < 64"
  shows "(\<lambda>n. probe_slot (2 ^ k) h n) ` {0..<13 + 2 ^ k} = {0..<2 ^ k}"
proof (intro subset_antisym subsetI)
  fix i :: nat assume "i \<in> {0..<2 ^ k}"
  then obtain n where "n < 13 + 2 ^ k" "probe_slot (2 ^ k) h n = i"
    using probe_covers [OF assms] by (meson atLeastLessThan_iff)
  then show "i \<in> (\<lambda>n. probe_slot (2 ^ k) h n) ` {0..<13 + 2 ^ k}" by (intro image_eqI [of _ _ n]) auto
next
  fix i assume "i \<in> (\<lambda>n. probe_slot (2 ^ k) h n) ` {0..<13 + 2 ^ k}"
  then obtain n where "i = probe_slot (2 ^ k) h n" by blast
  then show "i \<in> {0..<2 ^ k}" using probe_slot_less [OF assms] by simp
qed

theorem probe_reaches_every_slot_witness:
  "(\<lambda>n. probe_slot (2 ^ 3) 0xDEADBEEF n) ` {0..<21} = {0..<8}"
  using probe_reaches_every_slot [of 3 "0xDEADBEEF"] by simp

text \<open>\<^bold>\<open>C19.\<close> \<open>next_power_of_two\<close> returns the least power of two that is not below its argument, for
  every argument from 1 to \<open>2 ^ 63\<close>.\<close>

theorem next_power_of_two_correct:
  assumes "0 < n" and "n \<le> 2 ^ 63"
  shows "\<exists>k \<le> 63. next_power_of_two n = 2 ^ k \<and> n \<le> 2 ^ k \<and> (\<forall>j \<le> 63. n \<le> 2 ^ j \<longrightarrow> k \<le> j)"
proof -
  have pow: "unat ((2 :: size_t) ^ j) = 2 ^ j" if "j \<le> 63" for j
  proof -
    have "(2::nat) ^ j < 2 ^ 64" using that by (intro power_strict_increasing) auto
    then show ?thesis using unat_of_nat_small [of "2 ^ j", where 'a = 64] by simp
  qed
  have le: "n \<le> 2 ^ j \<longleftrightarrow> unat n \<le> 2 ^ j" if "j \<le> 63" for j
    using pow [OF that] by (simp only: word_le_nat_alt)
  have "unat n \<le> 2 ^ 63" 
    by (rule iffD1 [OF le assms(2)]) simp
  then obtain k where k: "k \<le> 63" "next_power_of_two n = 2 ^ k" "unat n \<le> 2 ^ k"
      "\<forall>j. unat n \<le> 2 ^ j \<longrightarrow> k \<le> j"
    using next_power_of_two_least [OF assms(1)] by blast
  then show ?thesis by (intro exI [of _ k] conjI allI impI) (simp_all only: le)
qed

theorem next_power_of_two_correct_witness:
  "\<exists>k \<le> 63. next_power_of_two 257 = 2 ^ k \<and> 257 \<le> (2 :: size_t) ^ k \<and> (\<forall>j \<le> 63. 257 \<le> (2 :: size_t) ^ j \<longrightarrow> k \<le> j)"
  by (rule next_power_of_two_correct) simp_all

lemma iterate_skip: "iterate_from es (skip_unoccupied es c) = filter is_occupied (drop c es)"
proof (induction "length es - c" arbitrary: c rule: less_induct)
  case less
  show ?case
  proof (cases "c < length es")
    case True
    then have d: "drop c es = es ! c # drop (Suc c) es" by (simp add: Cons_nth_drop_Suc)
    have IH: "iterate_from es (skip_unoccupied es (Suc c)) = filter is_occupied (drop (Suc c) es)"
      using less [of "Suc c"] True by simp
    show ?thesis
    proof (cases "is_occupied (es ! c)")
      case occ: True
      then have "skip_unoccupied es c = c" by (subst skip_unoccupied.simps) simp
      then show ?thesis
        using True occ d IH by (subst iterate_from.simps) (simp add: next_occupied_def)
    next
      case False
      then have "skip_unoccupied es c = skip_unoccupied es (Suc c)"
        using True by (subst skip_unoccupied.simps) simp
      then show ?thesis using False d IH by simp
    qed
  next
    case False
    then have "skip_unoccupied es c = c" by (subst skip_unoccupied.simps) simp
    then show ?thesis using False by (subst iterate_from.simps) simp
  qed
qed

text \<open>\<^bold>\<open>C20.\<close> A loop from \<open>begin()\<close> to \<open>end()\<close> visits exactly the occupied slots, each once, in the order
  of the table.\<close>

theorem iterate_visits_occupied:
  "ht_iterate t = filter is_occupied (ht_entries t)"
proof -
  have "ht_begin t = skip_unoccupied (ht_entries t) 0"
    by (subst skip_unoccupied.simps) (auto simp: ht_begin_def next_occupied_def)
  then show ?thesis by (simp add: ht_iterate_def iterate_skip)
qed

end
