(* ===== verification/Utf8.thy ===== *)
theory Utf8
  imports Prelude
begin

unbundle bit_operations_syntax

text \<open>
  Modified UTF-8 as the VM uses it for names and string constants: the decoder
  \<open>utf8::transform\<close> and the encoder \<open>utf16::transform\<close> (\<^verbatim>\<open>src/src/toolbox/utf8_transform.inc\<close>,
  \<^verbatim>\<open>utf16_transform.inc\<close>, \<^verbatim>\<open>utf_utils.hpp\<close>) and the routines of \<^verbatim>\<open>src/src/vm/utf8.cpp\<close> that run a
  visitor over them. A visitor is a record of its callbacks; its state is threaded through the loop.
  All decoding visitors of \<^verbatim>\<open>utf8.cpp\<close> abort on errors, and so does the model of the decoder.
\<close>

section \<open>Visitors\<close>

record ('s, 'r) visitor =
  vis_utf8 :: "u1 \<Rightarrow> 's \<Rightarrow> 's"
  vis_utf16 :: "u2 \<Rightarrow> 's \<Rightarrow> 's"
  vis_finish :: "'s \<Rightarrow> 'r"
  vis_abort :: "'s \<Rightarrow> 'r"

text \<open>The stubs of \<open>VisitorBase\<close>.\<close>

definition VisitorBase :: "('s \<Rightarrow> 'r) \<Rightarrow> ('s \<Rightarrow> 'r) \<Rightarrow> ('s, 'r) visitor" where
  "VisitorBase fin ab = \<lparr> vis_utf8 = (\<lambda>_ s. s), vis_utf16 = (\<lambda>_ s. s), vis_finish = fin, vis_abort = ab \<rparr>"

section \<open>Decoding and encoding\<close>

fun utf8_transform :: "('s, 'r) visitor \<Rightarrow> u1 list \<Rightarrow> 's \<Rightarrow> 'r" where
  "utf8_transform fn [] s = vis_finish fn s"
| "utf8_transform fn (byte # it) s =
     (if byte AND 0x80 \<noteq> 0 then
        if byte AND 0xe0 = 0xc0 then
          (case it of
             byte2 # it2 \<Rightarrow>
               if byte2 AND 0xc0 \<noteq> 0x80 then vis_abort fn s
               else utf8_transform fn it2
                 (vis_utf16 fn (push_bit 6 (ucast (byte AND 0x1f)) OR ucast (byte2 AND 0x3f))
                   (vis_utf8 fn byte2 (vis_utf8 fn byte s)))
           | [] \<Rightarrow> vis_abort fn s)
        else if byte AND 0xf0 = 0xe0 then
          (case it of
             byte2 # byte3 # it3 \<Rightarrow>
               if byte2 AND 0xc0 \<noteq> 0x80 then vis_abort fn s
               else if byte3 AND 0xc0 \<noteq> 0x80 then vis_abort fn s
               else utf8_transform fn it3
                 (vis_utf16 fn (push_bit 12 (ucast (byte AND 0x0f)) OR push_bit 6 (ucast (byte2 AND 0x3f)) OR
                     ucast (byte3 AND 0x3f))
                   (vis_utf8 fn byte3 (vis_utf8 fn byte2 (vis_utf8 fn byte s))))
           | _ \<Rightarrow> vis_abort fn s)
        else vis_abort fn s
      else if byte = 0 then vis_abort fn s
      else utf8_transform fn it (vis_utf16 fn (ucast byte) (vis_utf8 fn byte s)))"

text \<open>The bytes \<open>utf16::transform\<close> emits for one code unit.\<close>

definition utf16_char_bytes :: "u2 \<Rightarrow> u1 list" where
  "utf16_char_bytes c =
     (if c \<noteq> 0 \<and> c < 0x80 then [ucast c]
      else if c < 0x800 then
        (let high = ucast (drop_bit 6 c); low = ucast (c AND 0x3F) in [high OR 0xC0, low OR 0x80])
      else
        (let low = ucast (c AND 0x3f); mid = ucast (drop_bit 6 c AND 0x3F); high = ucast (drop_bit 12 c)
         in [high OR 0xE0, mid OR 0x80, low OR 0x80]))"

fun utf16_transform :: "('s, 'r) visitor \<Rightarrow> u2 list \<Rightarrow> 's \<Rightarrow> 'r" where
  "utf16_transform fn [] s = vis_finish fn s"
| "utf16_transform fn (c # it) s = utf16_transform fn it (fold (vis_utf8 fn) (utf16_char_bytes c) (vis_utf16 fn c s))"

text \<open>\<open>utf8::decode\<close> with the visitor \<open>CopyUtf8ToUtf16\<close>; the destination buffer is the state.\<close>

definition utf8_decode :: "u1 list \<Rightarrow> u2 list option" where
  "utf8_decode bs =
     utf8_transform ((VisitorBase Some (\<lambda>_. None))\<lparr> vis_utf16 := (\<lambda>c dst. dst @ [c]) \<rparr>) bs []"

definition utf16_encode :: "u2 list \<Rightarrow> u1 list" where
  "utf16_encode cs =
     utf16_transform ((VisitorBase id id)\<lparr> vis_utf8 := (\<lambda>b dst. dst @ [b]) \<rparr>) cs []"

text \<open>\<open>utf8::decode_char\<close>: one code unit and the rest of the input, which must be valid.\<close>

definition decode_char :: "u1 list \<Rightarrow> (u2 \<times> u1 list) option" where
  "decode_char src = (case src of [] \<Rightarrow> None | ch1 # rest \<Rightarrow>
     (let n = drop_bit 4 ch1 in
      if n = 0xC \<or> n = 0xD then
        (case rest of ch2 # r \<Rightarrow>
           Some (push_bit 6 (ucast ch1 AND 0x1F) OR (ucast ch2 AND 0x3F), r) | _ \<Rightarrow> None)
      else if n = 0xE then
        (case rest of ch2 # ch3 # r \<Rightarrow>
           Some (push_bit 12 (ucast ch1 AND 0x1F) OR push_bit 6 (ucast ch2 AND 0x3F) OR (ucast ch3 AND 0x3F), r)
         | _ \<Rightarrow> None)
      else Some (scast ch1, rest)))"

section \<open>Hashing\<close>

definition update_hash :: "size_t \<Rightarrow> u1 \<Rightarrow> size_t" where
  "update_hash hash byte =
     (let hash = hash + ucast byte;
          hash = hash + push_bit 10 hash
      in hash XOR drop_bit 6 hash)"

definition finish_hash :: "size_t \<Rightarrow> size_t" where
  "finish_hash hash =
     (let hash = hash + push_bit 3 hash;
          hash = hash XOR drop_bit 11 hash
      in hash + push_bit 15 hash)"

section \<open>The routines of utf8.cpp\<close>

text \<open>The content of an interned string (\<open>Utf8String::Data\<close>); the terminating zero is not part of
  \<open>u_text\<close>.\<close>

record utf8_data =
  u_hash :: size_t
  u_utf8_size :: nat
  u_utf16_size :: nat
  u_text :: "u1 list"

text \<open>\<open>FromUtf8Builder\<close>: the hash and the number of code units are collected while the text is
  decoded; \<open>finish\<close> yields the key under which the string is interned, with the string that is
  allocated if there is none yet.\<close>

record from_builder =
  b_hash :: size_t
  b_utf8_size :: nat
  b_utf16_size :: nat

definition FromUtf8Builder :: "u1 list \<Rightarrow> (from_builder, utf8_data option) visitor" where
  "FromUtf8Builder text =
     \<lparr> vis_utf8 = (\<lambda>c b. b\<lparr> b_hash := update_hash (b_hash b) c \<rparr>),
       vis_utf16 = (\<lambda>c b. b\<lparr> b_utf16_size := b_utf16_size b + 1 \<rparr>),
       vis_finish = (\<lambda>b. Some \<lparr> u_hash = finish_hash (b_hash b), u_utf8_size = b_utf8_size b,
                             u_utf16_size = b_utf16_size b, u_text = text \<rparr>),
       vis_abort = (\<lambda>b. None) \<rparr>"

definition FromUtf16Builder :: "u2 list \<Rightarrow> (from_builder, utf8_data) visitor" where
  "FromUtf16Builder text =
     \<lparr> vis_utf8 = (\<lambda>c b. b\<lparr> b_hash := update_hash (b_hash b) c, b_utf8_size := b_utf8_size b + 1 \<rparr>),
       vis_utf16 = (\<lambda>c b. b),
       vis_finish = (\<lambda>b. \<lparr> u_hash = finish_hash (b_hash b), u_utf8_size = b_utf8_size b,
                       u_utf16_size = b_utf16_size b, u_text = utf16_encode text \<rparr>),
       vis_abort = (\<lambda>b. \<lparr> u_hash = 0, u_utf8_size = 0, u_utf16_size = 0, u_text = [] \<rparr>) \<rparr>"

text \<open>\<open>string_from_utf8\<close> and \<open>string_from_utf16\<close> with the characters an iterator yields.\<close>

definition string_from_utf8 :: "u1 list \<Rightarrow> utf8_data option" where
  "string_from_utf8 cs =
     utf8_transform (FromUtf8Builder cs) cs \<lparr> b_hash = 0, b_utf8_size = length cs, b_utf16_size = 0 \<rparr>"

definition string_from_utf16 :: "u2 list \<Rightarrow> utf8_data" where
  "string_from_utf16 cs =
     utf16_transform (FromUtf16Builder cs) cs \<lparr> b_hash = 0, b_utf8_size = 0, b_utf16_size = length cs \<rparr>"

text \<open>The iterators that replace a character. Their \<open>operator*\<close> reads into a \<open>char\<close>, whatever the
  character type is, and converts back to it.\<close>

definition SlashToDot8 :: "u1 \<Rightarrow> u1" where
  "SlashToDot8 x = (if x = 0x2F then 0x2E else x)"

definition DotToSlash8 :: "u1 \<Rightarrow> u1" where
  "DotToSlash8 x = (if x = 0x2E then 0x2F else x)"

definition DotToSlash16 :: "u2 \<Rightarrow> u2" where
  "DotToSlash16 x = (let c = (ucast x :: u1) in if c = 0x2E then 0x2F else scast c)"

definition from_utf8 :: "u1 list \<Rightarrow> utf8_data option" where
  "from_utf8 cs = string_from_utf8 cs"

definition from_utf8_dot_to_slash :: "u1 list \<Rightarrow> utf8_data option" where
  "from_utf8_dot_to_slash cs = string_from_utf8 (map DotToSlash8 cs)"

definition from_utf8_slash_to_dot :: "u1 list \<Rightarrow> utf8_data option" where
  "from_utf8_slash_to_dot cs = string_from_utf8 (map SlashToDot8 cs)"

definition from_utf16 :: "u2 list \<Rightarrow> utf8_data" where
  "from_utf16 cs = string_from_utf16 cs"

definition from_utf16_dot_to_slash :: "u2 list \<Rightarrow> utf8_data" where
  "from_utf16_dot_to_slash cs = string_from_utf16 (map DotToSlash16 cs)"

definition utf8_substring :: "utf8_data \<Rightarrow> nat \<Rightarrow> nat \<Rightarrow> utf8_data option" where
  "utf8_substring u from to = from_utf8 (take (to - from) (drop from (u_text u)))"

text \<open>The loop of \<open>is_valid_name\<close>; behind the last byte it reads the terminating zero.\<close>

fun valid_name_bytes :: "u1 list \<Rightarrow> bool" where
  "valid_name_bytes [] \<longleftrightarrow> True"
| "valid_name_bytes (c # it) \<longleftrightarrow>
     \<not> c < 0x20 \<and> \<not> (c = 0xc0 \<and> (case it of [] \<Rightarrow> 0 | d # _ \<Rightarrow> d) = 0x80) \<and> valid_name_bytes it"

definition is_valid_name :: "utf8_data \<Rightarrow> bool" where
  "is_valid_name u = valid_name_bytes (u_text u)"

definition num_codepoints :: "u1 list \<Rightarrow> int" where
  "num_codepoints cs = utf8_transform ((VisitorBase id (\<lambda>_. -1))\<lparr> vis_utf16 := (\<lambda>_ n. n + 1) \<rparr>) cs 0"

definition num_bytes :: "u2 list \<Rightarrow> nat" where
  "num_bytes cs = utf16_transform ((VisitorBase id id)\<lparr> vis_utf8 := (\<lambda>_ n. n + 1) \<rparr>) cs 0"

definition compute_hash :: "u2 list \<Rightarrow> size_t" where
  "compute_hash cs =
     utf16_transform ((VisitorBase finish_hash finish_hash)\<lparr> vis_utf8 := (\<lambda>b h. update_hash h b) \<rparr>) cs 0"

end
