(* ===== verification/Utf8Props.thy ===== *)
theory Utf8Props
  imports Utf8
begin

unbundle bit_operations_syntax

text \<open>
  What the UTF-8 routines compute: the encoder and the decoder are inverse to each other, the
  visitors that count and hash agree with them, the decoder accepts exactly the byte sequences of the
  grammar \<open>mutf8\<close>, which is stated over numbers, and which control characters \<open>is_valid_name\<close> rejects.
\<close>

section \<open>Code units and their bytes\<close>

lemma not_bit_above: "c < 2 ^ n \<Longrightarrow> n \<le> m \<Longrightarrow> \<not> bit (c :: 'a::len word) m"
proof
  assume c: "c < 2 ^ n" and m: "n \<le> m" and b: "bit c m"
  then have l: "m < LENGTH('a)" by (simp add: bit_imp_le_length)
  have "(2::nat) ^ n < 2 ^ LENGTH('a)" using l m by (intro power_strict_increasing) auto
  then have "unat ((2 :: 'a word) ^ n) = 2 ^ n" using unat_of_nat_small [of "2 ^ n", where 'a = 'a] by simp
  then have "unat c < 2 ^ n" using c by (simp only: word_less_nat_alt)
  also have "\<dots> \<le> 2 ^ m" using m by simp
  finally have "\<not> bit (unat c) m" by (simp add: bit_iff_odd)
  then show False using b l by (simp add: bit_unsigned_iff)
qed

lemma below_16: "(n::nat) < 16 \<Longrightarrow> n = 15 \<or> n = 14 \<or> n = 13 \<or> n = 12 \<or> n = 11 \<or> n = 10 \<or>
    n = 9 \<or> n = 8 \<or> n = 7 \<or> n = 6 \<or> n = 5 \<or> n = 4 \<or> n = 3 \<or> n = 2 \<or> n = 1 \<or> n = 0"
  by arith

lemma below_8: "(n::nat) < 8 \<Longrightarrow> n = 7 \<or> n = 6 \<or> n = 5 \<or> n = 4 \<or> n = 3 \<or> n = 2 \<or> n = 1 \<or> n = 0"
  by arith

text \<open>One byte: the code unit is below \<open>0x80\<close>.\<close>

lemma one_byte:
  fixes c :: u2
  assumes "c < 0x80"
  shows "(ucast c :: u1) AND 0x80 = 0" and "ucast (ucast c :: u1) = c"
proof -
  have nb: "\<not> bit c m" if "7 \<le> m" for m using not_bit_above [of c 7 m] assms that by simp
  show "(ucast c :: u1) AND 0x80 = 0"
    by (rule bit_word_eqI, simp, drule below_8) (elim disjE; simp add: bit_simps nb)
  show "ucast (ucast c :: u1) = c"
    by (rule bit_word_eqI, simp, drule below_16) (elim disjE; simp add: bit_simps nb)
qed

text \<open>Two bytes.\<close>

lemma two_bytes:
  fixes c :: u2
  assumes "c < 0x800"
  defines "b1 \<equiv> (ucast (drop_bit 6 c) :: u1) OR 0xC0" and "b2 \<equiv> (ucast (c AND 0x3F) :: u1) OR 0x80"
  shows "b1 AND 0x80 \<noteq> 0" and "b1 AND 0xe0 = 0xc0" and "b2 AND 0xc0 = 0x80"
    and "push_bit 6 (ucast (b1 AND 0x1f)) OR ucast (b2 AND 0x3f) = c"
proof -
  have nb: "\<not> bit c m" if "11 \<le> m" for m using not_bit_above [of c 11 m] assms that by simp
  have "bit (b1 AND 0x80) 7" by (simp add: b1_def bit_simps)
  then show "b1 AND 0x80 \<noteq> 0" by (metis bit_0_eq bot_apply bot_bool_def)
  show "b1 AND 0xe0 = 0xc0" unfolding b1_def
    by (rule bit_word_eqI, simp, drule below_8) (elim disjE; simp add: bit_simps nb)
  show "b2 AND 0xc0 = 0x80" unfolding b2_def
    by (rule bit_word_eqI, simp, drule below_8) (elim disjE; simp add: bit_simps)
  show "push_bit 6 (ucast (b1 AND 0x1f)) OR ucast (b2 AND 0x3f) = c" unfolding b1_def b2_def
    by (rule bit_word_eqI, simp, drule below_16) (elim disjE; simp add: bit_simps nb)
qed

text \<open>Three bytes.\<close>

lemma three_bytes:
  fixes c :: u2
  defines "b1 \<equiv> (ucast (drop_bit 12 c) :: u1) OR 0xE0" and "b2 \<equiv> (ucast (drop_bit 6 c AND 0x3F) :: u1) OR 0x80"
    and "b3 \<equiv> (ucast (c AND 0x3f) :: u1) OR 0x80"
  shows "b1 AND 0x80 \<noteq> 0" and "b1 AND 0xe0 \<noteq> 0xc0" and "b1 AND 0xf0 = 0xe0"
    and "b2 AND 0xc0 = 0x80" and "b3 AND 0xc0 = 0x80"
    and "push_bit 12 (ucast (b1 AND 0x0f)) OR push_bit 6 (ucast (b2 AND 0x3f)) OR ucast (b3 AND 0x3f) = c"
proof -
  have "bit (b1 AND 0x80) 7" by (simp add: b1_def bit_simps)
  then show "b1 AND 0x80 \<noteq> 0" by (metis bit_0_eq bot_apply bot_bool_def)
  have "bit (b1 AND 0xe0) 5" "\<not> bit (0xc0 :: u1) 5" by (simp_all add: b1_def bit_simps)
  then show "b1 AND 0xe0 \<noteq> 0xc0" by metis
  have top: "\<not> bit c 16" "\<not> bit c 17" "\<not> bit c 18" "\<not> bit c 19" by (auto dest: bit_imp_le_length)
  show "b1 AND 0xf0 = 0xe0" unfolding b1_def
    by (rule bit_word_eqI, simp, drule below_8) (elim disjE; simp add: bit_simps top)
  show "b2 AND 0xc0 = 0x80" unfolding b2_def
    by (rule bit_word_eqI, simp, drule below_8) (elim disjE; simp add: bit_simps)
  show "b3 AND 0xc0 = 0x80" unfolding b3_def
    by (rule bit_word_eqI, simp, drule below_8) (elim disjE; simp add: bit_simps)
  show "push_bit 12 (ucast (b1 AND 0x0f)) OR push_bit 6 (ucast (b2 AND 0x3f)) OR ucast (b3 AND 0x3f) = c"
    unfolding b1_def b2_def b3_def
    by (rule bit_word_eqI, simp, drule below_16) (elim disjE; simp add: bit_simps)
qed

text \<open>Decoding the bytes of one code unit reports these bytes and the code unit, whatever the
  visitor and whatever follows.\<close>

lemma transform_char:
  "utf8_transform fn (utf16_char_bytes c @ rest) s =
    utf8_transform fn rest (vis_utf16 fn c (fold (vis_utf8 fn) (utf16_char_bytes c) s))"
proof -
  consider "c \<noteq> 0 \<and> c < 0x80" | "\<not> (c \<noteq> 0 \<and> c < 0x80)" "c < 0x800" | "\<not> c < 0x800" "\<not> (c \<noteq> 0 \<and> c < 0x80)" by blast
  then show ?thesis
  proof cases
    case 1
    then have "(ucast c :: u1) \<noteq> 0" using one_byte(2) [of c] by auto
    then show ?thesis using 1 one_byte [of c] by (simp add: utf16_char_bytes_def)
  next
    case 2
    have "utf16_char_bytes c = [ucast (drop_bit 6 c) OR 0xC0, ucast (c AND 0x3F) OR 0x80]"
      unfolding utf16_char_bytes_def Let_def by (simp only: 2 if_False if_True)
    then show ?thesis using two_bytes [OF 2(2)] by simp
  next
    case 3
    have "utf16_char_bytes c = [ucast (drop_bit 12 c) OR 0xE0, ucast (drop_bit 6 c AND 0x3F) OR 0x80, ucast (c AND 0x3f) OR 0x80]"
      unfolding utf16_char_bytes_def Let_def by (simp only: 3 if_False)
    then show ?thesis using three_bytes [of c] by simp
  qed
qed

section \<open>Whole strings\<close>

definition encode_bytes :: "u2 list \<Rightarrow> u1 list" where
  "encode_bytes cs = concat (map utf16_char_bytes cs)"

lemma encode_bytes_simps [simp]:
  "encode_bytes [] = []" "encode_bytes (c # cs) = utf16_char_bytes c @ encode_bytes cs"
  by (simp_all add: encode_bytes_def)

text \<open>A visitor that ignores the code units sees the encoder as a loop over the bytes; a decoding
  visitor sees code unit by code unit.\<close>

lemma utf16_transform_fold:
  "(\<And>c s. vis_utf16 fn c s = s) \<Longrightarrow>
    utf16_transform fn cs s = vis_finish fn (fold (vis_utf8 fn) (encode_bytes cs) s)"
  by (induction cs arbitrary: s) simp_all

lemma utf8_transform_encode:
  "utf8_transform fn (encode_bytes cs) s =
    vis_finish fn (fold (\<lambda>c s. vis_utf16 fn c (fold (vis_utf8 fn) (utf16_char_bytes c) s)) cs s)"
  by (induction cs arbitrary: s) (simp_all add: transform_char)

lemma fold_snoc: "fold (\<lambda>x xs. xs @ [x]) xs ys = ys @ xs"
  by (induction xs arbitrary: ys) simp_all

lemma fold_Suc: "fold (\<lambda>_ n. n + 1) xs (k :: 'n::comm_semiring_1) = k + of_nat (length xs)"
  by (induction xs arbitrary: k) (simp_all add: algebra_simps)

lemma fold_skip: "fold (\<lambda>_ s. s) xs s = s"
  by (induction xs) simp_all

lemma utf16_encode_bytes: "utf16_encode cs = encode_bytes cs"
  unfolding utf16_encode_def by (subst utf16_transform_fold) (simp_all add: VisitorBase_def fold_snoc)

lemma num_bytes_length: "num_bytes cs = length (encode_bytes cs)"
  unfolding num_bytes_def
  by (subst utf16_transform_fold) (simp_all add: VisitorBase_def fold_Suc del: One_nat_def add_Suc_right Suc_eq_plus1_left)

text \<open>The hash of a string is a function of its bytes.\<close>

definition bytes_hash :: "u1 list \<Rightarrow> size_t" where
  "bytes_hash bs = finish_hash (fold (\<lambda>b h. update_hash h b) bs 0)"

lemma compute_hash_bytes: "compute_hash cs = bytes_hash (encode_bytes cs)"
  unfolding compute_hash_def bytes_hash_def
  by (subst utf16_transform_fold) (simp_all add: VisitorBase_def)

section \<open>What the decoder accepts\<close>

text \<open>The code units of a byte sequence, as the class file format defines them; \<open>None\<close> if it is
  malformed.\<close>

fun units :: "u1 list \<Rightarrow> u2 list option" where
  "units [] = Some []"
| "units (b # bs) =
     (if b AND 0x80 = 0 then if b = 0 then None else map_option (Cons (ucast b)) (units bs)
      else if b AND 0xe0 = 0xc0 then
        (case bs of
           b2 # r \<Rightarrow> if b2 AND 0xc0 = 0x80
             then map_option (Cons (push_bit 6 (ucast (b AND 0x1f)) OR ucast (b2 AND 0x3f))) (units r) else None
         | [] \<Rightarrow> None)
      else if b AND 0xf0 = 0xe0 then
        (case bs of
           b2 # b3 # r \<Rightarrow> if b2 AND 0xc0 = 0x80 \<and> b3 AND 0xc0 = 0x80
             then map_option (Cons (push_bit 12 (ucast (b AND 0x0f)) OR push_bit 6 (ucast (b2 AND 0x3f)) OR
                    ucast (b3 AND 0x3f))) (units r) else None
         | _ \<Rightarrow> None)
      else None)"

text \<open>Every visitor that forgets its state when it aborts computes a fold over bytes and units.\<close>

lemma transform_units:
  fixes upd :: "u1 \<Rightarrow> 's \<Rightarrow> 's"
  assumes ab: "\<And>s. vis_abort fn s = a"
    and comm: "\<And>c b s. vis_utf8 fn b (vis_utf16 fn c s) = vis_utf16 fn c (vis_utf8 fn b s)"
  shows "utf8_transform fn bs s = (case units bs of None \<Rightarrow> a
    | Some cs \<Rightarrow> vis_finish fn (fold (vis_utf16 fn) cs (fold (vis_utf8 fn) bs s)))"
proof (induction bs arbitrary: s rule: units.induct)
  case 1
  then show ?case by simp
next
  case (2 b bs)
  have swap: "fold (vis_utf8 fn) bs (vis_utf16 fn c s) = vis_utf16 fn c (fold (vis_utf8 fn) bs s)" for bs c s
    by (induction bs arbitrary: s) (simp_all add: comm)
  show ?case
  proof (cases "b AND 0x80 = 0")
    case True
    then show ?thesis using 2(1) by (auto simp: ab swap split: option.splits)
  next
    case nz: False
    show ?thesis
    proof (cases "b AND 0xe0 = 0xc0")
      case True
      then show ?thesis using nz 2(2) by (auto simp: ab swap split: option.splits list.splits)
    next
      case False
      then show ?thesis using nz 2(3) by (auto simp: ab swap split: option.splits list.splits)
    qed
  qed
qed

lemma utf8_decode_units: "utf8_decode bs = units bs"
  unfolding utf8_decode_def
  by (subst transform_units [where a = None]) (auto simp: VisitorBase_def fold_snoc fold_skip split: option.splits)

lemma num_codepoints_units:
  "num_codepoints bs = (case units bs of None \<Rightarrow> -1 | Some cs \<Rightarrow> int (length cs))"
  unfolding num_codepoints_def
  by (subst transform_units [where a = "-1"]) (auto simp: VisitorBase_def fold_Suc fold_skip split: option.splits)

lemma fold_builder_units:
  "fold (\<lambda>c b. b\<lparr> b_utf16_size := Suc (b_utf16_size b) \<rparr>) cs b = b\<lparr> b_utf16_size := b_utf16_size b + length cs \<rparr>"
  by (induction cs arbitrary: b) simp_all

lemma fold_builder_hash:
  "fold (\<lambda>c b. b\<lparr> b_hash := update_hash (b_hash b) c \<rparr>) bs b =
    b\<lparr> b_hash := fold (\<lambda>c h. update_hash h c) bs (b_hash b) \<rparr>"
  by (induction bs arbitrary: b) simp_all

definition string_of :: "u1 list \<Rightarrow> u2 list \<Rightarrow> utf8_data" where
  "string_of bs cs = \<lparr> u_hash = bytes_hash bs, u_utf8_size = length bs, u_utf16_size = length cs, u_text = bs \<rparr>"

lemma string_from_utf8_units: "string_from_utf8 bs = map_option (string_of bs) (units bs)"
  unfolding string_from_utf8_def
  by (subst transform_units [where a = None])
    (auto simp: FromUtf8Builder_def fold_builder_units fold_builder_hash string_of_def bytes_hash_def split: option.splits)

lemma fold_builder16:
  "fold (\<lambda>c b. b\<lparr> b_hash := update_hash (b_hash b) c, b_utf8_size := b_utf8_size b + 1 \<rparr>) bs b =
    b\<lparr> b_hash := fold (\<lambda>c h. update_hash h c) bs (b_hash b), b_utf8_size := b_utf8_size b + length bs \<rparr>"
  by (induction bs arbitrary: b) simp_all

lemma string_from_utf16_bytes: "string_from_utf16 cs = string_of (encode_bytes cs) cs"
  unfolding string_from_utf16_def
  by (subst utf16_transform_fold)
    (simp_all add: FromUtf16Builder_def fold_builder16 string_of_def bytes_hash_def utf16_encode_bytes
      del: One_nat_def add_Suc_right Suc_eq_plus1_left)

lemma units_encode: "units (encode_bytes cs) = Some cs"
proof -
  have "utf8_decode (encode_bytes cs) = Some cs"
    unfolding utf8_decode_def utf8_transform_encode by (simp add: VisitorBase_def fold_snoc fold_skip)
  then show ?thesis by (simp add: utf8_decode_units)
qed

section \<open>Iterating over an interned string\<close>

text \<open>What a loop over \<open>utf16_begin()\<close> reads, \<open>n\<close> code units long.\<close>

fun iterate_utf16 :: "nat \<Rightarrow> u1 list \<Rightarrow> (u2 list \<times> u1 list) option" where
  "iterate_utf16 0 src = Some ([], src)"
| "iterate_utf16 (Suc n) src = (case decode_char src of None \<Rightarrow> None
     | Some (c, next) \<Rightarrow> map_option (\<lambda>(cs, r). (c # cs, r)) (iterate_utf16 n next))"

lemma mask_bit: "(b AND m = v) \<Longrightarrow> bit m i \<Longrightarrow> bit b i = bit v i" for b m v :: u1
  by (auto simp: bit_simps)

lemma nibble_ascii: "b AND 0x80 = 0 \<Longrightarrow> drop_bit 4 b \<noteq> 0xC \<and> drop_bit 4 b \<noteq> 0xD \<and> drop_bit 4 b \<noteq> 0xE" for b :: u1
proof -
  assume "b AND 0x80 = 0"
  then have "\<not> bit b 7" using mask_bit [of b "0x80" 0 7] by (simp add: bit_simps)
  then have "\<not> bit (drop_bit 4 b) 3" by (simp add: bit_simps)
  moreover have "bit (0xC :: u1) 3" "bit (0xD :: u1) 3" "bit (0xE :: u1) 3" by simp_all
  ultimately show ?thesis by metis
qed

lemma nibble_two: "b AND 0xe0 = 0xc0 \<Longrightarrow> drop_bit 4 b = 0xC \<or> drop_bit 4 b = 0xD" for b :: u1
proof -
  assume m: "b AND 0xe0 = 0xc0"
  have b: "bit b 7" "bit b 6" "\<not> bit b 5"
    using mask_bit [OF m, of 7] mask_bit [OF m, of 6] mask_bit [OF m, of 5] by (simp_all add: bit_simps)
  have hi: "\<not> bit b 8" "\<not> bit b 9" "\<not> bit b 10" "\<not> bit b 11" by (auto dest: bit_imp_le_length)
  have "drop_bit 4 b = (if bit b 4 then 0xD else 0xC)"
    by (rule bit_word_eqI, simp, drule below_8) (elim disjE; simp add: bit_simps b hi)
  then show ?thesis by auto
qed

lemma nibble_three: "b AND 0xf0 = 0xe0 \<Longrightarrow> drop_bit 4 b = 0xE \<and> \<not> bit b 4" for b :: u1
proof -
  assume m: "b AND 0xf0 = 0xe0"
  have b: "bit b 7" "bit b 6" "bit b 5" "\<not> bit b 4"
    using mask_bit [OF m, of 7] mask_bit [OF m, of 6] mask_bit [OF m, of 5] mask_bit [OF m, of 4]
    by (simp_all add: bit_simps)
  have hi: "\<not> bit b 8" "\<not> bit b 9" "\<not> bit b 10" "\<not> bit b 11" by (auto dest: bit_imp_le_length)
  have "drop_bit 4 b = 0xE"
    by (rule bit_word_eqI, simp, drule below_8) (elim disjE; simp add: bit_simps b hi)
  then show ?thesis using b by blast
qed

lemma scast_ascii: "b AND 0x80 = 0 \<Longrightarrow> (scast b :: u2) = ucast b" for b :: u1
proof -
  assume m: "b AND 0x80 = 0"
  then have "\<not> bit b 7" using mask_bit [OF m, of 7] by (simp add: bit_simps)
  moreover have "\<not> bit b n" if "8 \<le> n" for n using that by (auto dest: bit_imp_le_length)
  ultimately show ?thesis
    by (intro bit_word_eqI, simp, drule_tac below_16) (elim disjE; simp add: bit_simps)
qed

lemma ucast_masks:
  "(ucast b AND 0x1F :: u2) = ucast (b AND 0x1f)" "(ucast b AND 0x3F :: u2) = ucast (b AND 0x3f)" for b :: u1
  by (rule bit_word_eqI, simp, drule below_16, elim disjE; simp add: bit_simps)+

lemma mask_low: "\<not> bit b 4 \<Longrightarrow> b AND 0x1f = b AND 0x0f" for b :: u1
  by (rule bit_word_eqI, simp, drule below_8, elim disjE; simp add: bit_simps)

text \<open>On well-formed text the iterator reads the units and stops exactly at the end.\<close>

lemma iterate_units: "units bs = Some cs \<Longrightarrow> iterate_utf16 (length cs) bs = Some (cs, [])"
proof (induction bs arbitrary: cs rule: units.induct)
  case (2 b bs)
  show ?case
  proof (cases "b AND 0x80 = 0")
    case True
    then obtain ds where ds: "units bs = Some ds" "cs = ucast b # ds" "b \<noteq> 0"
      using 2(4) by (auto split: if_splits)
    then show ?thesis
      using True 2(1) [OF True ds(3) ds(1)] nibble_ascii [OF True] scast_ascii [OF True] by (simp add: decode_char_def Let_def)
  next
    case nz: False
    show ?thesis
    proof (cases "b AND 0xe0 = 0xc0")
      case True
      then obtain b2 r ds where "bs = b2 # r" "units r = Some ds"
          "cs = (push_bit 6 (ucast (b AND 0x1f)) OR ucast (b2 AND 0x3f)) # ds" "b2 AND 0xc0 = 0x80"
        using 2(4) nz by (auto split: if_splits list.splits)
      then show ?thesis
        using nz True 2(2) nibble_two [OF True] by (auto simp: decode_char_def Let_def ucast_masks)
    next
      case ne: False
      then have m: "b AND 0xf0 = 0xe0" using 2(4) nz by (auto split: if_splits)
      then obtain b2 b3 r ds where "bs = b2 # b3 # r" "units r = Some ds"
          "cs = (push_bit 12 (ucast (b AND 0x0f)) OR push_bit 6 (ucast (b2 AND 0x3f)) OR ucast (b3 AND 0x3f)) # ds"
          "b2 AND 0xc0 = 0x80 \<and> b3 AND 0xc0 = 0x80"
        using 2(4) nz ne by (auto split: if_splits list.splits)
      then show ?thesis
        using nz ne m 2(3) nibble_three [OF m] mask_low [of b] by (auto simp: decode_char_def Let_def ucast_masks)
    qed
  qed
qed simp

section \<open>Valid names\<close>

lemma high_bit_ge: "bit b 7 \<Longrightarrow> \<not> b < 0x20" for b :: u1
  using not_bit_above [of b 5 7] by auto

lemma valid_name_continuation:
  assumes m: "b AND 0xc0 = 0x80"
  shows "valid_name_bytes (b # bs) = valid_name_bytes bs"
proof -
  have "bit b 7" "\<not> bit b 6"
    using mask_bit [OF m, of 7] mask_bit [OF m, of 6] by (simp_all add: bit_simps)
  moreover have "bit (0xc0 :: u1) 6" by simp
  ultimately have "\<not> b < 0x20" "b \<noteq> 0xc0" using high_bit_ge by metis+
  then show ?thesis by simp
qed

lemma valid_name_char:
  "valid_name_bytes (utf16_char_bytes c @ rest) \<longleftrightarrow> 0x20 \<le> c \<and> valid_name_bytes rest"
proof -
  consider "c \<noteq> 0 \<and> c < 0x80" | "\<not> (c \<noteq> 0 \<and> c < 0x80)" "c < 0x800" | "\<not> c < 0x800" "\<not> (c \<noteq> 0 \<and> c < 0x80)" by blast
  then show ?thesis
  proof cases
    case 1
    let ?b = "ucast c :: u1"
    have "unat c < 0x80" using 1 by (simp add: word_less_nat_alt)
    then have u: "unat ?b = unat c" by (simp add: unsigned_ucast_eq take_bit_nat_eq_self)
    have "?b \<noteq> 0xc0" using one_byte(1) [of c] 1 by auto
    moreover have "?b < 0x20 \<longleftrightarrow> c < 0x20" by (simp add: word_less_nat_alt u)
    ultimately show ?thesis using 1 by (simp add: utf16_char_bytes_def not_less)
  next
    case 2
    let ?b1 = "(ucast (drop_bit 6 c) :: u1) OR 0xC0" and ?b2 = "(ucast (c AND 0x3F) :: u1) OR 0x80"
    have bytes: "utf16_char_bytes c = [?b1, ?b2]"
      unfolding utf16_char_bytes_def Let_def by (simp only: 2 if_False if_True)
    note two = two_bytes [OF 2(2)]
    have "bit ?b1 7" by (simp add: bit_simps)
    then have ge: "\<not> ?b1 < 0x20" by (rule high_bit_ge)
    show ?thesis
    proof (cases "c = 0")
      case True
      then show ?thesis unfolding bytes by simp
    next
      case False
      then have "\<not> (?b1 = 0xc0 \<and> ?b2 = 0x80)" using two(4) by auto
      moreover have "0x20 \<le> c" using 2(1) False by (simp add: not_less order_trans [of "0x20" "0x80" c])
      ultimately show ?thesis
        using ge valid_name_continuation [OF two(3), of rest] by (simp add: bytes del: valid_name_bytes.simps(2))
          (simp only: valid_name_bytes.simps(2) [of ?b1], simp)
    qed
  next
    case 3
    let ?b1 = "(ucast (drop_bit 12 c) :: u1) OR 0xE0"
    have bytes: "utf16_char_bytes c = [?b1, ucast (drop_bit 6 c AND 0x3F) OR 0x80, ucast (c AND 0x3f) OR 0x80]"
      unfolding utf16_char_bytes_def Let_def by (simp only: 3 if_False)
    note three = three_bytes [of c]
    have "bit ?b1 7" "bit ?b1 5" "\<not> bit (0xc0 :: u1) 5" by (simp_all add: bit_simps)
    then have "\<not> ?b1 < 0x20" "?b1 \<noteq> 0xc0" using high_bit_ge by metis+
    moreover have "0x20 \<le> c" using 3(1) by (simp add: not_less order_trans [of "0x20" "0x800" c])
    ultimately show ?thesis
      using valid_name_continuation [OF three(4)] valid_name_continuation [OF three(5)]
      by (simp only: bytes append.simps valid_name_bytes.simps(2) [of ?b1]) simp
  qed
qed

lemma valid_name_encode: "valid_name_bytes (encode_bytes cs) \<longleftrightarrow> (\<forall>c \<in> set cs. 0x20 \<le> c)"
  by (induction cs) (auto simp: valid_name_char)

section \<open>Bytes as numbers\<close>

lemma unat_top: "unat (push_bit n (drop_bit n b)) = unat b div 2 ^ n * 2 ^ n" for b :: u1
proof -
  have le: "unat b div 2 ^ n * 2 ^ n \<le> unat b" by (rule div_times_less_eq_dividend)
  have "unat b < 2 ^ 8" using unsigned_less [of b, where 'a = nat] by simp
  then have "take_bit 8 (unat b div 2 ^ n * 2 ^ n) = unat b div 2 ^ n * 2 ^ n" using le by (intro take_bit_nat_eq_self) linarith
  moreover have "take_bit 8 (unat b) = unat b" using \<open>unat b < 2 ^ 8\<close> by (rule take_bit_nat_eq_self)
  ultimately show ?thesis unfolding unsigned_push_bit_eq unsigned_drop_bit_eq by (simp add: push_bit_eq_mult drop_bit_eq_div)
qed

lemma top_masks:
  fixes b :: u1
  shows "b AND 0x80 = push_bit 7 (drop_bit 7 b)" "b AND 0xe0 = push_bit 5 (drop_bit 5 b)" "b AND 0xf0 = push_bit 4 (drop_bit 4 b)"
    "b AND 0xc0 = push_bit 6 (drop_bit 6 b)"
proof -
  have top: "\<not> bit b 8" "\<not> bit b 9" "\<not> bit b 10" "\<not> bit b 11" "\<not> bit b 12" "\<not> bit b 13" "\<not> bit b 14" by (auto dest: bit_imp_le_length)
  show "b AND 0x80 = push_bit 7 (drop_bit 7 b)" by (rule bit_word_eqI, simp, drule below_8) (elim disjE; simp add: bit_simps top)
  show "b AND 0xe0 = push_bit 5 (drop_bit 5 b)" by (rule bit_word_eqI, simp, drule below_8) (elim disjE; simp add: bit_simps top)
  show "b AND 0xf0 = push_bit 4 (drop_bit 4 b)" by (rule bit_word_eqI, simp, drule below_8) (elim disjE; simp add: bit_simps top)
  show "b AND 0xc0 = push_bit 6 (drop_bit 6 b)" by (rule bit_word_eqI, simp, drule below_8) (elim disjE; simp add: bit_simps top)
qed

lemma byte_patterns:
  fixes b :: u1
  shows "b AND 0x80 = 0 \<longleftrightarrow> unat b < 0x80" "b AND 0xe0 = 0xc0 \<longleftrightarrow> unat b \<in> {0xC0..0xDF}" "b AND 0xf0 = 0xe0 \<longleftrightarrow> unat b \<in> {0xE0..0xEF}"
    "b AND 0xc0 = 0x80 \<longleftrightarrow> unat b \<in> {0x80..0xBF}"
proof -
  have "b AND 0x80 = 0 \<longleftrightarrow> unat b div 2 ^ 7 * 2 ^ 7 = 0" "b AND 0xe0 = 0xc0 \<longleftrightarrow> unat b div 2 ^ 5 * 2 ^ 5 = 0xc0"
      "b AND 0xf0 = 0xe0 \<longleftrightarrow> unat b div 2 ^ 4 * 2 ^ 4 = 0xe0" "b AND 0xc0 = 0x80 \<longleftrightarrow> unat b div 2 ^ 6 * 2 ^ 6 = 0x80"
    unfolding top_masks word_unat_eq_iff unat_top by simp_all
  then show "b AND 0x80 = 0 \<longleftrightarrow> unat b < 0x80" "b AND 0xe0 = 0xc0 \<longleftrightarrow> unat b \<in> {0xC0..0xDF}" "b AND 0xf0 = 0xe0 \<longleftrightarrow> unat b \<in> {0xE0..0xEF}"
    "b AND 0xc0 = 0x80 \<longleftrightarrow> unat b \<in> {0x80..0xBF}"
    by (auto simp: div_eq_0_iff)
qed

lemma or_low: "k < 2 ^ n \<Longrightarrow> push_bit n m OR k = m * 2 ^ n + (k :: nat)"
proof -
  assume k: "k < 2 ^ n"
  have "\<not> bit (push_bit n m) i \<or> \<not> bit k i" for i
  proof (cases "i < n")
    case True
    then show ?thesis by (simp add: bit_push_bit_iff)
  next
    case False
    then have "k < 2 ^ i" using k by (meson le_less_trans not_less order_less_le_trans power_increasing one_le_numeral)
    then show ?thesis by (simp add: bit_iff_odd)
  qed
  then show ?thesis by (subst disjunctive_add [symmetric]) (simp_all add: push_bit_eq_mult)
qed

lemma low_bits:
  fixes b :: u1
  shows "unat (b AND 0x1f) = unat b mod 32" "unat (b AND 0x3f) = unat b mod 64" "unat (b AND 0x0f) = unat b mod 16"
proof -
  have m: "(0x1f :: u1) = mask 5" "(0x3f :: u1) = mask 6" "(0x0f :: u1) = mask 4" by (simp_all add: mask_eq_exp_minus_1)
  have "unat (b AND mask n) = unat b mod 2 ^ n" for n
    unfolding take_bit_eq_mask [symmetric] unsigned_take_bit_eq by (rule take_bit_eq_mod)
  from this [of 5] this [of 6] this [of 4]
  show "unat (b AND 0x1f) = unat b mod 32" "unat (b AND 0x3f) = unat b mod 64" "unat (b AND 0x0f) = unat b mod 16" unfolding m by simp_all
qed

lemma unat_ucast8: "unat (ucast b :: u2) = unat (b :: u1)"
  using unsigned_less [of b, where 'a = nat] by (simp add: unsigned_ucast_eq take_bit_nat_eq_self)

lemma unat_push: "unat w < 2 ^ k \<Longrightarrow> n + k \<le> 16 \<Longrightarrow> unat (push_bit n w :: u2) = push_bit n (unat w)"
proof -
  assume "unat w < 2 ^ k" "n + k \<le> 16"
  then have "unat w * 2 ^ n < 2 ^ k * 2 ^ n" by simp
  moreover have "(2::nat) ^ k * 2 ^ n \<le> 2 ^ 16" unfolding power_add [symmetric] using \<open>n + k \<le> 16\<close> by (intro power_increasing) simp_all
  ultimately have "unat w * 2 ^ n < 2 ^ 16" by linarith
  then have "take_bit 16 (unat w * 2 ^ n) = unat w * 2 ^ n" by (rule take_bit_nat_eq_self)
  then show ?thesis unfolding unsigned_push_bit_eq by (simp add: push_bit_eq_mult)
qed

lemma unat_two:
  "unat (push_bit 6 (ucast (b AND 0x1f)) OR ucast (b2 AND 0x3f) :: u2) = (unat b mod 32) * 64 + unat b2 mod 64" for b b2 :: u1
proof -
  have "unat (push_bit 6 (ucast (b AND 0x1f)) :: u2) = push_bit 6 (unat b mod 32)"
    by (subst unat_push [where k = 5]) (simp_all add: unat_ucast8 low_bits)
  then show ?thesis using or_low [of "unat b2 mod 64" 6 "unat b mod 32"] by (simp add: unsigned_or_eq unat_ucast8 low_bits)
qed

lemma unat_three:
  "unat (push_bit 12 (ucast (b AND 0x0f)) OR push_bit 6 (ucast (b2 AND 0x3f)) OR ucast (b3 AND 0x3f) :: u2) =
     (unat b mod 16) * 4096 + (unat b2 mod 64) * 64 + unat b3 mod 64" for b b2 b3 :: u1
proof -
  have 1: "unat (push_bit 12 (ucast (b AND 0x0f)) :: u2) = push_bit 12 (unat b mod 16)"
    by (subst unat_push [where k = 4]) (simp_all add: unat_ucast8 low_bits)
  have 2: "unat (push_bit 6 (ucast (b2 AND 0x3f)) :: u2) = push_bit 6 (unat b2 mod 64)"
    by (subst unat_push [where k = 6]) (simp_all add: unat_ucast8 low_bits)
  have 3: "push_bit 6 (unat b2 mod 64) OR unat b3 mod 64 = (unat b2 mod 64) * 64 + unat b3 mod 64" using or_low [of "unat b3 mod 64" 6] by simp
  have "(unat b2 mod 64) * 64 + unat b3 mod 64 < 2 ^ 12"
    using mod_less_divisor [of 64 "unat b2"] mod_less_divisor [of 64 "unat b3"] by simp
  from or_low [OF this] show ?thesis by (simp add: unsigned_or_eq unat_ucast8 low_bits 1 2 3 or.assoc)
qed

section \<open>The grammar\<close>

text \<open>The forms of a code unit in the class file format (JVM specification 4.4.7), over numbers; the forms need not be the
  shortest ones. A text is a sequence of them.\<close>

definition mutf8_char :: "nat list \<Rightarrow> nat \<Rightarrow> bool" where
  "mutf8_char bs c \<longleftrightarrow> (bs = [c] \<and> 0x01 \<le> c \<and> c \<le> 0x7F) \<or>
     (\<exists>x y. bs = [0xC0 + x, 0x80 + y] \<and> x < 0x20 \<and> y < 0x40 \<and> c = x * 0x40 + y) \<or>
     (\<exists>x y z. bs = [0xE0 + x, 0x80 + y, 0x80 + z] \<and> x < 0x10 \<and> y < 0x40 \<and> z < 0x40 \<and> c = x * 0x1000 + y * 0x40 + z)"

definition mutf8 :: "nat list \<Rightarrow> nat list list \<Rightarrow> nat list \<Rightarrow> bool" where
  "mutf8 bs forms cs \<longleftrightarrow> bs = concat forms \<and> list_all2 mutf8_char forms cs"

lemma mutf8_Nil: "mutf8 [] [] []"
  by (simp add: mutf8_def)

lemma mutf8_Cons: "mutf8_char f c \<Longrightarrow> mutf8 bs forms cs \<Longrightarrow> mutf8 (f @ bs) (f # forms) (c # cs)"
  by (simp add: mutf8_def)

lemma mod_form: "n \<in> {a..a + k - 1} \<Longrightarrow> a mod k = 0 \<Longrightarrow> 0 < k \<Longrightarrow> \<exists>x. n = a + x \<and> x < k \<and> n mod k = (x :: nat)"
proof -
  assume n: "n \<in> {a..a + k - 1}" "a mod k = 0" "0 < k"
  then have "n = a + (n - a)" "n - a < k" by auto
  moreover from this n(2) have "n mod k = n - a" by (metis add_0 mod_add_left_eq mod_less)
  ultimately show ?thesis by blast
qed

lemma form_two:
  fixes b b2 :: u1
  assumes "b AND 0xe0 = 0xc0" "b2 AND 0xc0 = 0x80"
  shows "mutf8_char [unat b, unat b2] (unat (push_bit 6 (ucast (b AND 0x1f)) OR ucast (b2 AND 0x3f) :: u2))"
proof -
  obtain x where "unat b = 0xC0 + x" "x < 0x20" "unat b mod 32 = x" using mod_form [of "unat b" "0xC0" 32] assms(1) by (auto simp: byte_patterns)
  moreover obtain y where "unat b2 = 0x80 + y" "y < 0x40" "unat b2 mod 64 = y" using mod_form [of "unat b2" "0x80" 64] assms(2) by (auto simp: byte_patterns)
  ultimately show ?thesis unfolding unat_two mutf8_char_def by auto
qed

lemma form_three:
  fixes b b2 b3 :: u1
  assumes "b AND 0xf0 = 0xe0" "b2 AND 0xc0 = 0x80" "b3 AND 0xc0 = 0x80"
  shows "mutf8_char [unat b, unat b2, unat b3]
    (unat (push_bit 12 (ucast (b AND 0x0f)) OR push_bit 6 (ucast (b2 AND 0x3f)) OR ucast (b3 AND 0x3f) :: u2))"
proof -
  obtain x where "unat b = 0xE0 + x" "x < 0x10" "unat b mod 16 = x" using mod_form [of "unat b" "0xE0" 16] assms(1) by (auto simp: byte_patterns)
  moreover obtain y where "unat b2 = 0x80 + y" "y < 0x40" "unat b2 mod 64 = y" using mod_form [of "unat b2" "0x80" 64] assms(2) by (auto simp: byte_patterns)
  moreover obtain z where "unat b3 = 0x80 + z" "z < 0x40" "unat b3 mod 64 = z" using mod_form [of "unat b3" "0x80" 64] assms(3) by (auto simp: byte_patterns)
  ultimately show ?thesis unfolding unat_three mutf8_char_def by auto
qed

lemma units_mutf8: "units bs = Some cs \<Longrightarrow> \<exists>forms. mutf8 (map unat bs) forms (map unat cs)"
proof (induction bs arbitrary: cs rule: units.induct)
  case 1
  then show ?case using mutf8_Nil by auto
next
  case (2 b bs)
  consider "b AND 0x80 = 0" | "b AND 0x80 \<noteq> 0" "b AND 0xe0 = 0xc0" | "b AND 0x80 \<noteq> 0" "b AND 0xe0 \<noteq> 0xc0" by blast
  then show ?case
  proof cases
    case 1
    then obtain ds where ds: "units bs = Some ds" "cs = ucast b # ds" "b \<noteq> 0" using 2(4) by (auto split: if_splits)
    then obtain fs where "mutf8 (map unat bs) fs (map unat ds)" using 2(1) 1 by blast
    moreover have "unat b \<noteq> 0" using ds(3) by (simp add: unat_eq_0)
    then have "mutf8_char [unat b] (unat b)" using 1 by (auto simp: mutf8_char_def byte_patterns)
    ultimately show ?thesis using mutf8_Cons [of "[unat b]"] ds(2) by (force simp: unat_ucast8)
  next
    case two: 2
    then obtain b2 r ds where r: "bs = b2 # r" "units r = Some ds"
        "cs = (push_bit 6 (ucast (b AND 0x1f)) OR ucast (b2 AND 0x3f)) # ds" "b2 AND 0xc0 = 0x80"
      using 2(4) by (auto split: if_splits list.splits)
    then obtain fs where "mutf8 (map unat r) fs (map unat ds)" using 2(2) two by blast
    from mutf8_Cons [OF form_two [OF two(2) r(4)] this] show ?thesis using r by auto
  next
    case three: 3
    then have m: "b AND 0xf0 = 0xe0" using 2(4) by (auto split: if_splits)
    then obtain b2 b3 r ds where r: "bs = b2 # b3 # r" "units r = Some ds"
        "cs = (push_bit 12 (ucast (b AND 0x0f)) OR push_bit 6 (ucast (b2 AND 0x3f)) OR ucast (b3 AND 0x3f)) # ds"
        "b2 AND 0xc0 = 0x80 \<and> b3 AND 0xc0 = 0x80"
      using 2(4) three by (auto split: if_splits list.splits)
    then obtain fs where "mutf8 (map unat r) fs (map unat ds)" using 2(3) three m by blast
    from mutf8_Cons [OF form_three [OF m] this] show ?thesis using r by auto
  qed
qed

lemma mutf8_units: "mutf8 (map unat bs) forms ns \<Longrightarrow> \<exists>cs. units bs = Some cs"
proof (induction forms arbitrary: bs ns)
  case Nil
  then show ?case by (simp add: mutf8_def)
next
  case (Cons f forms)
  then obtain n ns' where f: "mutf8_char f n" "list_all2 mutf8_char forms ns'" "map unat bs = f @ concat forms"
    by (auto simp: mutf8_def list_all2_Cons1)
  then obtain xs ys where bs: "bs = xs @ ys" "map unat xs = f" "map unat ys = concat forms" by (auto simp: map_eq_append_conv)
  obtain cs where cs: "units ys = Some cs" using Cons.IH [of ys ns'] bs(3) f(2) by (auto simp: mutf8_def)
  from f(1) consider "f = [n]" "1 \<le> n" "n \<le> 0x7F"
    | x y where "f = [0xC0 + x, 0x80 + y]" "x < 0x20" "y < 0x40"
    | x y z where "f = [0xE0 + x, 0x80 + y, 0x80 + z]" "x < 0x10" "y < 0x40" "z < 0x40"
    unfolding mutf8_char_def by blast
  then show ?case
  proof cases
    case 1
    then obtain b where b: "xs = [b]" "unat b = n" using bs(2) by auto
    then have "b AND 0x80 = 0" "b \<noteq> 0" using 1 by (auto simp: byte_patterns)
    then show ?thesis using cs bs b by simp
  next
    case (2 x y)
    then obtain b b2 where b: "xs = [b, b2]" "unat b = 0xC0 + x" "unat b2 = 0x80 + y" using bs(2) by auto
    then have "b AND 0x80 \<noteq> 0" "b AND 0xe0 = 0xc0" "b2 AND 0xc0 = 0x80" using 2 by (auto simp: byte_patterns)
    then show ?thesis using cs bs b by simp
  next
    case (3 x y z)
    then obtain b b2 b3 where b: "xs = [b, b2, b3]" "unat b = 0xE0 + x" "unat b2 = 0x80 + y" "unat b3 = 0x80 + z" using bs(2) by auto
    then have "b AND 0x80 \<noteq> 0" "b AND 0xe0 \<noteq> 0xc0" "b AND 0xf0 = 0xe0" "b2 AND 0xc0 = 0x80" "b3 AND 0xc0 = 0x80" using 3 by (auto simp: byte_patterns)
    then show ?thesis using cs bs b by simp
  qed
qed

text \<open>\<open>is_valid_name\<close>, form by form.\<close>

definition accepted_form :: "nat list \<Rightarrow> bool" where
  "accepted_form f \<longleftrightarrow> (if length f = 1 then 0x20 \<le> hd f else f \<noteq> [0xC0, 0x80])"

lemma valid_name_forms: "mutf8 (map unat bs) forms ns \<Longrightarrow> valid_name_bytes bs \<longleftrightarrow> (\<forall>f \<in> set forms. accepted_form f)"
proof (induction forms arbitrary: bs ns)
  case Nil
  then show ?case by (simp add: mutf8_def)
next
  case (Cons f forms)
  then obtain n ns' where f: "mutf8_char f n" "list_all2 mutf8_char forms ns'" "map unat bs = f @ concat forms"
    by (auto simp: mutf8_def list_all2_Cons1)
  then obtain xs ys where bs: "bs = xs @ ys" "map unat xs = f" "map unat ys = concat forms" by (auto simp: map_eq_append_conv)
  have ih: "valid_name_bytes ys \<longleftrightarrow> (\<forall>f \<in> set forms. accepted_form f)" using Cons.IH [of ys ns'] bs(3) f(2) by (auto simp: mutf8_def)
  have lt: "b < 0x20 \<longleftrightarrow> unat b < 0x20" "b = 0xc0 \<longleftrightarrow> unat b = 0xc0" "b = 0x80 \<longleftrightarrow> unat b = 0x80" for b :: u1
    by (simp_all add: word_less_nat_alt word_unat_eq_iff)
  from f(1) consider "f = [n]" "1 \<le> n" "n \<le> 0x7F"
    | x y where "f = [0xC0 + x, 0x80 + y]" "x < 0x20" "y < 0x40"
    | x y z where "f = [0xE0 + x, 0x80 + y, 0x80 + z]" "x < 0x10" "y < 0x40" "z < 0x40"
    unfolding mutf8_char_def by blast
  then have "valid_name_bytes (xs @ ys) \<longleftrightarrow> accepted_form f \<and> valid_name_bytes ys"
  proof cases
    case 1
    then obtain b where b: "xs = [b]" "unat b = n" using bs(2) by auto
    then show ?thesis using 1 by (auto simp: lt accepted_form_def)
  next
    case (2 x y)
    then obtain b b2 where b: "xs = [b, b2]" "unat b = 0xC0 + x" "unat b2 = 0x80 + y" using bs(2) by auto
    then have "b2 AND 0xc0 = 0x80" using 2 by (auto simp: byte_patterns)
    from valid_name_continuation [OF this, of ys] show ?thesis
      using b 2 by (simp only: b(1) append.simps valid_name_bytes.simps(2) [of b]) (auto simp: lt accepted_form_def)
  next
    case (3 x y z)
    then obtain b b2 b3 where b: "xs = [b, b2, b3]" "unat b = 0xE0 + x" "unat b2 = 0x80 + y" "unat b3 = 0x80 + z" using bs(2) by auto
    then have "b2 AND 0xc0 = 0x80" "b3 AND 0xc0 = 0x80" using 3 by (auto simp: byte_patterns)
    from valid_name_continuation [OF this(1)] valid_name_continuation [OF this(2), of ys] show ?thesis
      using b 3 by (simp only: b(1) append.simps valid_name_bytes.simps(2) [of b]) (auto simp: lt accepted_form_def)
  qed
  then show ?case using ih bs(1) by auto
qed

section \<open>Replacing dots\<close>

lemma sign_extended:
  "unat (scast w :: u2) = (if unat w < 128 then unat w else unat w + 65280)" for w :: u1
proof -
  define x where "x = uint w"
  have x: "0 \<le> x" "x < 256" "int (unat w) = x" using unsigned_less [of w, where 'a = int] by (simp_all add: x_def)
  have "sint w = signed_take_bit 7 x" by (simp only: sint_uint x_def) simp
  then have s: "sint w = (x + 128) mod 256 - 128"
    unfolding signed_take_bit_eq_take_bit_shift take_bit_eq_mod by simp
  have "uint (scast w :: u2) = sint w mod 65536"
    unfolding scast_eq uint_word_of_int by simp
  moreover have "sint w mod 65536 = (if x < 128 then x else x + 65280)"
  proof (cases "x < 128")
    case True
    then have "(x + 128) mod 256 = x + 128" using x by (intro mod_pos_pos_trivial) auto
    then have "sint w = x" by (simp add: s)
    moreover have "x mod 65536 = x" using x by (intro mod_pos_pos_trivial) auto
    ultimately show ?thesis using True by simp
  next
    case False
    have "x + 128 = (x - 128) + 256" by simp
    then have "(x + 128) mod 256 = (x - 128) mod 256" by (simp only: mod_add_self2)
    also have "\<dots> = x - 128" using x False by (intro mod_pos_pos_trivial) auto
    finally have sw: "sint w = x - 256" by (simp add: s)
    have "(x - 256) mod 65536 = ((x - 256) + 65536) mod 65536" by (simp only: mod_add_self2)
    also have "\<dots> = x + 65280" using x by (subst mod_pos_pos_trivial) auto
    finally show ?thesis using False by (simp add: sw)
  qed
  ultimately have "int (unat (scast w :: u2)) = (if x < 128 then x else x + 65280)" by simp
  then show ?thesis using x(3) by presburger
qed

lemma DotToSlash16_cases:
  "DotToSlash16 c = (if c = 0x2E then 0x2F else c) \<longleftrightarrow> c < 0x80 \<or> 0xFF80 \<le> c"
proof -
  define n where "n = unat c"
  define l where "l = n mod 256"
  have n: "n < 65536" using unsigned_less [of c, where 'a = nat] by (simp add: n_def)
  have u: "unat (ucast c :: u1) = l" by (simp add: l_def n_def unsigned_ucast_eq take_bit_eq_mod)
  have D: "unat (DotToSlash16 c) = (if l = 46 then 47 else if l < 128 then l else l + 65280)"
    by (simp add: DotToSlash16_def Let_def word_unat_eq_iff [of "ucast c :: u1"] u sign_extended)
  have E: "unat (if c = 0x2E then 0x2F else c) = (if n = 46 then 47 else n)"
    by (simp add: word_unat_eq_iff [of c] n_def)
  have R: "c < 0x80 \<longleftrightarrow> n < 128" "0xFF80 \<le> c \<longleftrightarrow> 65408 \<le> n"
    by (simp_all add: word_less_nat_alt word_le_nat_alt n_def)
  have nl: "n = 256 * (n div 256) + l" "l < 256" by (simp_all add: l_def)
  have q: "n div 256 \<le> 255" using n by simp
  have "unat (DotToSlash16 c) = unat (if c = 0x2E then 0x2F else c) \<longleftrightarrow> n < 128 \<or> 65408 \<le> n"
    unfolding D E using nl q by (cases "n div 256 = 0"; cases "n div 256 = 255") (auto split: if_splits)
  then show ?thesis unfolding R word_unat_eq_iff .
qed

section \<open>Properties\<close>

text \<open>\<^bold>\<open>C21.\<close> Decoding is the inverse of encoding, for every sequence of UTF-16 code units, unpaired
  surrogates and zeros included.\<close>

theorem utf8_roundtrip: "utf8_decode (utf16_encode cs) = Some cs"
  by (simp add: utf16_encode_bytes utf8_decode_units units_encode)

text \<open>\<^bold>\<open>C22.\<close> A string interned from UTF-16 is the string interned from its encoding: same text, hash
  and sizes. The hash is the one \<open>compute_hash\<close> gives for the UTF-16 text, and \<open>num_bytes\<close> and
  \<open>num_codepoints\<close> are its sizes.\<close>

theorem from_utf16_agrees:
  "from_utf8 (utf16_encode cs) = Some (from_utf16 cs) \<and>
   u_text (from_utf16 cs) = utf16_encode cs \<and> u_hash (from_utf16 cs) = compute_hash cs \<and>
   u_utf8_size (from_utf16 cs) = num_bytes cs \<and> length (u_text (from_utf16 cs)) = num_bytes cs \<and>
   int (u_utf16_size (from_utf16 cs)) = num_codepoints (utf16_encode cs)"
  by (simp add: from_utf8_def from_utf16_def string_from_utf8_units string_from_utf16_bytes utf16_encode_bytes
      units_encode string_of_def compute_hash_bytes num_bytes_length num_codepoints_units)

text \<open>\<^bold>\<open>C23.\<close> \<open>from_utf8\<close> accepts exactly the byte sequences of the grammar of the class file format, and \<open>num_codepoints\<close> and the
  decoder report an error for the others. The string it makes keeps the bytes, its sizes count bytes and code
  units, the decoder gives the code units that the grammar assigns, and an iterator over the code units of the string reads them and stops
  at the end.\<close>

theorem from_utf8_correct:
  "case from_utf8 bs of
     None \<Rightarrow> (\<nexists>forms cs. mutf8 (map unat bs) forms cs) \<and> utf8_decode bs = None \<and> num_codepoints bs = -1
   | Some u \<Rightarrow> u_text u = bs \<and> u_utf8_size u = length bs \<and>
       (\<exists>forms cs. mutf8 (map unat bs) forms (map unat cs) \<and> utf8_decode bs = Some cs \<and> u_utf16_size u = length cs \<and>
          num_codepoints bs = int (length cs) \<and> iterate_utf16 (u_utf16_size u) (u_text u) = Some (cs, []))"
proof (cases "units bs")
  case None
  then have "\<nexists>forms cs. mutf8 (map unat bs) forms cs" using mutf8_units by fastforce
  then show ?thesis using None by (simp add: from_utf8_def string_from_utf8_units utf8_decode_units num_codepoints_units)
next
  case (Some cs)
  then show ?thesis
    using iterate_units [OF Some] units_mutf8 [OF Some]
    by (simp add: from_utf8_def string_from_utf8_units utf8_decode_units num_codepoints_units string_of_def)
qed

text \<open>\<^bold>\<open>C24.\<close> Of the strings that \<open>from_utf8\<close> accepts, \<open>is_valid_name\<close> refuses exactly those with a control character in
  its one-byte form or with the two-byte form of zero. A string made from UTF-16 text, which has the shortest forms, is therefore
  valid if and only if the text has no control character; but a control character in a longer form than necessary passes.\<close>

theorem is_valid_name_correct:
  assumes "from_utf8 bs = Some u" "mutf8 (map unat bs) forms ns"
  shows "(is_valid_name u \<longleftrightarrow> (\<forall>(f, c) \<in> set (zip forms ns). 0x20 \<le> c \<or> 1 < length f \<and> f \<noteq> [0xC0, 0x80])) \<and>
    (is_valid_name (from_utf16 cs) \<longleftrightarrow> (\<forall>c \<in> set cs. 0x20 \<le> c))"
proof
  have u: "u_text u = bs" using assms(1) by (auto simp: from_utf8_def string_from_utf8_units string_of_def)
  have all: "list_all2 mutf8_char forms ns" using assms(2) by (simp add: mutf8_def)
  have "accepted_form f \<longleftrightarrow> 0x20 \<le> c \<or> 1 < length f \<and> f \<noteq> [0xC0, 0x80]" if "mutf8_char f c" for f c
    using that by (auto simp: mutf8_char_def accepted_form_def)
  with all have "(\<forall>f \<in> set forms. accepted_form f) \<longleftrightarrow> (\<forall>(f, c) \<in> set (zip forms ns). 0x20 \<le> c \<or> 1 < length f \<and> f \<noteq> [0xC0, 0x80])"
    by (induction rule: list_all2_induct) auto
  then show "is_valid_name u \<longleftrightarrow> (\<forall>(f, c) \<in> set (zip forms ns). 0x20 \<le> c \<or> 1 < length f \<and> f \<noteq> [0xC0, 0x80])"
    using valid_name_forms [OF assms(2)] by (simp add: is_valid_name_def u)
  show "is_valid_name (from_utf16 cs) \<longleftrightarrow> (\<forall>c \<in> set cs. 0x20 \<le> c)"
    by (simp add: is_valid_name_def from_utf16_def string_from_utf16_bytes string_of_def valid_name_encode)
qed

theorem is_valid_name_correct_witness:
  "\<exists>u. from_utf8 [0xC0, 0x8A] = Some u \<and> utf8_decode [0xC0, 0x8A] = Some [0x0A] \<and> is_valid_name u \<and>
    \<not> is_valid_name (from_utf16 [0x0A]) \<and> is_valid_name (from_utf16 [0x4C, 0x20AC])"
proof -
  have un: "units [0xC0, 0x8A] = Some [0x0A]" by simp
  then obtain u where u: "from_utf8 [0xC0, 0x8A] = Some u" by (simp add: from_utf8_def string_from_utf8_units)
  have "mutf8_char [0xC0, 0x8A] 10" unfolding mutf8_char_def by (intro disjI2 disjI1 exI [of _ 0] exI [of _ 10]) simp
  then have "mutf8 (map unat [0xC0 :: u1, 0x8A]) [[0xC0, 0x8A]] [10]" by (simp add: mutf8_def)
  note both = is_valid_name_correct [OF u this]
  show ?thesis using both [of "[]"] both [of "[0x0A]"] both [of "[0x4C, 0x20AC]"] u un by (intro exI [of _ u]) (simp add: utf8_decode_units)
qed

text \<open>\<^bold>\<open>C25.\<close> The iterator behind \<open>from_utf16_dot_to_slash\<close> goes through a \<open>char\<close>: it replaces dots and keeps
  every other character exactly for characters below \<open>0x80\<close> (and for the block from \<open>0xFF80\<close>, which sign
  extension restores). Every other character of a class name is changed: \<open>U+0141\<close> becomes \<open>A\<close>, and
  \<open>U+012E\<close> becomes a slash.\<close>

theorem dot_to_slash_only_ascii:
  "(DotToSlash16 c = (if c = 0x2E then 0x2F else c) \<longleftrightarrow> c < 0x80 \<or> 0xFF80 \<le> c) \<and>
   from_utf16_dot_to_slash [0x141] = from_utf16 [0x41] \<and> from_utf16_dot_to_slash [0x12E] = from_utf16 [0x2F]"
proof -
  have "DotToSlash16 0x141 = 0x41" "DotToSlash16 0x12E = 0x2F"
    by (simp_all add: DotToSlash16_def)
  then show ?thesis
    using DotToSlash16_cases [of c] by (simp add: from_utf16_dot_to_slash_def from_utf16_def)
qed

end
