(* ===== verification/Interning.thy ===== *)
theory Interning
  imports HashMap Utf8Props
begin

text \<open>
  Interning of strings (\<^verbatim>\<open>src/src/toolbox/intern_table.hpp\<close> and the global table of
  \<^verbatim>\<open>src/src/vm/utf8.cpp\<close>): a fixed number of open-addressing tables, one of which is chosen by the
  hash. A string is named by the address it was allocated at, since the VM compares strings by
  pointer. \<open>intern\<close> gets a builder that compares itself with the strings of the table and is turned
  into a new string only if none matches; there is one kind of builder for UTF-8 text and one for
  UTF-16 text.

  The locale \<open>internable\<close> is the contract between the table and a kind of builder.
\<close>

section \<open>The table\<close>

type_synonym interned = "nat \<times> utf8_data"

record intern_table =
  it_segments :: "interned hash_table list"
  it_next :: nat

definition concurrency_factor :: nat where
  "concurrency_factor = 4"

definition HASHTABLE_UTF_SIZE :: nat where
  "HASHTABLE_UTF_SIZE = 16384"

definition interned_hash :: "interned \<Rightarrow> size_t" where
  "interned_hash e = u_hash (snd e)"

definition Segment_initialize :: "nat \<Rightarrow> nat \<Rightarrow> interned hash_table result" where
  "Segment_initialize initial_capacity load_factor =
     rbind (set_load_factor load_factor HashTable_default) (ht_reserve interned_hash initial_capacity)"

definition InternTable_initialize :: "nat \<Rightarrow> nat \<Rightarrow> intern_table result" where
  "InternTable_initialize initial_capacity load_factor =
     (if \<not> (0 < load_factor \<and> load_factor < 100 \<and> 0 < initial_capacity) then Inl Assertion_failed
      else let cap = unat (divide_rounding_up (of_nat initial_capacity) (of_nat concurrency_factor)) in
        rbind (Segment_initialize cap load_factor)
          (\<lambda>seg. Inr \<lparr> it_segments = replicate concurrency_factor seg, it_next = 0 \<rparr>))"

text \<open>The comparison of an interned string with a builder, by the builder's tag.\<close>

definition equal_utf8 :: "utf8_data \<Rightarrow> interned \<Rightarrow> bool" where
  "equal_utf8 t e \<longleftrightarrow> u_hash (snd e) = u_hash t \<and> u_utf8_size (snd e) = u_utf8_size t \<and> u_text t = u_text (snd e)"

definition equal_utf16 :: "u2 list \<Rightarrow> utf8_data \<Rightarrow> interned \<Rightarrow> bool" where
  "equal_utf16 cs t e \<longleftrightarrow> u_hash (snd e) = u_hash t \<and> u_utf16_size (snd e) = length cs \<and>
     map_option fst (iterate_utf16 (length cs) (u_text (snd e))) = Some cs"

text \<open>\<open>InternTable::intern\<close> with \<open>Segment::intern\<close>; the builder becomes a string at the next
  address if it is inserted.\<close>

definition intern :: "(interned \<Rightarrow> bool) \<Rightarrow> utf8_data \<Rightarrow> intern_table \<Rightarrow> (intern_table \<times> interned option) result" where
  "intern eq t tab =
     (let hash = u_hash t; i = unat hash mod concurrency_factor in
      rbind (ht_insert interned_hash hash eq (it_next tab, t) (it_segments tab ! i))
        (\<lambda>(seg, e).
           let r = slot_entry (ht_entries seg ! e) in
           Inr (tab\<lparr> it_segments := (it_segments tab)[i := seg],
                     it_next := (if r = Some (it_next tab, t) then it_next tab + 1 else it_next tab) \<rparr>, r)))"

datatype utf_op = From_utf8 "u1 list" | From_utf16 "u2 list"

text \<open>\<open>Utf8String::from_utf8\<close> and \<open>from_utf16\<close> with the table: the address of the string, or
  \<open>NULL\<close>.\<close>

fun intern_apply :: "utf_op \<Rightarrow> intern_table \<Rightarrow> (intern_table \<times> nat option) result" where
  "intern_apply (From_utf8 bs) tab =
     (case from_utf8 bs of
        None \<Rightarrow> Inr (tab, None)
      | Some t \<Rightarrow> rbind (intern (equal_utf8 t) t tab) (\<lambda>(tab, r). Inr (tab, map_option fst r)))"
| "intern_apply (From_utf16 cs) tab =
     (let t = from_utf16 cs in
      rbind (intern (equal_utf16 cs t) t tab) (\<lambda>(tab, r). Inr (tab, map_option fst r)))"

fun intern_run :: "utf_op list \<Rightarrow> intern_table \<Rightarrow> (intern_table \<times> nat option list) result" where
  "intern_run [] tab = Inr (tab, [])"
| "intern_run (p # ps) tab =
     rbind (intern_apply p tab) (\<lambda>(tab, r). rbind (intern_run ps tab) (\<lambda>(tab, rs). Inr (tab, r # rs)))"

section \<open>The contract of a builder\<close>

locale internable =
  fixes ehash :: "'e \<Rightarrow> size_t" and wf :: "'e \<Rightarrow> bool" and key :: "'e \<Rightarrow> 'k"
    and valid :: "'t \<Rightarrow> bool" and equals :: "'t \<Rightarrow> 'e \<Rightarrow> bool" and make :: "nat \<Rightarrow> 't \<Rightarrow> 'e"
  assumes matches_hash: "valid t \<Longrightarrow> wf e \<Longrightarrow> equals t e \<Longrightarrow> ehash e = ehash (make a t)"
    and made_wf: "valid t \<Longrightarrow> wf (make a t)"
    and made_matches: "valid t \<Longrightarrow> equals t (make a t)"
    and same_key_matches: "valid t \<Longrightarrow> wf e \<Longrightarrow> key e = key (make a t) \<Longrightarrow> equals t e"
begin

text \<open>Interning finds a matching entry if there is one, and otherwise adds the new one; keys stay
  unique.\<close>

lemma insert_interns:
  fixes b a
  defines "made \<equiv> make a b" and "matches \<equiv> equals b"
  assumes b: "valid b" and inv: "ht_inv ehash t" and cap: "ht_capacity t < 2 ^ 56"
    and wfs: "\<forall>e \<in> set (ht_elems t). wf e" and d: "distinct (map key (ht_elems t))"
    and small: "ht_small i t" and i: "i < 2 ^ 40"
  shows "\<exists>t' p e. ht_insert ehash (ehash made) matches made t = Inr (t', p) \<and>
    slot_entry (ht_entries t' ! p) = Some e \<and> matches e \<and> ht_inv ehash t' \<and> ht_small (Suc i) t' \<and>
    distinct (map key (ht_elems t')) \<and>
    (e \<in> set (ht_elems t) \<and> set (ht_elems t') = set (ht_elems t) \<or>
     e = made \<and> set (ht_elems t') = insert made (set (ht_elems t)) \<and> (\<forall>x \<in> set (ht_elems t). \<not> matches x))"
proof -
  have law: "ehash x = ehash made" if "x \<in> set (ht_elems t)" "matches x" for x
    using that wfs matches_hash [OF b] by (auto simp: made_def matches_def)
  obtain t1 ref where t1: "ht_find ehash (ehash made) matches t = Inr (t1, ref)" "ht_inv ehash t1"
      "mset (ht_elems t1) = mset (ht_elems t)" "found ehash (ehash made) matches t1 ref"
    using ht_find_ok [OF inv cap, of matches "ehash made"] law by blast
  have s1: "set (ht_elems t1) = set (ht_elems t)" using t1(3) by (metis set_mset_mset)
  have d1: "distinct (map key (ht_elems t1))" using distinct_keys_mset [OF t1(3)] d by blast
  have sm1: "ht_small i t1" using ht_find_small [OF inv small i t1(1)] .
  show ?thesis
  proof (cases "snd ref")
    case True
    then obtain x where x: "ht_entries t1 ! fst ref = Occupied x" "matches x" "fst ref < length (ht_entries t1)"
      using t1(4) by (auto simp: found_def)
    then have "x \<in> set (ht_elems t1)" unfolding set_occs by (metis nth_mem)
    moreover have "ht_insert ehash (ehash made) matches made t = Inr (t1, fst ref)"
      using t1(1) True by (simp add: ht_insert_def insert_ref_def)
    moreover have "ht_small (Suc i) t1" using sm1 by (simp add: ht_small_def)
    ultimately show ?thesis using x t1(2) d1 s1 by (intro exI [of _ t1] exI [of _ "fst ref"] exI [of _ x]) simp
  next
    case False
    then have none: "\<forall>x \<in> set (ht_elems t1). \<not> matches x" and free: "\<not> is_occupied (ht_entries t1 ! fst ref)"
      and p: "fst ref < length (ht_entries t1)"
      using t1(4) by (auto simp: found_def)
    let ?t = "update_ref ref made t1"
    have u: "ht_inv ehash ?t" "mset (ht_elems ?t) + mset (occs [ht_entries t1 ! fst ref]) = mset (ht_elems t1) + {#made#}"
      using update_ref_ok [OF t1(2,4) refl] law s1 by auto
    have "occs [ht_entries t1 ! fst ref] = []" using free by (cases "ht_entries t1 ! fst ref") simp_all
    then have ms: "mset (ht_elems ?t) = mset (made # ht_elems t1)" using u(2) by simp
    have "key made \<notin> key ` set (ht_elems t1)"
    proof
      assume "key made \<in> key ` set (ht_elems t1)"
      then obtain x where x: "x \<in> set (ht_elems t1)" "key x = key made" by auto
      then have "matches x" using same_key_matches [OF b, of x a] wfs s1 by (simp add: made_def matches_def)
      then show False using none x by blast
    qed
    then have "distinct (map key (made # ht_elems t1))" using d1 by simp
    then have d2: "distinct (map key (ht_elems ?t))" using distinct_keys_mset [OF ms] by blast
    have s2: "set (ht_elems ?t) = insert made (set (ht_elems t))" using mset_eq_setD [OF ms] s1 by simp
    have ins: "ht_insert ehash (ehash made) matches made t = Inr (?t, fst ref)"
      using t1(1) False by (simp add: ht_insert_def insert_ref_def)
    have "slot_entry (ht_entries ?t ! fst ref) = Some made"
      using p by (auto simp: update_ref_def Let_def split: slot.splits)
    then show ?thesis
      using ins u(1) d2 s2 none s1 made_matches [OF b, of a, folded made_def matches_def] update_ref_small [OF sm1, of ref made]
      by (intro exI [of _ ?t] exI [of _ "fst ref"] exI [of _ made]) simp
  qed
qed

end

section \<open>Both kinds of builders fulfil it\<close>

text \<open>The strings a table holds.\<close>

definition wf_string :: "interned \<Rightarrow> bool" where
  "wf_string e \<longleftrightarrow> (\<exists>cs. units (u_text (snd e)) = Some cs \<and> snd e = string_of (u_text (snd e)) cs)"

definition string_key :: "interned \<Rightarrow> u1 list" where
  "string_key e = u_text (snd e)"

lemma wf_stringE:
  assumes "wf_string (a, d)"
  obtains cs where "units (u_text d) = Some cs" "d = string_of (u_text d) cs" "u_hash d = bytes_hash (u_text d)"
    "u_utf8_size d = length (u_text d)" "u_utf16_size d = length cs"
proof -
  obtain cs where "units (u_text d) = Some cs" "d = string_of (u_text d) cs" using assms by (auto simp: wf_string_def)
  moreover from this have "u_hash d = bytes_hash (u_text d)" "u_utf8_size d = length (u_text d)" "u_utf16_size d = length cs"
    by (metis string_of_def utf8_data.select_convs(1,2,3))+
  ultimately show thesis by (rule that)
qed

lemma from_utf8_wf: "from_utf8 bs = Some t \<Longrightarrow> wf_string (a, t) \<and> u_text t = bs"
  by (auto simp: from_utf8_def string_from_utf8_units wf_string_def string_of_def)

lemma from_utf16_wf: "wf_string (a, from_utf16 cs) \<and> u_text (from_utf16 cs) = encode_bytes cs"
  by (auto simp: from_utf16_def string_from_utf16_bytes wf_string_def string_of_def units_encode)

section \<open>The whole table\<close>

definition strings :: "intern_table \<Rightarrow> interned list" where
  "strings tab = concat (map ht_elems (it_segments tab))"

definition seg_ok :: "nat \<Rightarrow> nat \<Rightarrow> interned hash_table \<Rightarrow> bool" where
  "seg_ok n i seg \<longleftrightarrow> ht_inv interned_hash seg \<and> ht_small n seg \<and> distinct (map string_key (ht_elems seg)) \<and>
     (\<forall>e \<in> set (ht_elems seg). wf_string e \<and> unat (interned_hash e) mod concurrency_factor = i)"

definition table_ok :: "nat \<Rightarrow> intern_table \<Rightarrow> bool" where
  "table_ok n tab \<longleftrightarrow> length (it_segments tab) = concurrency_factor \<and>
     (\<forall>i < concurrency_factor. seg_ok n i (it_segments tab ! i)) \<and>
     (\<forall>e \<in> set (strings tab). fst e < it_next tab) \<and> inj_on fst (set (strings tab))"

lemma in_strings: "e \<in> set (strings tab) \<longleftrightarrow> (\<exists>i < length (it_segments tab). e \<in> set (ht_elems (it_segments tab ! i)))"
  by (simp add: strings_def) (metis in_set_conv_nth)

lemma strings_update:
  assumes i: "i < length (it_segments tab)" and sub: "set (ht_elems (it_segments tab ! i)) \<subseteq> set (ht_elems seg)"
  shows "set (strings (tab\<lparr> it_segments := (it_segments tab)[i := seg], it_next := k \<rparr>)) =
    set (strings tab) \<union> set (ht_elems seg)" (is "set (strings ?tab) = _")
proof (intro set_eqI iffI)
  fix x assume "x \<in> set (strings ?tab)"
  then show "x \<in> set (strings tab) \<union> set (ht_elems seg)"
    using i by (auto simp: in_strings nth_list_update split: if_splits)
next
  fix x assume "x \<in> set (strings tab) \<union> set (ht_elems seg)"
  then consider j where "j < length (it_segments tab)" "x \<in> set (ht_elems (it_segments tab ! j))" "j \<noteq> i"
    | "x \<in> set (ht_elems seg)"
    using sub by (auto simp: in_strings)
  then show "x \<in> set (strings ?tab)"
  proof cases
    case (1 j)
    then show ?thesis unfolding in_strings by (intro exI [of _ j]) (simp add: nth_list_update)
  next
    case 2
    then show ?thesis unfolding in_strings using i by (intro exI [of _ i]) simp
  qed
qed

lemma wf_hash: "wf_string e \<Longrightarrow> interned_hash e = bytes_hash (string_key e)"
  by (cases e) (auto simp: interned_hash_def string_key_def elim: wf_stringE)

lemma seg_ok_mono: "seg_ok n i seg \<Longrightarrow> n \<le> m \<Longrightarrow> seg_ok m i seg"
  by (auto simp: seg_ok_def ht_small_def)

text \<open>No text occurs twice, not even in different segments.\<close>

lemma strings_unique:
  assumes "table_ok n tab" and "e \<in> set (strings tab)" and "e' \<in> set (strings tab)" and "string_key e = string_key e'"
  shows "e = e'"
proof -
  obtain i j where ij: "i < concurrency_factor" "j < concurrency_factor"
      "e \<in> set (ht_elems (it_segments tab ! i))" "e' \<in> set (ht_elems (it_segments tab ! j))"
    using assms by (auto simp: in_strings table_ok_def)
  have ok: "seg_ok n i (it_segments tab ! i)" "seg_ok n j (it_segments tab ! j)"
    using assms(1) ij by (auto simp: table_ok_def)
  have "interned_hash e = bytes_hash (string_key e)" "interned_hash e' = bytes_hash (string_key e')"
    using ok ij(3,4) wf_hash by (auto simp: seg_ok_def)
  moreover have "unat (interned_hash e) mod concurrency_factor = i" "unat (interned_hash e') mod concurrency_factor = j"
    using ok ij(3,4) by (simp_all add: seg_ok_def)
  ultimately have "i = j" using assms(4) by simp
  then show ?thesis using ok ij assms(4) by (auto simp: seg_ok_def distinct_map inj_on_def)
qed

text \<open>Builders of strings, and what interning one does to the table.\<close>

locale string_builder = internable interned_hash wf_string string_key valid equals "\<lambda>a b. (a, content b)"
  for valid :: "'b \<Rightarrow> bool" and equals :: "'b \<Rightarrow> interned \<Rightarrow> bool" and content :: "'b \<Rightarrow> utf8_data"
begin

lemma intern_ok:
  assumes ok: "table_ok n tab" and n: "n < 2 ^ 40" and b: "valid b"
  shows "\<exists>tab' e. intern (equals b) (content b) tab = Inr (tab', Some e) \<and> table_ok (Suc n) tab' \<and>
    equals b e \<and> e \<in> set (strings tab') \<and> set (strings tab) \<subseteq> set (strings tab') \<and>
    set (strings tab') \<subseteq> insert (it_next tab, content b) (set (strings tab))"
proof -
  let ?t = "content b" and ?segs = "it_segments tab"
  let ?made = "(it_next tab, ?t)" and ?i = "unat (u_hash ?t) mod concurrency_factor"
  have i: "?i < concurrency_factor" "?i < length ?segs" using ok by (simp_all add: concurrency_factor_def table_ok_def)
  have seg: "seg_ok n ?i (?segs ! ?i)" using ok i by (simp add: table_ok_def)
  have cap: "ht_capacity (?segs ! ?i) < 2 ^ 56" using seg by (simp add: seg_ok_def ht_small_def)
  obtain seg' p e where ins: "ht_insert interned_hash (u_hash ?t) (equals b) ?made (?segs ! ?i) = Inr (seg', p)"
      "slot_entry (ht_entries seg' ! p) = Some e" "equals b e" "ht_inv interned_hash seg'" "ht_small (Suc n) seg'"
      "distinct (map string_key (ht_elems seg'))"
      "e \<in> set (ht_elems (?segs ! ?i)) \<and> set (ht_elems seg') = set (ht_elems (?segs ! ?i)) \<or>
       e = ?made \<and> set (ht_elems seg') = insert ?made (set (ht_elems (?segs ! ?i)))"
    using insert_interns [of b "?segs ! ?i" n "it_next tab"] b cap n seg
    by (auto simp: seg_ok_def interned_hash_def)
  let ?tab = "tab\<lparr> it_segments := ?segs[?i := seg'], it_next := (if Some e = Some ?made then it_next tab + 1 else it_next tab) \<rparr>"
  have run: "intern (equals b) ?t tab = Inr (?tab, Some e)" using ins(1,2) by (simp add: intern_def Let_def)
  have sub: "set (ht_elems (?segs ! ?i)) \<subseteq> set (ht_elems seg')" using ins(7) by auto
  have strs: "set (strings ?tab) = set (strings tab) \<union> set (ht_elems seg')"
    using strings_update [OF i(2) sub] .
  have old: "x \<in> set (strings tab)" if "x \<in> set (ht_elems (?segs ! ?i))" for x
    using that i(2) by (auto simp: in_strings)
  have e: "e \<in> set (ht_elems seg')" using ins(7) by auto
  have new: "set (strings ?tab) = (if e = ?made then insert ?made (set (strings tab)) else set (strings tab))"
    using strs ins(7) old by auto
  have wfs: "\<forall>x \<in> set (ht_elems seg'). wf_string x \<and> unat (interned_hash x) mod concurrency_factor = ?i"
    using ins(7) seg made_wf [OF b, of "it_next tab"] by (auto simp: seg_ok_def interned_hash_def)
  have below: "\<forall>x \<in> set (strings tab). fst x < it_next tab" using ok by (simp add: table_ok_def)
  have "seg_ok (Suc n) j (it_segments ?tab ! j)" if "j < concurrency_factor" for j
    using that ok i ins(4-6) wfs seg_ok_mono [of n j "?segs ! j" "Suc n"]
    by (auto simp: table_ok_def nth_list_update seg_ok_def)
  moreover have "inj_on fst (set (strings ?tab))"
    unfolding new using ok below by (auto simp: table_ok_def)
  moreover have "\<forall>x \<in> set (strings ?tab). fst x < it_next ?tab" unfolding new using below by auto
  ultimately have "table_ok (Suc n) ?tab" using ok by (simp add: table_ok_def)
  moreover have "set (strings ?tab) \<subseteq> insert ?made (set (strings tab))" unfolding new by auto
  ultimately show ?thesis using run ins(3) e strs by (intro exI [of _ ?tab] exI [of _ e]) simp
qed

end

interpretation i8: string_builder "\<lambda>t. wf_string (0, t)" equal_utf8 "\<lambda>t. t"
proof unfold_locales
  fix t e a assume t: "wf_string (0, t)"
  then show "wf_string (a, t)" by (simp add: wf_string_def)
  show "equal_utf8 t (a, t)" by (simp add: equal_utf8_def)
  assume e: "wf_string e"
  show "equal_utf8 t e \<Longrightarrow> interned_hash e = interned_hash (a, t)" by (simp add: equal_utf8_def interned_hash_def)
  obtain b d where d: "e = (b, d)" by (cases e)
  assume "string_key e = string_key (a, t)"
  then show "equal_utf8 t e"
    using e t by (auto simp: d equal_utf8_def string_key_def elim!: wf_stringE)
qed

interpretation i16: string_builder "\<lambda>_. True" "\<lambda>cs. equal_utf16 cs (from_utf16 cs)" from_utf16
proof unfold_locales
  fix cs e a
  show "wf_string (a, from_utf16 cs)" using from_utf16_wf by blast
  have it: "iterate_utf16 (length cs) (encode_bytes cs) = Some (cs, [])"
    by (rule iterate_units) (rule units_encode)
  then show "equal_utf16 cs (from_utf16 cs) (a, from_utf16 cs)"
    by (simp add: equal_utf16_def from_utf16_def string_from_utf16_bytes string_of_def)
  show "wf_string e \<Longrightarrow> equal_utf16 cs (from_utf16 cs) e \<Longrightarrow> interned_hash e = interned_hash (a, from_utf16 cs)"
    by (simp add: equal_utf16_def interned_hash_def)
  assume e: "wf_string e" and k: "string_key e = string_key (a, from_utf16 cs)"
  obtain b d where d: "e = (b, d)" by (cases e)
  have t: "u_text d = encode_bytes cs" using k from_utf16_wf by (simp add: string_key_def d)
  obtain cs' where cs': "units (u_text d) = Some cs'" "d = string_of (u_text d) cs'"
    using e d by (auto simp: wf_string_def)
  then have "cs' = cs" using t units_encode by simp
  then have "d = from_utf16 cs" using cs'(2) t by (simp add: from_utf16_def string_from_utf16_bytes)
  then show "equal_utf16 cs (from_utf16 cs) e"
    using it by (simp add: d equal_utf16_def from_utf16_def string_from_utf16_bytes string_of_def)
qed

section \<open>Sequences of calls\<close>

fun op_text :: "utf_op \<Rightarrow> u1 list" where
  "op_text (From_utf8 bs) = bs"
| "op_text (From_utf16 cs) = encode_bytes cs"

lemma intern_apply_ok:
  assumes ok: "table_ok n tab" and n: "n < 2 ^ 40"
  shows "\<exists>tab' r. intern_apply p tab = Inr (tab', r) \<and> table_ok (Suc n) tab' \<and> set (strings tab) \<subseteq> set (strings tab') \<and>
    (\<forall>x \<in> set (strings tab') - set (strings tab). u_text (snd x) = op_text p) \<and>
    (case p of
       From_utf8 bs \<Rightarrow> (case r of None \<Rightarrow> units bs = None
         | Some a \<Rightarrow> units bs \<noteq> None \<and> (\<exists>d. (a, d) \<in> set (strings tab') \<and> u_text d = bs))
     | From_utf16 cs \<Rightarrow> (\<exists>a d. r = Some a \<and> (a, d) \<in> set (strings tab') \<and> units (u_text d) = Some cs))"
proof (cases p)
  case (From_utf8 bs)
  show ?thesis
  proof (cases "from_utf8 bs")
    case None
    then have "units bs = None" by (simp add: from_utf8_def string_from_utf8_units)
    moreover have "table_ok (Suc n) tab" using ok seg_ok_mono by (auto simp: table_ok_def)
    ultimately show ?thesis using From_utf8 None by simp
  next
    case (Some t)
    then have wf: "wf_string (0, t)" "u_text t = bs" "units bs \<noteq> None"
      using from_utf8_wf [OF Some] by (auto simp: from_utf8_def string_from_utf8_units)
    obtain tab' e where "intern (equal_utf8 t) t tab = Inr (tab', Some e)" "table_ok (Suc n) tab'"
        "equal_utf8 t e" "e \<in> set (strings tab')" "set (strings tab) \<subseteq> set (strings tab')"
        "set (strings tab') \<subseteq> insert (it_next tab, t) (set (strings tab))"
      using i8.intern_ok [OF ok n wf(1)] by blast
    then show ?thesis using From_utf8 Some wf by (cases e) (auto simp: equal_utf8_def)
  qed
next
  case (From_utf16 cs)
  obtain tab' e where r: "intern (equal_utf16 cs (from_utf16 cs)) (from_utf16 cs) tab = Inr (tab', Some e)"
      "table_ok (Suc n) tab'" "equal_utf16 cs (from_utf16 cs) e" "e \<in> set (strings tab')"
      "set (strings tab) \<subseteq> set (strings tab')" "set (strings tab') \<subseteq> insert (it_next tab, from_utf16 cs) (set (strings tab))"
    using i16.intern_ok [OF ok n TrueI] by blast
  obtain a d where e: "e = (a, d)" by (cases e)
  have "wf_string e" using r(2,4) by (auto simp: in_strings table_ok_def seg_ok_def)
  then obtain cs' where cs': "units (u_text d) = Some cs'" "u_utf16_size d = length cs'"
    unfolding e by (rule wf_stringE)
  have "cs' = cs" using r(3) iterate_units [OF cs'(1)] cs'(2) by (auto simp: e equal_utf16_def)
  moreover have "\<forall>x \<in> set (strings tab') - set (strings tab). u_text (snd x) = encode_bytes cs" using r(6) from_utf16_wf by auto
  ultimately show ?thesis using From_utf16 r e cs'(1) by auto
qed

definition answered :: "intern_table \<Rightarrow> utf_op \<Rightarrow> nat option \<Rightarrow> bool" where
  "answered tab p r \<longleftrightarrow> (case p of
       From_utf8 bs \<Rightarrow> (case r of None \<Rightarrow> units bs = None
         | Some a \<Rightarrow> units bs \<noteq> None \<and> (\<exists>d. (a, d) \<in> set (strings tab) \<and> u_text d = bs))
     | From_utf16 cs \<Rightarrow> (\<exists>a d. r = Some a \<and> (a, d) \<in> set (strings tab) \<and> units (u_text d) = Some cs))"

lemma answered_mono: "answered tab p r \<Longrightarrow> set (strings tab) \<subseteq> set (strings tab') \<Longrightarrow> answered tab' p r"
  by (auto simp: answered_def split: utf_op.splits option.splits) 

lemma intern_run_ok:
  "table_ok n tab \<Longrightarrow> n + length ps \<le> 2 ^ 40 \<Longrightarrow>
    \<exists>tab' rs m. intern_run ps tab = Inr (tab', rs) \<and> table_ok m tab' \<and> set (strings tab) \<subseteq> set (strings tab') \<and>
      (\<forall>x \<in> set (strings tab') - set (strings tab). u_text (snd x) \<in> op_text ` set ps) \<and> list_all2 (answered tab') ps rs"
proof (induction ps arbitrary: tab n)
  case Nil
  then show ?case by auto
next
  case (Cons p ps)
  obtain tab1 r where 1: "intern_apply p tab = Inr (tab1, r)" "table_ok (Suc n) tab1"
      "set (strings tab) \<subseteq> set (strings tab1)" "answered tab1 p r" "\<forall>x \<in> set (strings tab1) - set (strings tab). u_text (snd x) = op_text p"
    using intern_apply_ok [OF Cons.prems(1), of p] Cons.prems(2) unfolding answered_def by auto
  obtain tab' rs m where 2: "intern_run ps tab1 = Inr (tab', rs)" "table_ok m tab'"
      "set (strings tab1) \<subseteq> set (strings tab')" "list_all2 (answered tab') ps rs"
      "\<forall>x \<in> set (strings tab') - set (strings tab1). u_text (snd x) \<in> op_text ` set ps"
    using Cons.IH [OF 1(2)] Cons.prems(2) by auto
  have "u_text (snd x) \<in> op_text ` set (p # ps)" if "x \<in> set (strings tab')" "x \<notin> set (strings tab)" for x
    using 1(5) 2(5) that by (cases "x \<in> set (strings tab1)") auto
  then show ?case using 1 2 answered_mono [OF 1(4) 2(3)] by (intro exI [of _ tab'] exI [of _ "r # rs"] exI [of _ m]) auto
qed

lemma initialize_ok:
  assumes "0 < cap" and "cap \<le> 2 ^ 40" and "0 < lf" and "lf < 100"
  shows "\<exists>tab. InternTable_initialize cap lf = Inr tab \<and> table_ok 0 tab \<and> strings tab = []"
proof -
  let ?n = "unat (divide_rounding_up (of_nat cap) (of_nat concurrency_factor))"
  have "unat (3 + of_nat cap :: size_t) = cap + 3"
    using unat_of_nat_small [of "3 + cap", where 'a = 64] assms(2) by simp
  then have n: "?n = (cap + 3) div 4" by (simp add: divide_rounding_up_def concurrency_factor_def unat_div)
  obtain t1 where t1: "set_load_factor lf HashTable_default = Inr t1" "ht_inv interned_hash t1" "ht_entries t1 = []"
    using set_load_factor_ok [of interned_hash HashTable_default lf] HashTable_default_ok assms(3,4)
    by (auto simp: HashTable_default_def)
  have c1: "ht_capacity t1 = 0" using t1(2,3) by (simp add: ht_inv_def)
  have "0 < ?n" "?n \<le> 2 ^ 40" using n assms(1,2) by auto
  then obtain t2 where t2: "grow_table interned_hash ?n t1 = Inr t2" "ht_inv interned_hash t2" "mset (ht_elems t2) = mset (ht_elems t1)"
      "ht_capacity t2 \<le> 2 * ?n" "ht_deleted t2 = 0" "ht_count t2 = ht_count t1"
    using grow_table_ok [OF t1(2), of ?n] c1 by auto
  have e: "ht_elems t2 = []" using t2(3) t1(3) by simp
  have "ht_small 0 t2"
    using t2(2,4,5) e \<open>?n \<le> 2 ^ 40\<close> by (simp add: ht_small_def ht_inv_def)
  then have "seg_ok 0 i t2" for i using t2(2) e by (simp add: seg_ok_def)
  moreover have "Segment_initialize ?n lf = Inr t2"
    using t1(1) t2(1) c1 \<open>0 < ?n\<close> by (simp add: Segment_initialize_def ht_reserve_def)
  ultimately show ?thesis
    using assms e by (simp add: InternTable_initialize_def Let_def table_ok_def strings_def)
qed

section \<open>Properties\<close>

fun op_units :: "utf_op \<Rightarrow> u2 list option" where
  "op_units (From_utf8 bs) = utf8_decode bs"
| "op_units (From_utf16 cs) = Some cs"

text \<open>UTF-8 text in which every code unit has its shortest form.\<close>

fun shortest :: "utf_op \<Rightarrow> bool" where
  "shortest (From_utf8 bs) \<longleftrightarrow> (case utf8_decode bs of None \<Rightarrow> True | Some cs \<Rightarrow> bs = utf16_encode cs)"
| "shortest (From_utf16 cs) \<longleftrightarrow> True"

text \<open>\<^bold>\<open>C26.\<close> Interned strings are canonical. In any sequence of calls on a new
  table, every call returns; \<open>from_utf8\<close> returns \<open>NULL\<close> exactly for malformed text; two calls with UTF-8
  text return the same string if and only if the text is the same; and calls that return the same
  string were given the same code units, whichever way they were encoded. If all the UTF-8 text is in shortest form, as
  compilers write it, then any two calls, with UTF-8 or UTF-16 text, return the same string if and only if they were given the same code
  units. (A text in a longer form is another string with the same code units.)\<close>

theorem interning_canonical:
  assumes "0 < cap" and "cap \<le> 2 ^ 40" and "0 < lf" and "lf < 100" and "length ps \<le> 2 ^ 40"
  shows "\<exists>tab tab' rs. InternTable_initialize cap lf = Inr tab \<and> intern_run ps tab = Inr (tab', rs) \<and>
    length rs = length ps \<and>
    (\<forall>i < length ps. rs ! i = None \<longleftrightarrow> op_units (ps ! i) = None) \<and>
    (\<forall>i < length ps. \<forall>j < length ps. \<forall>a b. ps ! i = From_utf8 a \<longrightarrow> ps ! j = From_utf8 b \<longrightarrow>
       utf8_decode a \<noteq> None \<longrightarrow> (rs ! i = rs ! j \<longleftrightarrow> a = b)) \<and>
    (\<forall>i < length ps. \<forall>j < length ps. rs ! i = rs ! j \<longrightarrow> op_units (ps ! i) = op_units (ps ! j)) \<and>
    (list_all shortest ps \<longrightarrow> (\<forall>i < length ps. \<forall>j < length ps. rs ! i = rs ! j \<longleftrightarrow> op_units (ps ! i) = op_units (ps ! j)))"
proof -
  obtain tab where tab: "InternTable_initialize cap lf = Inr tab" "table_ok 0 tab" "strings tab = []"
    using initialize_ok [OF assms(1-4)] by blast
  obtain tab' rs m where run: "intern_run ps tab = Inr (tab', rs)" "table_ok m tab'" "list_all2 (answered tab') ps rs"
      "\<forall>x \<in> set (strings tab'). u_text (snd x) \<in> op_text ` set ps"
    using intern_run_ok [OF tab(2), of ps] assms(5) tab(3) by auto
  have len: "length rs = length ps" using run(3) by (simp add: list_all2_lengthD)
  have ans: "answered tab' (ps ! i) (rs ! i)" if "i < length ps" for i
    using run(3) that by (simp add: list_all2_conv_all_nth)
  have inj: "d = d'" if "(a, d) \<in> set (strings tab')" "(a, d') \<in> set (strings tab')" for a d d'
    using that run(2) inj_onD [of fst "set (strings tab')" "(a, d)" "(a, d')"] by (auto simp: table_ok_def)
  have none: "rs ! i = None \<longleftrightarrow> op_units (ps ! i) = None" if "i < length ps" for i
    using ans [OF that] by (cases "ps ! i") (auto simp: answered_def utf8_decode_units split: option.splits)
  have str: "\<exists>d. (p, d) \<in> set (strings tab') \<and> units (u_text d) = op_units (ps ! i) \<and>
      (\<forall>bs. ps ! i = From_utf8 bs \<longrightarrow> u_text d = bs)"
    if "i < length ps" "rs ! i = Some p" for i p
    using ans [OF that(1)] that(2) by (cases "ps ! i") (auto simp: answered_def utf8_decode_units)
  have same: "op_units (ps ! i) = op_units (ps ! j)" if "i < length ps" "j < length ps" "rs ! i = rs ! j" for i j
  proof (cases "rs ! i")
    case None
    then show ?thesis using none that by metis
  next
    case (Some p)
    then show ?thesis using str [OF that(1), of p] str [OF that(2), of p] that(3) inj by metis
  qed
  have utf8: "rs ! i = rs ! j \<longleftrightarrow> a = b"
    if "i < length ps" "j < length ps" "ps ! i = From_utf8 a" "ps ! j = From_utf8 b" "utf8_decode a \<noteq> None" for i j a b
  proof
    note t = that
    have si: "rs ! i \<noteq> None" using none [OF t(1)] t(3,5) by simp
    then obtain p d where p: "rs ! i = Some p" "(p, d) \<in> set (strings tab')" "u_text d = a"
      using str [OF t(1)] t(3) by blast
    show "a = b" if eq: "rs ! i = rs ! j"
      using str [OF \<open>j < length ps\<close>, of p] p eq inj \<open>ps ! j = From_utf8 b\<close> by metis
    assume "a = b"
    then have "rs ! j \<noteq> None" using none [OF t(2)] t(4,5) by simp
    then obtain q d' where q: "rs ! j = Some q" "(q, d') \<in> set (strings tab')" "u_text d' = b"
      using str [OF t(2)] t(4) by blast
    have "(p, d) = (q, d')"
      using strings_unique [OF run(2) p(2) q(2)] p(3) q(3) \<open>a = b\<close> by (simp add: string_key_def)
    then show "rs ! i = rs ! j" using p(1) q(1) by simp
  qed
  have canon: "u_text d = encode_bytes cs" if t: "list_all shortest ps" "(p, d) \<in> set (strings tab')" "units (u_text d) = Some cs" for p d cs
  proof -
    obtain op where op: "op \<in> set ps" "u_text d = op_text op" using run(4) t(2) by force
    have "shortest op" using t(1) op(1) by (simp add: list_all_iff)
    then show ?thesis using t(3) op(2) by (cases op) (auto simp: utf8_decode_units utf16_encode_bytes units_encode)
  qed
  have all: "rs ! i = rs ! j \<longleftrightarrow> op_units (ps ! i) = op_units (ps ! j)"
    if "list_all shortest ps" "i < length ps" "j < length ps" for i j
  proof
    note t = that
    show "op_units (ps ! i) = op_units (ps ! j)" if "rs ! i = rs ! j" using same that \<open>i < length ps\<close> \<open>j < length ps\<close> by blast
    assume eq: "op_units (ps ! i) = op_units (ps ! j)"
    show "rs ! i = rs ! j"
    proof (cases "op_units (ps ! i)")
      case None
      then show ?thesis using none eq t(2,3) by metis
    next
      case (Some cs)
      then obtain p q where p: "rs ! i = Some p" "rs ! j = Some q" using none t(2,3) eq by (metis not_None_eq)
      obtain d d' where d: "(p, d) \<in> set (strings tab')" "units (u_text d) = Some cs" "(q, d') \<in> set (strings tab')" "units (u_text d') = Some cs"
        using str [OF t(2) p(1)] str [OF t(3) p(2)] Some eq by metis
      have "string_key (p, d) = string_key (q, d')" using canon [OF t(1) d(1,2)] canon [OF t(1) d(3,4)] by (simp add: string_key_def)
      then show ?thesis using strings_unique [OF run(2) d(1,3)] p by simp
    qed
  qed
  show ?thesis
    by (intro exI [of _ tab] exI [of _ tab'] exI [of _ rs] conjI allI impI tab(1) run(1) len none utf8 same all)
qed

theorem interning_canonical_witness:
  "\<exists>tab tab' rs. InternTable_initialize HASHTABLE_UTF_SIZE 85 = Inr tab \<and>
    intern_run [From_utf8 [0x4C, 0x61], From_utf16 [0x20AC], From_utf8 [0xFF], From_utf16 [0x4C, 0x61]] tab = Inr (tab', rs) \<and>
    rs ! 0 = rs ! 3 \<and> rs ! 0 \<noteq> rs ! 1 \<and> rs ! 2 = None"
proof -
  let ?ps = "[From_utf8 [0x4C, 0x61], From_utf16 [0x20AC], From_utf8 [0xFF], From_utf16 [0x4C, 0x61]]"
  have dec: "utf8_decode [0x4C, 0x61] = Some [0x4C, 0x61]" "utf8_decode [0xFF] = None"
    by (simp_all add: utf8_decode_units)
  have enc: "utf16_encode [0x4C, 0x61] = [0x4C, 0x61]" by (simp add: utf16_encode_bytes utf16_char_bytes_def)
  have h: "0 < HASHTABLE_UTF_SIZE" "HASHTABLE_UTF_SIZE \<le> 2 ^ 40" "(0::nat) < 85" "(85::nat) < 100" "length ?ps \<le> 2 ^ 40"
    by (simp_all add: HASHTABLE_UTF_SIZE_def)
  from interning_canonical [OF h] show ?thesis
  proof (elim exE conjE, goal_cases)
    case (1 tab tab' rs)
    have all: "rs ! i = rs ! j \<longleftrightarrow> op_units (?ps ! i) = op_units (?ps ! j)" if "i < 4" "j < 4" for i j
      using 1(7) that dec enc by simp
    have "rs ! 0 = rs ! 3" "rs ! 0 \<noteq> rs ! 1" using all [of 0 3] all [of 0 1] dec by simp_all
    moreover have "rs ! 2 = None" using 1(4) [rule_format, of 2] dec by simp
    ultimately show ?case using 1(1,2) by blast
  qed
qed

end
