(* ===== verification/Descriptor.thy ===== *)
theory Descriptor
  imports Utf8Props
begin

unbundle bit_operations_syntax

text \<open>
  Field and method descriptors (\<^verbatim>\<open>src/src/vm/descriptor.cpp\<close>): the parser \<open>DescriptorParser\<close> and the
  \<open>DescriptorPool\<close> of a class. A class is loaded in phases: all descriptors are added (checked, and
  their class names and sizes recorded), the class reference table and one block of memory for the
  parsed descriptors are allocated, then the descriptors are parsed into that block.

  \<^item> A string is the list of its bytes: interned strings are equal if and only if their text is.
  \<^item> The two hash tables of a pool are association lists in insertion order; that the open-addressing
    table behaves as a map is the subject of \<open>HashMap\<close>. The source fills the class references in the order of
    the slots of the table; the order matters only for names whose 16-bit indices are equal, where the
    entry of the last one stays.
  \<^item> The position of the parser is the rest of the text. A parse error is the \<open>ClassFormatError\<close> that
    is thrown.
  \<^item> Of the memory block, \<open>dp_descriptors_next\<close> is the number of bytes handed out.
  \<^item> \<open>md_param_alloc\<close>, which assigns argument registers for the target machine, is not part of the model.
\<close>

section \<open>Types\<close>

datatype Type = TYPE_INT | TYPE_LNG | TYPE_FLT | TYPE_DBL | TYPE_ADR | TYPE_RET | TYPE_VOID

datatype PrimitiveType = PRIMITIVETYPE_INT | PRIMITIVETYPE_LONG | PRIMITIVETYPE_FLOAT | PRIMITIVETYPE_DOUBLE
  | PRIMITIVETYPE_DUMMY1 | PRIMITIVETYPE_BYTE | PRIMITIVETYPE_CHAR | PRIMITIVETYPE_SHORT
  | PRIMITIVETYPE_BOOLEAN | PRIMITIVETYPE_VOID

definition IS_2_WORD_TYPE :: "Type \<Rightarrow> bool" where
  "IS_2_WORD_TYPE t \<longleftrightarrow> t = TYPE_LNG \<or> t = TYPE_DBL"

text \<open>The ASCII characters of descriptors.\<close>

abbreviation "ch_B \<equiv> (0x42 :: u1)"
abbreviation "ch_C \<equiv> (0x43 :: u1)"
abbreviation "ch_D \<equiv> (0x44 :: u1)"
abbreviation "ch_F \<equiv> (0x46 :: u1)"
abbreviation "ch_I \<equiv> (0x49 :: u1)"
abbreviation "ch_J \<equiv> (0x4A :: u1)"
abbreviation "ch_L \<equiv> (0x4C :: u1)"
abbreviation "ch_S \<equiv> (0x53 :: u1)"
abbreviation "ch_V \<equiv> (0x56 :: u1)"
abbreviation "ch_Z \<equiv> (0x5A :: u1)"
abbreviation "ch_array \<equiv> (0x5B :: u1)"
abbreviation "ch_semicolon \<equiv> (0x3B :: u1)"
abbreviation "ch_open \<equiv> (0x28 :: u1)"
abbreviation "ch_close \<equiv> (0x29 :: u1)"

section \<open>The parser\<close>

definition FORBID_VOID_TYPE :: int where "FORBID_VOID_TYPE = 0"

definition EXPECT_END_OF_INPUT :: int where "EXPECT_END_OF_INPUT = 1"

datatype parse_result = PRIMITIVE_TYPE Type PrimitiveType | REFERENCE_TYPE "u1 list" nat

definition throw_error :: "string \<Rightarrow> string \<Rightarrow> 'a result" where
  "throw_error descriptor_type reason =
     Inl (ClassFormatError (''Invalid '' @ descriptor_type @ '' descriptor: '' @ reason))"

text \<open>Reads up to and including the next semicolon; the result is what was read and what is left.\<close>

fun skip_classname :: "string \<Rightarrow> u1 list \<Rightarrow> (u1 list \<times> u1 list) result" where
  "skip_classname dt [] = throw_error dt ''Truncated descriptor''"
| "skip_classname dt (c # pos) =
     (if c = ch_semicolon then Inr ([c], pos)
      else rbind (skip_classname dt pos) (\<lambda>(used, rest). Inr (c # used, rest)))"

definition parse_classname :: "string \<Rightarrow> u1 list \<Rightarrow> (u1 list \<times> u1 list) result" where
  "parse_classname dt pos =
     rbind (skip_classname dt pos) (\<lambda>(used, rest).
       case from_utf8 (butlast used) of
         None \<Rightarrow> throw_error dt ''Class name is not valid UTF-8''
       | Some str \<Rightarrow> Inr (butlast used, rest))"

fun skip_brackets :: "string \<Rightarrow> u1 list \<Rightarrow> nat \<Rightarrow> (nat \<times> u1 \<times> u1 list) result" where
  "skip_brackets dt [] array_dimension = throw_error dt ''Truncated descriptor''"
| "skip_brackets dt (c # pos) array_dimension =
     (if c \<noteq> ch_array then Inr (array_dimension, c, pos) else skip_brackets dt pos (array_dimension + 1))"

definition is_primitive_char :: "u1 \<Rightarrow> bool" where
  "is_primitive_char c \<longleftrightarrow> c \<in> {ch_B, ch_C, ch_D, ch_F, ch_I, ch_J, ch_S, ch_Z}"

definition parse_arraytype :: "string \<Rightarrow> u1 list \<Rightarrow> (u1 list \<times> nat \<times> u1 list) result" where
  "parse_arraytype dt mark =
     rbind (skip_brackets dt mark 0) (\<lambda>(array_dimension, c, pos).
       if array_dimension > 255 then throw_error dt ''Too large array dimension''
       else rbind
         (if is_primitive_char c then Inr pos
          else if c = ch_L then rbind (skip_classname dt pos) (\<lambda>(used, rest). Inr rest)
          else throw_error dt ''Illegal type of array element'')
         (\<lambda>rest. let name = take (length mark - length rest) mark in
            case from_utf8 name of
              None \<Rightarrow> throw_error dt ''Name is not valid utf8''
            | Some str \<Rightarrow> Inr (name, array_dimension, rest)))"

text \<open>The cases of the switch for the primitive types.\<close>

definition primitive_case :: "u1 \<Rightarrow> (Type \<times> PrimitiveType) option" where
  "primitive_case c =
     (if c = ch_B then Some (TYPE_INT, PRIMITIVETYPE_BYTE)
      else if c = ch_C then Some (TYPE_INT, PRIMITIVETYPE_CHAR)
      else if c = ch_D then Some (TYPE_DBL, PRIMITIVETYPE_DOUBLE)
      else if c = ch_F then Some (TYPE_FLT, PRIMITIVETYPE_FLOAT)
      else if c = ch_I then Some (TYPE_INT, PRIMITIVETYPE_INT)
      else if c = ch_J then Some (TYPE_LNG, PRIMITIVETYPE_LONG)
      else if c = ch_S then Some (TYPE_INT, PRIMITIVETYPE_SHORT)
      else if c = ch_Z then Some (TYPE_INT, PRIMITIVETYPE_BOOLEAN)
      else if c = ch_V then Some (TYPE_VOID, PRIMITIVETYPE_VOID)
      else None)"

definition parse_type_char :: "int \<Rightarrow> string \<Rightarrow> u1 \<Rightarrow> u1 list \<Rightarrow> (parse_result \<times> u1 list) result" where
  "parse_type_char flags dt c pos = (case primitive_case c of
      Some (t, p) \<Rightarrow>
        if c = ch_V \<and> flags AND FORBID_VOID_TYPE \<noteq> 0 then throw_error dt ''Type void is illegal''
        else Inr (PRIMITIVE_TYPE t p, pos)
    | None \<Rightarrow>
        if c = ch_L then
          rbind (parse_classname dt pos) (\<lambda>(classname, rest). Inr (REFERENCE_TYPE classname 0, rest))
        else if c = ch_array then
          rbind (parse_arraytype dt (c # pos)) (\<lambda>(classname, arraydim, rest). Inr (REFERENCE_TYPE classname arraydim, rest))
        else throw_error dt ''Illegal character'')"

text \<open>The parser proper (\<open>parse_type\<close> with four output parameters).\<close>

definition parse_type_raw :: "int \<Rightarrow> string \<Rightarrow> u1 list \<Rightarrow> (parse_result \<times> u1 list) result" where
  "parse_type_raw flags dt pos = (case pos of
     [] \<Rightarrow> throw_error dt ''Truncated descriptor''
   | c # pos \<Rightarrow> rbind (parse_type_char flags dt c pos) (\<lambda>(r, rest).
       if flags AND EXPECT_END_OF_INPUT \<noteq> 0 \<and> rest \<noteq> [] then
         throw_error dt ''Unexpected characters at end of descriptor''
       else Inr (r, rest)))"

definition start_param_list :: "u1 list \<Rightarrow> u1 list result" where
  "start_param_list pos = (case pos of
     [] \<Rightarrow> throw_error ''method'' ''Truncated descriptor''
   | c # pos \<Rightarrow> if c \<noteq> ch_open then throw_error ''method'' ''Method descriptor does not start with an opening parenthesis'' else Inr pos)"

text \<open>Whether there are more parameters; the closing parenthesis is consumed.\<close>

definition has_more_params :: "u1 list \<Rightarrow> bool \<times> u1 list" where
  "has_more_params pos = (case pos of
     [] \<Rightarrow> (False, [])
   | c # rest \<Rightarrow> if c = ch_close then (False, rest) else (True, pos))"

section \<open>The pool\<close>

record typedesc =
  td_classref :: "nat option"
  td_type :: Type
  td_primitivetype :: PrimitiveType
  td_arraydim :: nat

record DescriptorPool =
  dp_classrefhash :: "(u1 list \<times> u2) list"
  dp_fieldrefhash :: "(u1 list \<times> typedesc option) list"
  dp_fieldcount :: nat
  dp_methodcount :: nat
  dp_paramcount :: nat
  dp_descriptorsize :: nat
  dp_classrefs :: "u1 list option list option"
  dp_descriptors :: bool
  dp_descriptors_next :: nat
  dp_exception :: "vm_error option"

definition DescriptorPool_new :: DescriptorPool where
  "DescriptorPool_new = \<lparr> dp_classrefhash = [], dp_fieldrefhash = [], dp_fieldcount = 0, dp_methodcount = 0,
     dp_paramcount = 0, dp_descriptorsize = 0, dp_classrefs = None, dp_descriptors = False,
     dp_descriptors_next = 0, dp_exception = None \<rparr>"

definition add_class :: "u1 list \<Rightarrow> DescriptorPool \<Rightarrow> DescriptorPool \<times> unit result" where
  "add_class name pool =
     (case map_of (dp_classrefhash pool) name of
        Some _ \<Rightarrow> (pool, Inr ())
      | None \<Rightarrow>
          if \<not> valid_name_bytes name then (pool, Inl (ClassFormatError ''Invalid class name''))
          else (pool\<lparr> dp_classrefhash := dp_classrefhash pool @ [(name, of_nat (length (dp_classrefhash pool)))] \<rparr>, Inr ()))"

definition check_type :: "int \<Rightarrow> string \<Rightarrow> u1 list \<Rightarrow> DescriptorPool \<Rightarrow> DescriptorPool \<times> (Type \<times> u1 list) result" where
  "check_type flags dt pos pool = (case parse_type_raw flags dt pos of
     Inl e \<Rightarrow> (pool, Inl e)
   | Inr (PRIMITIVE_TYPE type primtype, rest) \<Rightarrow> (pool, Inr (type, rest))
   | Inr (REFERENCE_TYPE classname arraydim, rest) \<Rightarrow>
       (case add_class classname pool of (pool, r) \<Rightarrow> (pool, rbind r (\<lambda>_. Inr (TYPE_ADR, rest)))))"

definition check_field_descriptor :: "u1 list \<Rightarrow> DescriptorPool \<Rightarrow> DescriptorPool \<times> (Type \<times> u1 list) result" where
  "check_field_descriptor = check_type (FORBID_VOID_TYPE OR EXPECT_END_OF_INPUT) ''field''"

definition check_param_descriptor :: "u1 list \<Rightarrow> DescriptorPool \<Rightarrow> DescriptorPool \<times> (Type \<times> u1 list) result" where
  "check_param_descriptor = check_type FORBID_VOID_TYPE ''parameter''"

definition check_return_descriptor :: "u1 list \<Rightarrow> DescriptorPool \<Rightarrow> DescriptorPool \<times> (Type \<times> u1 list) result" where
  "check_return_descriptor = check_type EXPECT_END_OF_INPUT ''return type''"

definition add_field :: "u1 list \<Rightarrow> DescriptorPool \<Rightarrow> DescriptorPool \<times> unit result" where
  "add_field desc pool =
     (case map_of (dp_fieldrefhash pool) desc of
        Some _ \<Rightarrow> (pool, Inr ())
      | None \<Rightarrow> (case check_field_descriptor desc pool of
          (pool, Inl e) \<Rightarrow> (pool, Inl e)
        | (pool, Inr _) \<Rightarrow>
            (pool\<lparr> dp_fieldrefhash := dp_fieldrefhash pool @ [(desc, None)], dp_fieldcount := dp_fieldcount pool + 1 \<rparr>, Inr ())))"

section \<open>What the parser reads\<close>

lemma throw_error_not_Inr [simp]: "throw_error dt m \<noteq> Inr x"
  by (simp add: throw_error_def)

lemma skip_classname_Inr:
  "skip_classname dt pos = Inr (used, rest) \<longleftrightarrow>
    (\<exists>name. pos = name @ ch_semicolon # rest \<and> used = name @ [ch_semicolon] \<and> ch_semicolon \<notin> set name)"
proof (induction pos arbitrary: used)
  case (Cons c pos)
  show ?case
  proof (cases "c = ch_semicolon")
    case True
    then show ?thesis by (auto simp: Cons_eq_append_conv)
  next
    case False
    then show ?thesis using Cons.IH by (fastforce simp: rbind_Inr Cons_eq_append_conv)
  qed
qed simp

lemma skip_brackets_Inr:
  "skip_brackets dt pos n = Inr (dim, c, rest) \<longleftrightarrow>
    n \<le> dim \<and> pos = replicate (dim - n) ch_array @ c # rest \<and> c \<noteq> ch_array"
proof (induction pos arbitrary: n)
  case (Cons x pos)
  show ?case
  proof (cases "x = ch_array")
    case True
    show ?thesis
    proof (cases "n < dim")
      case True
      then have "dim - n = Suc (dim - Suc n)" by simp
      then show ?thesis using Cons.IH [of "n + 1"] \<open>x = ch_array\<close> True by simp
    next
      case False
      then show ?thesis using Cons.IH [of "n + 1"] \<open>x = ch_array\<close> by auto
    qed
  next
    case False
    then show ?thesis by (cases "dim - n") auto
  qed
qed simp

lemma parse_classname_Inr:
  "parse_classname dt pos = Inr (name, rest) \<longleftrightarrow>
    pos = name @ ch_semicolon # rest \<and> ch_semicolon \<notin> set name \<and> units name \<noteq> None"
proof
  assume "parse_classname dt pos = Inr (name, rest)"
  then show "pos = name @ ch_semicolon # rest \<and> ch_semicolon \<notin> set name \<and> units name \<noteq> None"
    by (auto simp: parse_classname_def rbind_Inr skip_classname_Inr from_utf8_def string_from_utf8_units split: option.splits)
next
  assume "pos = name @ ch_semicolon # rest \<and> ch_semicolon \<notin> set name \<and> units name \<noteq> None"
  then have "skip_classname dt pos = Inr (name @ [ch_semicolon], rest)" "units name \<noteq> None"
    by (simp_all add: skip_classname_Inr)
  then show "parse_classname dt pos = Inr (name, rest)"
    by (auto simp: parse_classname_def from_utf8_def string_from_utf8_units)
qed

text \<open>The element part of an array type.\<close>

definition array_element :: "u1 list \<Rightarrow> bool" where
  "array_element el \<longleftrightarrow> (\<exists>c. el = [c] \<and> is_primitive_char c) \<or>
     (\<exists>name. el = ch_L # name @ [ch_semicolon] \<and> ch_semicolon \<notin> set name)"

lemma array_element_ne: "array_element el \<Longrightarrow> el \<noteq> [] \<and> hd el \<noteq> ch_array"
  by (auto simp: array_element_def is_primitive_char_def)

lemma parse_arraytype_Inr:
  "parse_arraytype dt pos = Inr (name, dim, rest) \<longleftrightarrow>
    (\<exists>el. name = replicate dim ch_array @ el \<and> array_element el \<and> dim \<le> 255 \<and> pos = name @ rest \<and> units name \<noteq> None)"
proof
  assume "parse_arraytype dt pos = Inr (name, dim, rest)"
  then obtain d c p where 1: "skip_brackets dt pos 0 = Inr (d, c, p)" "d \<le> 255"
      and 2: "(if is_primitive_char c then Inr p else if c = ch_L then rbind (skip_classname dt p) (\<lambda>(used, rest). Inr rest)
          else throw_error dt ''Illegal type of array element'') = Inr rest"
      and 3: "name = take (length pos - length rest) pos" "units name \<noteq> None" "dim = d"
    by (auto simp: parse_arraytype_def rbind_Inr Let_def from_utf8_def string_from_utf8_units split: if_splits option.splits)
  have pos: "pos = replicate d ch_array @ c # p" using 1 by (simp add: skip_brackets_Inr)
  have "\<exists>el. array_element el \<and> c # p = el @ rest"
    using 2 by (fastforce simp: array_element_def rbind_Inr skip_classname_Inr split: if_splits)
  then obtain el where el: "array_element el" "c # p = el @ rest" by blast
  then have "name = replicate d ch_array @ el" using 3(1) pos by simp
  then show "\<exists>el. name = replicate dim ch_array @ el \<and> array_element el \<and> dim \<le> 255 \<and> pos = name @ rest \<and> units name \<noteq> None"
    using el 1(2) 3(2,3) pos by auto
next
  assume "\<exists>el. name = replicate dim ch_array @ el \<and> array_element el \<and> dim \<le> 255 \<and> pos = name @ rest \<and> units name \<noteq> None"
  then obtain el where el: "name = replicate dim ch_array @ el" "array_element el" "dim \<le> 255" "pos = name @ rest" "units name \<noteq> None"
    by blast
  then obtain c p where cp: "el @ rest = c # p" "c \<noteq> ch_array" using array_element_ne [OF el(2)] by (cases el) auto
  then have "skip_brackets dt pos 0 = Inr (dim, c, p)" using el by (simp add: skip_brackets_Inr)
  moreover have "(if is_primitive_char c then Inr p else if c = ch_L then rbind (skip_classname dt p) (\<lambda>(used, rest). Inr rest)
          else throw_error dt ''Illegal type of array element'') = Inr rest"
    using el(2) cp by (fastforce simp: array_element_def rbind_Inr skip_classname_Inr is_primitive_char_def)
  moreover have "take (length pos - length rest) pos = name" using el(4) by simp
  ultimately show "parse_arraytype dt pos = Inr (name, dim, rest)"
    using el by (auto simp: parse_arraytype_def Let_def from_utf8_def string_from_utf8_units)
qed

text \<open>The grammar of descriptors. \<open>type_text r text\<close>: the text is a descriptor of the type \<open>r\<close>.\<close>

fun type_text :: "parse_result \<Rightarrow> u1 list \<Rightarrow> bool" where
  "type_text (PRIMITIVE_TYPE t p) text \<longleftrightarrow> (\<exists>c. primitive_case c = Some (t, p) \<and> text = [c])"
| "type_text (REFERENCE_TYPE name dim) text \<longleftrightarrow> units name \<noteq> None \<and>
     (if dim = 0 then ch_semicolon \<notin> set name \<and> text = ch_L # name @ [ch_semicolon]
      else dim \<le> 255 \<and> text = name \<and> (\<exists>el. name = replicate dim ch_array @ el \<and> array_element el))"

lemma type_text_ne: "type_text r text \<Longrightarrow> text \<noteq> []"
  by (cases r) (auto split: if_splits simp: array_element_def)

lemma flags_void: "flags AND FORBID_VOID_TYPE = 0"
  by (simp add: FORBID_VOID_TYPE_def)

lemma parse_type_char_prim:
  "parse_type_char flags dt c pos = Inr (PRIMITIVE_TYPE t p, rest) \<longleftrightarrow> primitive_case c = Some (t, p) \<and> rest = pos"
  by (auto simp: parse_type_char_def flags_void rbind_Inr split: option.splits)

lemma no_primitive: "primitive_case ch_L = None" "primitive_case ch_array = None"
  by (simp_all add: primitive_case_def)

lemma parse_type_char_ref:
  "parse_type_char flags dt c pos = Inr (REFERENCE_TYPE name dim, rest) \<longleftrightarrow>
    (\<exists>text. type_text (REFERENCE_TYPE name dim) text \<and> c # pos = text @ rest)"
proof -
  have *: "parse_type_char flags dt c pos = Inr (REFERENCE_TYPE name dim, rest) \<longleftrightarrow>
      (c = ch_L \<and> dim = 0 \<and> parse_classname dt pos = Inr (name, rest)) \<or>
      (c = ch_array \<and> parse_arraytype dt (c # pos) = Inr (name, dim, rest))"
    by (auto simp: parse_type_char_def rbind_Inr no_primitive split: if_splits option.splits)
  show ?thesis
  proof (cases "dim = 0")
    case True
    have "\<not> (c = ch_array \<and> parse_arraytype dt (c # pos) = Inr (name, dim, rest))"
      using True array_element_ne by (auto simp: parse_arraytype_Inr)
        (metis append_Cons append_self_conv2 hd_append list.sel(1))
    then show ?thesis using * True by (auto simp: parse_classname_Inr)
  next
    case False
    then obtain d where d: "dim = Suc d" by (cases dim) auto
    then show ?thesis using * by (auto simp: parse_arraytype_Inr)
  qed
qed

lemma parse_type_raw_Inr:
  "parse_type_raw flags dt pos = Inr (r, rest) \<longleftrightarrow>
    (\<exists>text. type_text r text \<and> pos = text @ rest) \<and> (flags AND EXPECT_END_OF_INPUT \<noteq> 0 \<longrightarrow> rest = [])"
proof -
  have "(\<exists>text. type_text r text \<and> pos = text @ rest) \<longleftrightarrow>
      (\<exists>c p. pos = c # p \<and> parse_type_char flags dt c p = Inr (r, rest))"
  proof (cases r)
    case (PRIMITIVE_TYPE t p)
    then show ?thesis by (auto simp: parse_type_char_prim)
  next
    case (REFERENCE_TYPE name dim)
    show ?thesis
    proof (cases pos)
      case Nil
      then show ?thesis using type_text_ne by auto
    next
      case (Cons c p)
      then show ?thesis unfolding REFERENCE_TYPE using parse_type_char_ref [of flags dt c p name dim rest] by auto
    qed
  qed
  then show ?thesis
    by (cases pos) (auto simp: parse_type_raw_def rbind_Inr split: if_splits)
qed

section \<open>Adding methods\<close>

lemma raw_shorter: "parse_type_raw flags dt pos = Inr (r, rest) \<Longrightarrow> length rest < length pos"
  using type_text_ne by (fastforce simp: parse_type_raw_Inr)

lemma check_type_shorter: "check_type flags dt pos pool = (pool', Inr (t, rest)) \<Longrightarrow> length rest < length pos"
  by (auto simp: check_type_def rbind_Inr split: sum.splits parse_result.splits prod.splits dest!: raw_shorter)

text \<open>The loop over the parameters in \<open>add_method\<close>.\<close>

function check_params :: "u1 list \<Rightarrow> DescriptorPool \<Rightarrow> nat \<Rightarrow> DescriptorPool \<times> (nat \<times> u1 list) result" where
  "check_params pos pool argcount =
     (case has_more_params pos of
        (False, pos) \<Rightarrow> (pool, Inr (argcount, pos))
      | (True, pos) \<Rightarrow>
          (case check_param_descriptor pos (pool\<lparr> dp_paramcount := dp_paramcount pool + 1 \<rparr>) of
             (pool, Inl e) \<Rightarrow> (pool, Inl e)
           | (pool, Inr (type, rest)) \<Rightarrow>
               check_params rest pool (argcount + (if IS_2_WORD_TYPE type then 2 else 1))))"
  by pat_completeness auto
termination
  by (relation "measure (\<lambda>(pos, _, _). length pos)")
    (auto simp: has_more_params_def check_param_descriptor_def dest: sym [THEN check_type_shorter] split: list.splits if_splits)

declare check_params.simps [simp del]

definition add_method :: "u1 list \<Rightarrow> DescriptorPool \<Rightarrow> DescriptorPool \<times> nat result" where
  "add_method desc pool = (case start_param_list desc of
     Inl e \<Rightarrow> (pool, Inl e)
   | Inr pos \<Rightarrow> (case check_params pos pool 0 of
       (pool, Inl e) \<Rightarrow> (pool, Inl e)
     | (pool, Inr (argcount, pos)) \<Rightarrow>
         if argcount > 255 then (pool, Inl (ClassFormatError ''Too many arguments in signature''))
         else (case check_return_descriptor pos pool of
           (pool, Inl e) \<Rightarrow> (pool, Inl e)
         | (pool, Inr _) \<Rightarrow> (pool\<lparr> dp_methodcount := dp_methodcount pool + 1 \<rparr>, Inr argcount))))"

section \<open>The tables of a pool\<close>

definition create_classrefs :: "DescriptorPool \<Rightarrow> DescriptorPool \<times> nat" where
  "create_classrefs pool =
     (let nclasses = length (dp_classrefhash pool);
          classrefs = fold (\<lambda>(key, v) refs. refs[unat v := Some key]) (dp_classrefhash pool) (replicate nclasses None)
      in (pool\<lparr> dp_classrefs := Some classrefs \<rparr>, nclasses))"

text \<open>The index of the reference, or \<open>NULL\<close> with an exception pending.\<close>

definition lookup_classref :: "u1 list \<Rightarrow> DescriptorPool \<Rightarrow> DescriptorPool \<times> nat option result" where
  "lookup_classref classname pool =
     (if dp_classrefs pool = None then (pool, Inl Assertion_failed)
      else case map_of (dp_classrefhash pool) classname of
        Some v \<Rightarrow> (pool, Inr (Some (unat v)))
      | None \<Rightarrow> (pool\<lparr> dp_exception := Some (InternalError ''Class reference not found in descriptor pool'') \<rparr>, Inr None))"

text \<open>Sizes on a 64-bit target.\<close>

definition sizeof_typedesc :: nat where "sizeof_typedesc = 16"

definition sizeof_methoddesc :: nat where "sizeof_methoddesc = 64"

definition offsetof_paramtypes :: nat where "offsetof_paramtypes = 48"

definition sizeof_constant_classref :: nat where "sizeof_constant_classref = 24"

definition alloc_parsed_descriptors :: "DescriptorPool \<Rightarrow> DescriptorPool" where
  "alloc_parsed_descriptors pool =
     (let size = dp_fieldcount pool * sizeof_typedesc
               + dp_methodcount pool * (sizeof_methoddesc - sizeof_typedesc)
               + dp_paramcount pool * sizeof_typedesc
               + dp_methodcount pool * sizeof_typedesc;
          pool = pool\<lparr> dp_descriptorsize := size \<rparr>
      in if size \<noteq> 0 then pool\<lparr> dp_descriptors := True, dp_descriptors_next := 0 \<rparr> else pool)"

definition allocate :: "nat \<Rightarrow> DescriptorPool \<Rightarrow> DescriptorPool" where
  "allocate n pool = pool\<lparr> dp_descriptors_next := dp_descriptors_next pool + n \<rparr>"

definition get_sizes :: "DescriptorPool \<Rightarrow> (nat \<times> nat) result" where
  "get_sizes pool =
     (if (dp_fieldcount pool = 0 \<and> dp_methodcount pool = 0 \<or> dp_descriptors pool) \<and> dp_classrefs pool \<noteq> None
      then Inr (length (dp_classrefhash pool) * sizeof_constant_classref, dp_descriptorsize pool)
      else Inl Assertion_failed)"

section \<open>Parsing into the pool\<close>

definition parse_typedesc :: "int \<Rightarrow> string \<Rightarrow> u1 list \<Rightarrow> DescriptorPool \<Rightarrow> DescriptorPool \<times> (typedesc \<times> u1 list) result" where
  "parse_typedesc flags dt pos pool = (case parse_type_raw flags dt pos of
     Inl e \<Rightarrow> (pool, Inl e)
   | Inr (PRIMITIVE_TYPE type primtype, rest) \<Rightarrow>
       (pool, Inr (\<lparr> td_classref = None, td_type = type, td_primitivetype = primtype, td_arraydim = 0 \<rparr>, rest))
   | Inr (REFERENCE_TYPE classname arraydim, rest) \<Rightarrow>
       (case lookup_classref classname pool of (pool, r) \<Rightarrow>
          (pool, rbind r (\<lambda>ref. Inr (\<lparr> td_classref = ref, td_type = TYPE_ADR,
             td_primitivetype = PRIMITIVETYPE_DUMMY1, td_arraydim = arraydim \<rparr>, rest)))))"

definition parse_field_descriptor :: "u1 list \<Rightarrow> DescriptorPool \<Rightarrow> DescriptorPool \<times> typedesc result" where
  "parse_field_descriptor desc pool =
     (if \<not> dp_descriptors pool then (pool, Inl Assertion_failed)
      else case map_of (dp_fieldrefhash pool) desc of
        None \<Rightarrow> (pool, Inl Assertion_failed)
      | Some (Some td) \<Rightarrow> (pool, Inr td)
      | Some None \<Rightarrow>
          (case parse_typedesc (FORBID_VOID_TYPE OR EXPECT_END_OF_INPUT) ''field'' desc (allocate sizeof_typedesc pool) of
             (pool, Inl e) \<Rightarrow> (pool, Inl e)
           | (pool, Inr (td, rest)) \<Rightarrow>
               (pool\<lparr> dp_fieldrefhash := map (\<lambda>(k, v). (k, if k = desc then Some td else v)) (dp_fieldrefhash pool) \<rparr>, Inr td)))"

datatype paramdescs = Params_NULL | METHODDESC_NOPARAMS | Params_array nat

text \<open>\<open>md_paramtypes\<close> is the memory behind the descriptor, the slot reserved for \<open>this\<close> included.\<close>

record methoddesc =
  md_paramcount :: nat
  md_paramslots :: nat
  md_params :: paramdescs
  md_pool_lock :: bool
  md_returntype :: typedesc
  md_paramtypes :: "typedesc list"

definition ACC_UNDEF :: int where "ACC_UNDEF = -1"

definition ACC_STATIC :: int where "ACC_STATIC = 0x0008"

text \<open>Fresh memory is zero.\<close>

definition zero_typedesc :: typedesc where
  "zero_typedesc = \<lparr> td_classref = None, td_type = TYPE_INT, td_primitivetype = PRIMITIVETYPE_INT, td_arraydim = 0 \<rparr>"

function parse_params :: "u1 list \<Rightarrow> DescriptorPool \<Rightarrow> nat \<Rightarrow> typedesc list
    \<Rightarrow> DescriptorPool \<times> (nat \<times> typedesc list \<times> u1 list) result" where
  "parse_params pos pool paramslots tds =
     (case has_more_params pos of
        (False, pos) \<Rightarrow> (pool, Inr (paramslots, tds, pos))
      | (True, pos) \<Rightarrow>
          (case parse_typedesc FORBID_VOID_TYPE ''parameter'' pos (allocate sizeof_typedesc pool) of
             (pool, Inl e) \<Rightarrow> (pool, Inl e)
           | (pool, Inr (td, rest)) \<Rightarrow>
               parse_params rest pool (paramslots + (if IS_2_WORD_TYPE (td_type td) then 2 else 1)) (tds @ [td])))"
  by pat_completeness auto

lemma parse_typedesc_shorter: "parse_typedesc flags dt pos pool = (pool', Inr (t, rest)) \<Longrightarrow> length rest < length pos"
  by (auto simp: parse_typedesc_def rbind_Inr split: sum.splits parse_result.splits prod.splits dest!: raw_shorter)

termination parse_params
  by (relation "measure (\<lambda>(pos, _, _, _). length pos)")
    (auto simp: has_more_params_def dest: sym [THEN parse_typedesc_shorter] split: list.splits if_splits)

declare parse_params.simps [simp del]

definition parse_method_descriptor :: "u1 list \<Rightarrow> int \<Rightarrow> nat option \<Rightarrow> DescriptorPool \<Rightarrow> DescriptorPool \<times> methoddesc result" where
  "parse_method_descriptor desc mflags thisclass pool =
     (if \<not> dp_descriptors pool then (pool, Inl Assertion_failed)
      else if (case desc of [] \<Rightarrow> 0 | c # _ \<Rightarrow> c) \<noteq> ch_open then
        (pool, Inl (ClassFormatError ''Field descriptor used in method reference''))
      else
        let pool = allocate offsetof_paramtypes pool;
            has_this = (mflags \<noteq> ACC_UNDEF \<and> mflags AND ACC_STATIC = 0);
            this_td = zero_typedesc\<lparr> td_type := TYPE_ADR, td_arraydim := 0, td_classref := thisclass \<rparr>;
            pool = (if has_this then allocate sizeof_typedesc pool else pool)
        in case start_param_list desc of
          Inl e \<Rightarrow> (pool, Inl e)
        | Inr pos \<Rightarrow> (case parse_params pos pool (if has_this then 1 else 0) (if has_this then [this_td] else []) of
            (pool, Inl e) \<Rightarrow> (pool, Inl e)
          | (pool, Inr (paramslots, tds, pos)) \<Rightarrow>
              let pool = (if mflags = ACC_UNDEF then allocate sizeof_typedesc pool else pool);
                  mem = (if mflags = ACC_UNDEF then tds @ [zero_typedesc\<lparr> td_classref := thisclass \<rparr>] else tds)
              in case parse_typedesc EXPECT_END_OF_INPUT ''return type'' pos pool of
                (pool, Inl e) \<Rightarrow> (pool, Inl e)
              | (pool, Inr (ret, rest)) \<Rightarrow>
                  (pool, Inr \<lparr> md_paramcount = length tds, md_paramslots = paramslots,
                     md_params = (if mflags = ACC_UNDEF then Params_NULL
                                  else if length tds > 0 then Params_array (length tds) else METHODDESC_NOPARAMS),
                     md_pool_lock = (mflags = ACC_UNDEF), md_returntype = ret, md_paramtypes = mem \<rparr>)))"

definition params_from_paramtypes :: "int \<Rightarrow> methoddesc \<Rightarrow> methoddesc result" where
  "params_from_paramtypes mflags md =
     (if md_params md \<noteq> Params_NULL then Inr md
      else if mflags = ACC_UNDEF then Inl Assertion_failed
      else rbind
        (if mflags AND ACC_STATIC = 0 then
           (let n = md_paramcount md; td = md_paramtypes md in
            if \<not> n < length td then Inl (Vm_abort ''no reserved parameter slot'')
            else case td_classref (td ! n) of
              None \<Rightarrow> Inl Assertion_failed
            | Some thisclass \<Rightarrow>
                let this_td = (td ! 0)\<lparr> td_type := TYPE_ADR, td_primitivetype := PRIMITIVETYPE_DUMMY1,
                                       td_arraydim := 0, td_classref := Some thisclass \<rparr>
                in Inr (md\<lparr> md_paramtypes := this_td # take n td @ drop (n + 1) td,
                            md_paramcount := n + 1, md_paramslots := md_paramslots md + 1 \<rparr>))
         else Inr md)
        (\<lambda>md. Inr (md\<lparr> md_params := (if md_paramcount md > 0 then Params_array (md_paramcount md) else METHODDESC_NOPARAMS) \<rparr>)))"

definition descriptor_to_basic_type :: "u1 list \<Rightarrow> Type result" where
  "descriptor_to_basic_type descriptor = (case descriptor of
     [] \<Rightarrow> Inl Assertion_failed
   | c # _ \<Rightarrow>
       if c \<in> {ch_Z, ch_B, ch_C, ch_S, ch_I} then Inr TYPE_INT
       else if c = ch_J then Inr TYPE_LNG
       else if c = ch_F then Inr TYPE_FLT
       else if c = ch_D then Inr TYPE_DBL
       else if c = ch_L \<or> c = ch_array then Inr TYPE_ADR
       else Inl (Vm_abort ''descriptor_to_basic_type: invalid type''))"

end
