(* ===== verification/DescriptorProps.thy ===== *)
theory DescriptorProps
  imports Descriptor "HOL-Library.Multiset"
begin

unbundle bit_operations_syntax

text \<open>
  The life of a descriptor pool: what \<open>add_field\<close> and \<open>add_method\<close> have accepted can be parsed, all its
  class references are found, and the parsed descriptors fit into the block that
  \<open>alloc_parsed_descriptors\<close> has sized. The late creation of parameters
  (\<open>params_from_paramtypes\<close>) agrees with the early one.
\<close>

section \<open>The descriptors of a method\<close>

text \<open>The parameter types of a method descriptor, without a pool.\<close>

function param_types :: "u1 list \<Rightarrow> (parse_result list \<times> u1 list) result" where
  "param_types pos = (case has_more_params pos of
     (False, pos) \<Rightarrow> Inr ([], pos)
   | (True, pos) \<Rightarrow> (case parse_type_raw FORBID_VOID_TYPE ''parameter'' pos of
       Inl e \<Rightarrow> Inl e
     | Inr (r, rest) \<Rightarrow> rbind (param_types rest) (\<lambda>(rs, rest). Inr (r # rs, rest))))"
  by pat_completeness auto
termination
  by (relation "measure length")
    (auto simp: has_more_params_def dest!: raw_shorter split: list.splits if_splits)

declare param_types.simps [simp del]

fun type_of :: "parse_result \<Rightarrow> Type" where
  "type_of (PRIMITIVE_TYPE t p) = t"
| "type_of (REFERENCE_TYPE name dim) = TYPE_ADR"

fun names_of :: "parse_result \<Rightarrow> u1 list set" where
  "names_of (PRIMITIVE_TYPE t p) = {}"
| "names_of (REFERENCE_TYPE name dim) = {name}"

definition slots_of :: "parse_result list \<Rightarrow> nat" where
  "slots_of rs = sum_list (map (\<lambda>r. if IS_2_WORD_TYPE (type_of r) then 2 else 1) rs)"

lemma slots_of_simps [simp]:
  "slots_of [] = 0" "slots_of (r # rs) = (if IS_2_WORD_TYPE (type_of r) then 2 else 1) + slots_of rs"
  by (simp_all add: slots_of_def)

lemma slots_ge: "length rs \<le> slots_of rs"
  by (induction rs) auto

section \<open>Pools that know a set of class names\<close>

definition known :: "DescriptorPool \<Rightarrow> u1 list set" where
  "known pool = fst ` set (dp_classrefhash pool)"

text \<open>Class names get consecutive indices, modulo the width of the index.\<close>

definition refs_ok :: "DescriptorPool \<Rightarrow> bool" where
  "refs_ok pool \<longleftrightarrow> distinct (map fst (dp_classrefhash pool)) \<and>
     (\<forall>i < length (dp_classrefhash pool). snd (dp_classrefhash pool ! i) = of_nat i)"

text \<open>Adding only appends to the class table (and counts parameters).\<close>

definition extends :: "DescriptorPool \<Rightarrow> DescriptorPool \<Rightarrow> nat \<Rightarrow> bool" where
  "extends pool pool' n \<longleftrightarrow> (\<exists>h. pool' = pool\<lparr> dp_classrefhash := h, dp_paramcount := dp_paramcount pool + n \<rparr>) \<and>
     known pool \<subseteq> known pool' \<and> known pool' \<subseteq> known pool \<union> {n. valid_name_bytes n} \<and> (refs_ok pool \<longrightarrow> refs_ok pool')"

lemma extends_refl: "extends pool pool 0"
  unfolding extends_def by (intro conjI exI [of _ "dp_classrefhash pool"]) simp_all

lemma extends_fields:
  assumes "extends pool pool' n"
  shows "dp_fieldrefhash pool' = dp_fieldrefhash pool" "dp_fieldcount pool' = dp_fieldcount pool"
    "dp_methodcount pool' = dp_methodcount pool" "dp_paramcount pool' = dp_paramcount pool + n"
    "dp_classrefs pool' = dp_classrefs pool" "dp_descriptors pool' = dp_descriptors pool"
    "dp_exception pool' = dp_exception pool" "known pool \<subseteq> known pool'" "refs_ok pool \<Longrightarrow> refs_ok pool'"
    "dp_descriptors_next pool' = dp_descriptors_next pool"
  using assms by (auto simp: extends_def)

lemma extends_trans: "extends p q m \<Longrightarrow> extends q r n \<Longrightarrow> extends p r (m + n)"
  unfolding extends_def by (auto simp: add.assoc)

lemma known_iff: "name \<in> known pool \<longleftrightarrow> map_of (dp_classrefhash pool) name \<noteq> None"
  by (simp add: known_def map_of_eq_None_iff)

lemma add_class_ok:
  assumes "add_class name pool = (pool', r)"
  shows "extends pool pool' 0 \<and> (r = Inr () \<longrightarrow> name \<in> known pool')"
proof (cases "map_of (dp_classrefhash pool) name")
  case (Some v)
  then show ?thesis using assms extends_refl by (auto simp: add_class_def known_iff)
next
  case None
  show ?thesis
  proof (cases "valid_name_bytes name")
    case False
    then show ?thesis using None assms extends_refl by (auto simp: add_class_def)
  next
    case True
    let ?h = "dp_classrefhash pool @ [(name, of_nat (length (dp_classrefhash pool)))]"
    have p: "pool' = pool\<lparr> dp_classrefhash := ?h \<rparr>" using None True assms by (simp add: add_class_def)
    have "refs_ok pool \<longrightarrow> refs_ok pool'"
      using None by (auto simp: refs_ok_def p nth_append less_Suc_eq map_of_eq_None_iff)
    then show ?thesis using True by (auto simp: extends_def known_def p)
  qed
qed

lemma check_type_ok:
  assumes "check_type flags dt pos pool = (pool', Inr (t, rest))"
  shows "extends pool pool' 0 \<and> (\<exists>r. parse_type_raw flags dt pos = Inr (r, rest) \<and> t = type_of r \<and> names_of r \<subseteq> known pool')"
proof (cases "parse_type_raw flags dt pos")
  case (Inr rr)
  obtain r q where rr: "rr = (r, q)" by (cases rr)
  show ?thesis
  proof (cases r)
    case (PRIMITIVE_TYPE t p)
    then show ?thesis using assms Inr rr extends_refl by (simp add: check_type_def)
  next
    case (REFERENCE_TYPE name dim)
    obtain p2 a where a: "add_class name pool = (p2, a)" by (cases "add_class name pool")
    then have "a = Inr ()" "pool' = p2" "t = TYPE_ADR" "rest = q"
      using assms Inr rr REFERENCE_TYPE by (auto simp: check_type_def rbind_Inr)
    then show ?thesis using add_class_ok [OF a] Inr rr REFERENCE_TYPE by simp
  qed
qed (use assms in \<open>simp add: check_type_def\<close>)

lemma more_params: "has_more_params pos = (True, p) \<Longrightarrow> p = pos"
  by (auto simp: has_more_params_def split: list.splits if_splits)

lemma check_params_ok:
  "check_params pos pool argc = (pool', Inr (argc', rest)) \<Longrightarrow>
    \<exists>rs. param_types pos = Inr (rs, rest) \<and> argc' = argc + slots_of rs \<and> (\<Union>r \<in> set rs. names_of r) \<subseteq> known pool' \<and>
      extends pool pool' (length rs)"
proof (induction "length pos" arbitrary: pos pool argc rule: less_induct)
  case less
  obtain more p where hm: "has_more_params pos = (more, p)" by (cases "has_more_params pos")
  show ?case
  proof (cases more)
    case False
    then show ?thesis using less.prems hm extends_refl by (subst param_types.simps) (simp add: check_params.simps [of pos])
  next
    case True
    then have hm: "has_more_params pos = (True, pos)" using hm more_params by simp
    let ?pool1 = "pool\<lparr> dp_paramcount := dp_paramcount pool + 1 \<rparr>"
    obtain pool2 c where c: "check_param_descriptor pos ?pool1 = (pool2, c)" by (cases "check_param_descriptor pos ?pool1")
    obtain t q where tq: "c = Inr (t, q)"
      using less.prems hm c by (cases c) (auto simp: check_params.simps [of pos])
    have run: "check_params q pool2 (argc + (if IS_2_WORD_TYPE t then 2 else 1)) = (pool', Inr (argc', rest))"
      using less.prems hm c tq by (subst (asm) check_params.simps) simp
    have ct: "check_type FORBID_VOID_TYPE ''parameter'' pos ?pool1 = (pool2, Inr (t, q))"
      using c tq by (simp add: check_param_descriptor_def)
    obtain r where r: "parse_type_raw FORBID_VOID_TYPE ''parameter'' pos = Inr (r, q)" "t = type_of r"
        "names_of r \<subseteq> known pool2" "extends ?pool1 pool2 0"
      using check_type_ok [OF ct] by blast
    obtain rs where rs: "param_types q = Inr (rs, rest)" "argc' = argc + (if IS_2_WORD_TYPE t then 2 else 1) + slots_of rs"
        "(\<Union>r \<in> set rs. names_of r) \<subseteq> known pool'" "extends pool2 pool' (length rs)"
      using less.hyps [OF check_type_shorter [OF ct] run] by blast
    have "extends pool ?pool1 1"
      unfolding extends_def by (intro conjI exI [of _ "dp_classrefhash pool"]) (simp_all add: known_def refs_ok_def)
    then have "extends pool pool' (length (r # rs))"
      using extends_trans [OF extends_trans [OF _ r(4)] rs(4)] by fastforce
    moreover have "names_of r \<subseteq> known pool'" using r(3) rs(4) by (auto simp: extends_def)
    moreover have "param_types pos = Inr (r # rs, rest)" using hm r(1) rs(1) by (subst param_types.simps) simp
    ultimately show ?thesis using rs(2,3) r(2) by (intro exI [of _ "r # rs"]) simp
  qed
qed

section \<open>Adding\<close>

datatype add_op = Add_class "u1 list" | Add_field "u1 list" | Add_method "u1 list"

fun add_one :: "add_op \<Rightarrow> DescriptorPool \<Rightarrow> DescriptorPool \<times> unit result" where
  "add_one (Add_class n) pool = add_class n pool"
| "add_one (Add_field d) pool = add_field d pool"
| "add_one (Add_method d) pool = (case add_method d pool of (pool, r) \<Rightarrow> (pool, rbind r (\<lambda>_. Inr ())))"

text \<open>Loading a class gives up at the first descriptor that is refused.\<close>

fun add_all :: "add_op list \<Rightarrow> DescriptorPool \<Rightarrow> DescriptorPool result" where
  "add_all [] pool = Inr pool"
| "add_all (a # as) pool = (case add_one a pool of (pool, Inl e) \<Rightarrow> Inl e | (pool, Inr _) \<Rightarrow> add_all as pool)"

definition field_ok :: "u1 list set \<Rightarrow> u1 list \<Rightarrow> parse_result \<Rightarrow> bool" where
  "field_ok ns d r \<longleftrightarrow> type_text r d \<and> names_of r \<subseteq> ns"

definition method_ok :: "u1 list set \<Rightarrow> u1 list \<Rightarrow> parse_result list \<Rightarrow> parse_result \<Rightarrow> bool" where
  "method_ok ns d rs r \<longleftrightarrow> (\<exists>pos rest. d = ch_open # pos \<and> param_types pos = Inr (rs, rest) \<and> type_text r rest) \<and>
     slots_of rs \<le> 255 \<and> (\<Union>r \<in> set rs. names_of r) \<subseteq> ns \<and> names_of r \<subseteq> ns"

definition nparams :: "u1 list \<Rightarrow> nat" where
  "nparams d = (case param_types (tl d) of Inr (rs, _) \<Rightarrow> length rs | Inl _ \<Rightarrow> 0)"

definition added_methods :: "add_op list \<Rightarrow> u1 list list" where
  "added_methods as = concat (map (\<lambda>a. case a of Add_method d \<Rightarrow> [d] | _ \<Rightarrow> []) as)"

definition added_fields :: "add_op list \<Rightarrow> u1 list set" where
  "added_fields as = {d. Add_field d \<in> set as}"

definition accepted :: "u1 list set \<Rightarrow> u1 list set \<Rightarrow> u1 list list \<Rightarrow> bool" where
  "accepted ns fs ms \<longleftrightarrow> (\<forall>d \<in> fs. \<exists>r. field_ok ns d r) \<and> (\<forall>d \<in> set ms. \<exists>rs r. method_ok ns d rs r)"

lemma accepted_mono: "accepted ns fs ms \<Longrightarrow> ns \<subseteq> ns' \<Longrightarrow> accepted ns' fs ms"
  unfolding accepted_def field_ok_def method_ok_def by (meson subset_trans)

text \<open>What holds of a pool to which the fields \<open>fs\<close> and the methods \<open>ms\<close> have been added.\<close>

definition pool_ok :: "u1 list set \<Rightarrow> u1 list list \<Rightarrow> DescriptorPool \<Rightarrow> bool" where
  "pool_ok fs ms pool \<longleftrightarrow> refs_ok pool \<and> dp_classrefs pool = None \<and> dp_descriptors_next pool = 0 \<and> dp_exception pool = None \<and>
     distinct (map fst (dp_fieldrefhash pool)) \<and> (\<forall>x \<in> set (dp_fieldrefhash pool). snd x = None) \<and>
     fst ` set (dp_fieldrefhash pool) = fs \<and> dp_fieldcount pool = length (dp_fieldrefhash pool) \<and>
     dp_methodcount pool = length ms \<and> dp_paramcount pool = sum_list (map nparams ms) \<and>
     accepted (known pool) fs ms"

lemma pool_ok_extends:
  assumes ok: "pool_ok fs ms pool" and ext: "extends pool pool' 0"
  shows "pool_ok fs ms pool'"
proof -
  have "accepted (known pool') fs ms"
    using ok accepted_mono extends_fields(8) [OF ext] unfolding pool_ok_def by blast
  then show ?thesis using ok extends_fields [OF ext] by (simp add: pool_ok_def)
qed

lemma expect_end: "EXPECT_END_OF_INPUT AND EXPECT_END_OF_INPUT \<noteq> 0"
  "(FORBID_VOID_TYPE OR EXPECT_END_OF_INPUT) AND EXPECT_END_OF_INPUT \<noteq> 0"
  "FORBID_VOID_TYPE AND EXPECT_END_OF_INPUT = 0"
  by (simp_all add: EXPECT_END_OF_INPUT_def FORBID_VOID_TYPE_def)

lemma add_field_ok:
  assumes ok: "pool_ok fs ms pool" and add: "add_field d pool = (pool', Inr ())"
  shows "pool_ok (insert d fs) ms pool'"
proof (cases "map_of (dp_fieldrefhash pool) d")
  case (Some v)
  then have "d \<in> fs" using ok by (force simp: pool_ok_def dest: map_of_SomeD)
  then show ?thesis using ok add Some by (simp add: add_field_def insert_absorb)
next
  case None
  obtain pool2 c where c: "check_field_descriptor d pool = (pool2, c)" by (cases "check_field_descriptor d pool")
  obtain t q where tq: "c = Inr (t, q)" using add None c by (cases c) (auto simp: add_field_def)
  have p: "pool' = pool2\<lparr> dp_fieldrefhash := dp_fieldrefhash pool2 @ [(d, None)], dp_fieldcount := dp_fieldcount pool2 + 1 \<rparr>"
    using add None c tq by (simp add: add_field_def)
  obtain r where r: "parse_type_raw (FORBID_VOID_TYPE OR EXPECT_END_OF_INPUT) ''field'' d = Inr (r, q)"
      "names_of r \<subseteq> known pool2" "extends pool pool2 0"
    using check_type_ok c tq unfolding check_field_descriptor_def by blast
  have "q = []" "type_text r d" using r(1) expect_end(2) by (auto simp: parse_type_raw_Inr)
  then have f: "field_ok (known pool2) d r" using r(2) by (simp add: field_ok_def)
  have ok2: "pool_ok fs ms pool2" using pool_ok_extends [OF ok r(3)] .
  have new: "d \<notin> fst ` set (dp_fieldrefhash pool2)"
    using None extends_fields(1) [OF r(3)] by (simp add: map_of_eq_None_iff)
  have k: "known pool' = known pool2" "refs_ok pool' = refs_ok pool2" by (simp_all add: p known_def refs_ok_def)
  have "accepted (known pool') (insert d fs) ms" using ok2 f by (auto simp: pool_ok_def k accepted_def)
  then show ?thesis using ok2 new by (simp add: pool_ok_def k) (simp add: p)
qed

lemma add_method_ok:
  assumes ok: "pool_ok fs ms pool" and add: "add_method d pool = (pool', Inr n)"
  shows "pool_ok fs (d # ms) pool' \<and> (\<exists>rs r. method_ok (known pool') d rs r \<and> n = slots_of rs)"
proof -
  obtain pos where pos: "start_param_list d = Inr pos" using add by (cases "start_param_list d") (auto simp: add_method_def)
  then have d: "d = ch_open # pos" by (auto simp: start_param_list_def split: list.splits if_splits)
  obtain pool1 c where c: "check_params pos pool 0 = (pool1, c)" by (cases "check_params pos pool 0")
  obtain argc rest where ar: "c = Inr (argc, rest)" using add pos c by (cases c) (auto simp: add_method_def)
  have le: "argc \<le> 255" using add pos c ar by (auto simp: add_method_def split: if_splits)
  obtain pool2 c2 where c2: "check_return_descriptor rest pool1 = (pool2, c2)" by (cases "check_return_descriptor rest pool1")
  obtain t q where tq: "c2 = Inr (t, q)" using add pos c ar c2 le by (cases c2) (auto simp: add_method_def)
  have p: "pool' = pool2\<lparr> dp_methodcount := dp_methodcount pool2 + 1 \<rparr>" "n = argc"
    using add pos c ar c2 tq le by (auto simp: add_method_def)
  obtain rs where rs: "param_types pos = Inr (rs, rest)" "argc = slots_of rs" "(\<Union>r \<in> set rs. names_of r) \<subseteq> known pool1"
      "extends pool pool1 (length rs)"
    using check_params_ok [OF c [unfolded ar]] by auto
  obtain r where r: "parse_type_raw EXPECT_END_OF_INPUT ''return type'' rest = Inr (r, q)" "names_of r \<subseteq> known pool2"
      "extends pool1 pool2 0"
    using check_type_ok [OF c2 [unfolded check_return_descriptor_def tq]] by blast
  have "type_text r rest" using r(1) expect_end(1) by (auto simp: parse_type_raw_Inr)
  moreover have "known pool1 \<subseteq> known pool2" using r(3) by (simp add: extends_def)
  ultimately have m: "method_ok (known pool2) d rs r"
    unfolding method_ok_def using rs(1) r(2) le rs(2) subset_trans [OF rs(3)] by (intro conjI exI [of _ pos] exI [of _ rest] d) simp_all
  have np: "nparams d = length rs" using d rs(1) by (simp add: nparams_def)
  have ext: "extends pool pool2 (length rs)" using extends_trans [OF rs(4) r(3)] by simp
  have k: "known pool' = known pool2" "refs_ok pool' = refs_ok pool2" by (simp_all add: p known_def refs_ok_def)
  have "accepted (known pool2) fs ms"
    using ok accepted_mono extends_fields(8) [OF ext] unfolding pool_ok_def by blast
  then have "accepted (known pool2) fs (d # ms)" using m by (auto simp: accepted_def)
  then have "pool_ok fs (d # ms) pool'"
    using ok extends_fields [OF ext] unfolding pool_ok_def k by (simp add: p np)
  then show ?thesis using m k p(2) rs(2) by auto
qed

lemma add_one_ok:
  assumes "pool_ok fs ms pool" and "add_one a pool = (pool', Inr ())"
  shows "pool_ok (added_fields [a] \<union> fs) (added_methods [a] @ ms) pool'"
proof (cases a)
  case (Add_class n)
  then show ?thesis
    using assms add_class_ok [of n pool pool' "Inr ()"] pool_ok_extends
    by (auto simp: added_fields_def added_methods_def)
next
  case (Add_field d)
  then have "pool_ok (insert d fs) ms pool'" using assms add_field_ok by simp
  moreover have "added_fields [a] = {d}" "added_methods [a] = []"
    using Add_field by (auto simp: added_fields_def added_methods_def)
  ultimately show ?thesis by simp
next
  case (Add_method d)
  obtain q r where q: "add_method d pool = (q, r)" by (cases "add_method d pool")
  then obtain n where "r = Inr n" "q = pool'" using assms(2) Add_method by (auto simp: rbind_Inr)
  then have "pool_ok fs (d # ms) pool'" using add_method_ok [OF assms(1)] q by simp
  then show ?thesis using Add_method by (simp add: added_fields_def added_methods_def)
qed

lemma add_all_ok:
  "pool_ok fs ms pool \<Longrightarrow> add_all as pool = Inr pool' \<Longrightarrow>
    pool_ok (added_fields as \<union> fs) (rev (added_methods as) @ ms) pool'"
proof (induction as arbitrary: fs ms pool)
  case Nil
  then show ?case by (simp add: added_fields_def added_methods_def)
next
  case (Cons a as)
  obtain q r where q: "add_one a pool = (q, r)" by (cases "add_one a pool")
  then have r: "r = Inr ()" "add_all as q = Inr pool'" using Cons.prems(2) by (auto split: sum.splits)
  have "pool_ok (added_fields [a] \<union> fs) (added_methods [a] @ ms) q" using add_one_ok Cons.prems(1) q r(1) by simp
  note ih = Cons.IH [OF this r(2)]
  have "added_fields as \<union> (added_fields [a] \<union> fs) = added_fields (a # as) \<union> fs" by (auto simp: added_fields_def)
  moreover have "rev (added_methods as) @ added_methods [a] @ ms = rev (added_methods (a # as)) @ ms"
    by (cases a) (simp_all add: added_methods_def)
  ultimately show ?case using ih by (simp only:)
qed

lemma pool_ok_new: "pool_ok {} [] DescriptorPool_new"
  by (simp add: pool_ok_def DescriptorPool_new_def refs_ok_def accepted_def)

section \<open>Parsing\<close>

text \<open>The parsed form of a type in a pool.\<close>

fun td_of :: "DescriptorPool \<Rightarrow> parse_result \<Rightarrow> typedesc" where
  "td_of pool (PRIMITIVE_TYPE t p) = \<lparr> td_classref = None, td_type = t, td_primitivetype = p, td_arraydim = 0 \<rparr>"
| "td_of pool (REFERENCE_TYPE name dim) = \<lparr> td_classref = map_option unat (map_of (dp_classrefhash pool) name),
     td_type = TYPE_ADR, td_primitivetype = PRIMITIVETYPE_DUMMY1, td_arraydim = dim \<rparr>"

lemma td_of_type [simp]: "td_type (td_of pool r) = type_of r"
  by (cases r) simp_all

lemma td_of_allocate [simp]: "td_of (allocate n pool) r = td_of pool r"
  by (cases r) (simp_all add: allocate_def)

lemma allocate_fields [simp]: "known (allocate n pool) = known pool" "dp_classrefs (allocate n pool) = dp_classrefs pool"
  "dp_descriptors (allocate n pool) = dp_descriptors pool" "dp_fieldrefhash (allocate n pool) = dp_fieldrefhash pool"
  by (simp_all add: allocate_def known_def)

lemma allocate_allocate [simp]: "allocate m (allocate n pool) = allocate (n + m) pool" and allocate_0 [simp]: "allocate 0 pool = pool"
  by (simp_all add: allocate_def)

lemma parse_typedesc_ok:
  assumes "parse_type_raw flags dt pos = Inr (r, rest)" "names_of r \<subseteq> known pool" "dp_classrefs pool \<noteq> None"
  shows "parse_typedesc flags dt pos pool = (pool, Inr (td_of pool r, rest))"
  using assms by (cases r) (auto simp: parse_typedesc_def lookup_classref_def known_iff)

lemma parse_params_ok:
  "param_types pos = Inr (rs, rest) \<Longrightarrow> (\<Union>r \<in> set rs. names_of r) \<subseteq> known pool \<Longrightarrow> dp_classrefs pool \<noteq> None \<Longrightarrow>
    parse_params pos pool slots tds =
      (allocate (length rs * sizeof_typedesc) pool, Inr (slots + slots_of rs, tds @ map (td_of pool) rs, rest))"
proof (induction "length pos" arbitrary: pos pool slots tds rs rule: less_induct)
  case less
  obtain more p where hm: "has_more_params pos = (more, p)" by (cases "has_more_params pos")
  show ?case
  proof (cases more)
    case False
    then show ?thesis using less.prems hm by (subst parse_params.simps) (simp add: param_types.simps [of pos])
  next
    case True
    then have hm: "has_more_params pos = (True, pos)" using hm more_params by simp
    obtain r q rs' where r: "parse_type_raw FORBID_VOID_TYPE ''parameter'' pos = Inr (r, q)" "param_types q = Inr (rs', rest)" "rs = r # rs'"
      using less.prems(1) hm by (subst (asm) param_types.simps) (auto simp: rbind_Inr split: sum.splits)
    let ?pool = "allocate sizeof_typedesc pool"
    have "parse_typedesc FORBID_VOID_TYPE ''parameter'' pos ?pool = (?pool, Inr (td_of pool r, q))"
      using parse_typedesc_ok [OF r(1), of ?pool] less.prems(2,3) r(3) by simp
    moreover have "length q < length pos" using raw_shorter [OF r(1)] .
    ultimately show ?thesis
      using less.hyps [OF _ r(2), of ?pool] less.prems(2,3) r(3) hm
      by (subst parse_params.simps) (simp add: add.assoc)
  qed
qed

text \<open>The parsed form of a method descriptor with parameters \<open>rs\<close> and return type \<open>r\<close>.\<close>

definition has_this :: "int \<Rightarrow> bool" where
  "has_this mflags \<longleftrightarrow> mflags \<noteq> ACC_UNDEF \<and> mflags AND ACC_STATIC = 0"

definition md_of :: "DescriptorPool \<Rightarrow> int \<Rightarrow> nat option \<Rightarrow> parse_result list \<Rightarrow> parse_result \<Rightarrow> methoddesc" where
  "md_of pool mflags thisclass rs r =
     (let this_td = zero_typedesc\<lparr> td_type := TYPE_ADR, td_arraydim := 0, td_classref := thisclass \<rparr>;
          tds = (if has_this mflags then [this_td] else []) @ map (td_of pool) rs
      in \<lparr> md_paramcount = length tds, md_paramslots = (if has_this mflags then 1 else 0) + slots_of rs,
           md_params = (if mflags = ACC_UNDEF then Params_NULL
                        else if length tds > 0 then Params_array (length tds) else METHODDESC_NOPARAMS),
           md_pool_lock = (mflags = ACC_UNDEF), md_returntype = td_of pool r,
           md_paramtypes = (if mflags = ACC_UNDEF then tds @ [zero_typedesc\<lparr> td_classref := thisclass \<rparr>] else tds) \<rparr>)"

definition md_size :: "int \<Rightarrow> nat \<Rightarrow> nat" where
  "md_size mflags n = offsetof_paramtypes + (n + (if has_this mflags \<or> mflags = ACC_UNDEF then 1 else 0)) * sizeof_typedesc"

lemma method_okE:
  assumes "method_ok ns d rs r"
  obtains pos rest where "d = ch_open # pos" "param_types pos = Inr (rs, rest)"
    "parse_type_raw EXPECT_END_OF_INPUT ''return type'' rest = Inr (r, [])" "(\<Union>r \<in> set rs. names_of r) \<subseteq> ns" "names_of r \<subseteq> ns"
  using assms expect_end(1) unfolding method_ok_def by (auto simp: parse_type_raw_Inr)

lemma parse_method_ok:
  assumes m: "method_ok (known pool) d rs r" and "dp_classrefs pool \<noteq> None" "dp_descriptors pool"
  shows "parse_method_descriptor d mflags thisclass pool =
    (allocate (md_size mflags (length rs)) pool, Inr (md_of pool mflags thisclass rs r))"
proof (rule method_okE [OF m])
  fix pos rest
  assume d: "d = ch_open # pos" and ps: "param_types pos = Inr (rs, rest)"
    and ret: "parse_type_raw EXPECT_END_OF_INPUT ''return type'' rest = Inr (r, [])"
    and ns: "(\<Union>r \<in> set rs. names_of r) \<subseteq> known pool" "names_of r \<subseteq> known pool"
  have params: "parse_params pos (allocate n pool) slots tds =
      (allocate (n + length rs * sizeof_typedesc) pool, Inr (slots + slots_of rs, tds @ map (td_of pool) rs, rest))" for n slots tds
    using parse_params_ok [OF ps, of "allocate n pool"] ns assms(2) by simp
  have returns: "parse_typedesc EXPECT_END_OF_INPUT ''return type'' rest (allocate n pool) = (allocate n pool, Inr (td_of pool r, []))" for n
    using parse_typedesc_ok [OF ret, of "allocate n pool"] ns assms(2) by simp
  show ?thesis
    using assms(3)
    by (cases "mflags = ACC_UNDEF"; cases "mflags AND ACC_STATIC = 0")
      (simp_all add: parse_method_descriptor_def d start_param_list_def Let_def params returns md_of_def has_this_def md_size_def algebra_simps)
qed

section \<open>The whole life of a pool\<close>

datatype parse_op = Parse_field "u1 list" | Parse_method "u1 list" int "nat option"

datatype parsed = Parsed_field typedesc | Parsed_method methoddesc

fun parse_one :: "parse_op \<Rightarrow> DescriptorPool \<Rightarrow> DescriptorPool \<times> parsed result" where
  "parse_one (Parse_field d) pool = (case parse_field_descriptor d pool of (pool, r) \<Rightarrow> (pool, rbind r (\<lambda>td. Inr (Parsed_field td))))"
| "parse_one (Parse_method d mflags this) pool =
     (case parse_method_descriptor d mflags this pool of (pool, r) \<Rightarrow> (pool, rbind r (\<lambda>md. Inr (Parsed_method md))))"

fun parse_all :: "parse_op list \<Rightarrow> DescriptorPool \<Rightarrow> DescriptorPool \<times> parsed list result" where
  "parse_all [] pool = (pool, Inr [])"
| "parse_all (x # xs) pool = (case parse_one x pool of
     (pool, Inl e) \<Rightarrow> (pool, Inl e)
   | (pool, Inr p) \<Rightarrow> (case parse_all xs pool of (pool, r) \<Rightarrow> (pool, rbind r (\<lambda>ps. Inr (p # ps)))))"

definition prepare :: "DescriptorPool \<Rightarrow> DescriptorPool" where
  "prepare pool = alloc_parsed_descriptors (fst (create_classrefs pool))"

definition parse_fields :: "parse_op list \<Rightarrow> u1 list set" where
  "parse_fields xs = {d. Parse_field d \<in> set xs}"

fun method_op :: "parse_op \<Rightarrow> u1 list list" where
  "method_op (Parse_method d mflags this) = [d]"
| "method_op (Parse_field d) = []"

definition parse_methods :: "parse_op list \<Rightarrow> u1 list list" where
  "parse_methods xs = concat (map method_op xs)"

text \<open>While descriptors are parsed: \<open>ms\<close> are the methods still to be parsed, and the fields still
  without a parsed form; what they need is still free.\<close>

definition unparsed :: "DescriptorPool \<Rightarrow> nat" where
  "unparsed pool = length (filter (\<lambda>x. snd x = None) (dp_fieldrefhash pool))"

definition need :: "u1 list \<Rightarrow> nat" where
  "need d = sizeof_methoddesc + nparams d * sizeof_typedesc"

definition parsing_ok :: "u1 list set \<Rightarrow> u1 list multiset \<Rightarrow> DescriptorPool \<Rightarrow> bool" where
  "parsing_ok fs ms pool \<longleftrightarrow> dp_classrefs pool \<noteq> None \<and> dp_exception pool = None \<and>
     (fs \<noteq> {} \<or> ms \<noteq> {#} \<longrightarrow> dp_descriptors pool) \<and>
     distinct (map fst (dp_fieldrefhash pool)) \<and> fst ` set (dp_fieldrefhash pool) = fs \<and>
     (\<forall>d \<in> fs. \<exists>r. field_ok (known pool) d r) \<and> (\<forall>d \<in># ms. \<exists>rs r. method_ok (known pool) d rs r) \<and>
     dp_descriptors_next pool + unparsed pool * sizeof_typedesc + (\<Sum>d \<in># ms. need d) \<le> dp_descriptorsize pool"

lemma create_classrefs_fields: "fst (create_classrefs pool) = pool\<lparr> dp_classrefs := dp_classrefs (fst (create_classrefs pool)) \<rparr>"
  "dp_classrefs (fst (create_classrefs pool)) \<noteq> None"
  by (simp_all add: create_classrefs_def Let_def)

lemma prepare_fields:
  "dp_classrefhash (prepare pool) = dp_classrefhash pool" "dp_fieldrefhash (prepare pool) = dp_fieldrefhash pool"
  "dp_exception (prepare pool) = dp_exception pool" "dp_classrefs (prepare pool) = dp_classrefs (fst (create_classrefs pool))"
  "dp_descriptorsize (prepare pool) = dp_fieldcount pool * 16 + dp_methodcount pool * 64 + dp_paramcount pool * 16"
  "dp_fieldcount pool + dp_methodcount pool \<noteq> 0 \<Longrightarrow> dp_descriptors (prepare pool)"
  "dp_descriptors_next pool = 0 \<Longrightarrow> dp_descriptors_next (prepare pool) = 0"
  by (auto simp: prepare_def alloc_parsed_descriptors_def Let_def sizeof_typedesc_def sizeof_methoddesc_def create_classrefs_def)

lemma prepare_ok:
  assumes "pool_ok fs ms pool"
  shows "parsing_ok fs (mset ms) (prepare pool)"
proof -
  have k: "known (prepare pool) = known pool" by (simp add: known_def prepare_fields)
  have cnt: "dp_fieldcount pool = length (dp_fieldrefhash pool)" "dp_methodcount pool = length ms"
      "dp_paramcount pool = sum_list (map nparams ms)" "fst ` set (dp_fieldrefhash pool) = fs"
    using assms by (simp_all add: pool_ok_def)
  have "unparsed (prepare pool) = dp_fieldcount pool"
    using assms by (auto simp: unparsed_def prepare_fields pool_ok_def intro!: arg_cong [of _ _ length] filter_True)
  moreover have "(\<Sum>d \<in># mset ms. need d) = dp_methodcount pool * 64 + dp_paramcount pool * 16"
    unfolding cnt by (induction ms) (simp_all add: need_def sizeof_methoddesc_def sizeof_typedesc_def)
  ultimately have "dp_descriptors_next (prepare pool) + unparsed (prepare pool) * sizeof_typedesc + (\<Sum>d \<in># mset ms. need d)
      \<le> dp_descriptorsize (prepare pool)"
    using assms by (simp add: prepare_fields sizeof_typedesc_def pool_ok_def)
  moreover have "fs \<noteq> {} \<or> mset ms \<noteq> {#} \<longrightarrow> dp_descriptors (prepare pool)"
    using cnt by (auto intro!: prepare_fields)
  moreover have "accepted (known (prepare pool)) fs ms" using assms by (simp add: pool_ok_def k)
  ultimately show ?thesis
    using assms create_classrefs_fields(2) by (simp add: parsing_ok_def prepare_fields pool_ok_def accepted_def)
qed

section \<open>Every parse succeeds\<close>

lemma method_ok_nparams: "method_ok ns d rs r \<Longrightarrow> nparams d = length rs"
  by (auto simp: method_ok_def nparams_def)

lemma md_size_need: "method_ok ns d rs r \<Longrightarrow> md_size mflags (length rs) \<le> need d"
  by (simp add: md_size_def need_def method_ok_nparams offsetof_paramtypes_def sizeof_methoddesc_def sizeof_typedesc_def)

lemma parse_method_step:
  assumes ok: "parsing_ok fs ms pool" and d: "d \<in># ms"
  shows "\<exists>pool' md. parse_method_descriptor d mflags this pool = (pool', Inr md) \<and> parsing_ok fs (ms - {#d#}) pool' \<and>
    dp_descriptorsize pool' = dp_descriptorsize pool"
proof -
  obtain rs r where m: "method_ok (known pool) d rs r" using ok d by (auto simp: parsing_ok_def)
  let ?pool = "allocate (md_size mflags (length rs)) pool"
  have des: "dp_descriptors pool" using ok d by (auto simp: parsing_ok_def)
  have run: "parse_method_descriptor d mflags this pool = (?pool, Inr (md_of pool mflags this rs r))"
    using parse_method_ok [OF m] ok des by (simp add: parsing_ok_def)
  have un: "unparsed ?pool = unparsed pool" by (simp add: unparsed_def)
  have sum: "(\<Sum>d \<in># ms. need d) = need d + (\<Sum>d \<in># ms - {#d#}. need d)"
    using d by (metis insert_DiffM image_mset_add_mset sum_mset.add_mset)
  have "dp_descriptors_next ?pool + unparsed ?pool * sizeof_typedesc + (\<Sum>d \<in># ms - {#d#}. need d) \<le> dp_descriptorsize ?pool"
    using ok md_size_need [OF m, of mflags] sum unfolding un parsing_ok_def by (simp add: allocate_def)
  then have "parsing_ok fs (ms - {#d#}) ?pool"
    using ok des by (auto simp: parsing_ok_def allocate_def known_def dest: in_diffD)
  then show ?thesis using run by (auto simp: allocate_def)
qed

lemma upd_fields:
  assumes "distinct (map fst h)" "map_of h d = Some None"
  shows "length (filter (\<lambda>x. snd x = None) h) =
    Suc (length (filter (\<lambda>x. snd x = None) (map (\<lambda>(k, v). (k, if k = d then Some td else v)) h)))"
  using assms
proof (induction h)
  case (Cons x h)
  obtain k v where x: "x = (k, v)" by (cases x)
  show ?case
  proof (cases "k = d")
    case True
    then have "map (\<lambda>(k, v). (k, if k = d then Some td else v)) h = h"
      using Cons.prems(1) x by (intro map_idI) (auto simp: image_iff)
    then show ?thesis using True x Cons.prems(2) by simp
  next
    case False
    then show ?thesis using Cons x by simp
  qed
qed simp

lemma parse_field_step:
  assumes ok: "parsing_ok fs ms pool" and d: "d \<in> fs"
  shows "\<exists>pool' td. parse_field_descriptor d pool = (pool', Inr td) \<and> parsing_ok fs ms pool' \<and>
    dp_descriptorsize pool' = dp_descriptorsize pool"
proof -
  have des: "dp_descriptors pool" using ok d by (auto simp: parsing_ok_def)
  have "map_of (dp_fieldrefhash pool) d \<noteq> None" using ok d by (auto simp: parsing_ok_def map_of_eq_None_iff)
  then consider td where "map_of (dp_fieldrefhash pool) d = Some (Some td)" | "map_of (dp_fieldrefhash pool) d = Some None"
    by (metis not_None_eq)
  then show ?thesis
  proof cases
    case (1 td)
    then show ?thesis using ok des by (simp add: parse_field_descriptor_def)
  next
    case 2
    obtain r where f: "field_ok (known pool) d r" using ok d by (auto simp: parsing_ok_def)
    then have raw: "parse_type_raw (FORBID_VOID_TYPE OR EXPECT_END_OF_INPUT) ''field'' d = Inr (r, [])"
      by (simp add: field_ok_def parse_type_raw_Inr)
    let ?pool = "allocate sizeof_typedesc pool" and ?td = "td_of pool r"
    let ?h = "map (\<lambda>(k, v). (k, if k = d then Some ?td else v)) (dp_fieldrefhash pool)"
    let ?pool' = "?pool\<lparr> dp_fieldrefhash := ?h \<rparr>"
    have "parse_typedesc (FORBID_VOID_TYPE OR EXPECT_END_OF_INPUT) ''field'' d ?pool = (?pool, Inr (?td, []))"
      using parse_typedesc_ok [OF raw, of ?pool] f ok by (simp add: field_ok_def parsing_ok_def)
    then have run: "parse_field_descriptor d pool = (?pool', Inr ?td)"
      using des 2 by (simp add: parse_field_descriptor_def)
    have keys: "map fst ?h = map fst (dp_fieldrefhash pool)" by (simp add: comp_def case_prod_beta)
    then have fset: "fst ` set ?h = fs" using ok unfolding parsing_ok_def by (metis list.set_map)
    have dist: "distinct (map fst ?h)" unfolding keys using ok by (simp add: parsing_ok_def)
    have "unparsed pool = Suc (unparsed ?pool')"
      using upd_fields [OF _ 2, of ?td] ok by (simp add: parsing_ok_def unparsed_def)
    then have "dp_descriptors_next ?pool' + unparsed ?pool' * sizeof_typedesc + (\<Sum>d \<in># ms. need d) \<le> dp_descriptorsize ?pool'"
      using ok by (simp add: parsing_ok_def allocate_def)
    moreover have "known ?pool' = known pool" by (simp add: known_def allocate_def)
    ultimately have "parsing_ok fs ms ?pool'"
      using ok des dist fset unfolding parsing_ok_def by (simp add: allocate_def)
    then show ?thesis using run by (auto simp: allocate_def)
  qed
qed

lemma parse_one_ok:
  assumes "parsing_ok fs ms pool" and "parse_fields [x] \<subseteq> fs" "mset (method_op x) \<subseteq># ms"
  shows "\<exists>pool' p. parse_one x pool = (pool', Inr p) \<and> parsing_ok fs (ms - mset (method_op x)) pool' \<and>
    dp_descriptorsize pool' = dp_descriptorsize pool"
proof (cases x)
  case (Parse_field d)
  then have "d \<in> fs" using assms(2) by (simp add: parse_fields_def)
  then show ?thesis using parse_field_step [OF assms(1), of d] Parse_field by auto
next
  case (Parse_method d mflags this)
  then have "d \<in># ms" using assms(3) by (simp add: single_subset_iff)
  then show ?thesis using parse_method_step [OF assms(1), of d mflags this] Parse_method by auto
qed

lemma parse_all_ok:
  "parsing_ok fs ms pool \<Longrightarrow> parse_fields xs \<subseteq> fs \<Longrightarrow> mset (parse_methods xs) \<subseteq># ms \<Longrightarrow>
    \<exists>pool' ps. parse_all xs pool = (pool', Inr ps) \<and> length ps = length xs \<and> dp_descriptorsize pool' = dp_descriptorsize pool \<and>
      parsing_ok fs (ms - mset (parse_methods xs)) pool'"
proof (induction xs arbitrary: ms pool)
  case Nil
  then show ?case by (simp add: parse_methods_def)
next
  case (Cons x xs)
  have sub: "parse_fields [x] \<subseteq> fs" "parse_fields xs \<subseteq> fs" using Cons.prems(2) by (auto simp: parse_fields_def)
  have split: "mset (parse_methods (x # xs)) = mset (method_op x) + mset (parse_methods xs)" by (simp add: parse_methods_def)
  have ms: "mset (method_op x) + mset (parse_methods xs) \<subseteq># ms" using Cons.prems(3) split by simp
  have here: "mset (method_op x) \<subseteq># ms" using ms by (rule subset_mset.order_trans [OF mset_subset_eq_add_left])
  have there: "mset (parse_methods xs) \<subseteq># ms - mset (method_op x)"
    using subset_eq_diff_conv ms by (metis add.commute add_diff_cancel_left' here mset_subset_eq_mono_add_right_cancel subset_mset.diff_add)
  obtain q p where q: "parse_one x pool = (q, Inr p)" "parsing_ok fs (ms - mset (method_op x)) q"
      "dp_descriptorsize q = dp_descriptorsize pool"
    using parse_one_ok [OF Cons.prems(1) sub(1) here] by blast
  obtain pool' ps where "parse_all xs q = (pool', Inr ps)" "length ps = length xs" "dp_descriptorsize pool' = dp_descriptorsize q"
      "parsing_ok fs (ms - mset (method_op x) - mset (parse_methods xs)) pool'"
    using Cons.IH [OF q(2) sub(2) there] by blast
  then show ?case using q(1,3) split by (intro exI [of _ pool'] exI [of _ "p # ps"]) (simp add: diff_diff_add_mset)
qed

lemma parsing_ok_fits: "parsing_ok fs ms pool \<Longrightarrow> dp_exception pool = None \<and> dp_descriptors_next pool \<le> dp_descriptorsize pool"
  by (simp add: parsing_ok_def)

text \<open>Names stay known.\<close>

lemma add_field_known: "add_field d pool = (pool', Inr u) \<Longrightarrow> known pool \<subseteq> known pool'"
  by (auto simp: add_field_def check_field_descriptor_def known_def
      split: option.splits prod.splits sum.splits dest!: check_type_ok [THEN conjunct1, THEN extends_fields(8), unfolded known_def, THEN subsetD])

lemma add_method_known: "add_method d pool = (pool', Inr n) \<Longrightarrow> known pool \<subseteq> known pool'"
proof -
  assume a: "add_method d pool = (pool', Inr n)"
  then obtain pos pool1 c rest pool2 t q where 1: "check_params pos pool 0 = (pool1, Inr (c, rest))"
      "check_return_descriptor rest pool1 = (pool2, Inr (t, q))" "pool' = pool2\<lparr> dp_methodcount := dp_methodcount pool2 + 1 \<rparr>"
    by (auto simp: add_method_def split: sum.splits prod.splits if_splits)
  have "known pool \<subseteq> known pool1" using check_params_ok [OF 1(1)] extends_fields(8) by blast
  also have "\<dots> \<subseteq> known pool2" using check_type_ok [OF 1(2) [unfolded check_return_descriptor_def]] extends_fields(8) by blast
  finally show ?thesis using 1(3) by (simp add: known_def)
qed

lemma add_one_known: "add_one a pool = (pool', Inr u) \<Longrightarrow> known pool \<subseteq> known pool'"
  using add_class_ok extends_fields(8) add_field_known add_method_known
  by (cases a) (auto simp: rbind_Inr split: prod.splits, blast+)

lemma add_all_known: "add_all as pool = Inr pool' \<Longrightarrow> known pool \<subseteq> known pool'"
proof (induction as arbitrary: pool)
  case (Cons a as)
  obtain q r where q: "add_one a pool = (q, r)" by (cases "add_one a pool")
  then have "r = Inr ()" "add_all as q = Inr pool'" using Cons.prems by (auto split: sum.splits)
  then show ?case using Cons.IH add_one_known q by blast
qed simp

section \<open>The text of a type\<close>

text \<open>A reference definition: how a type is written.\<close>

fun primitive_char :: "PrimitiveType \<Rightarrow> u1" where
  "primitive_char PRIMITIVETYPE_BYTE = ch_B"
| "primitive_char PRIMITIVETYPE_CHAR = ch_C"
| "primitive_char PRIMITIVETYPE_DOUBLE = ch_D"
| "primitive_char PRIMITIVETYPE_FLOAT = ch_F"
| "primitive_char PRIMITIVETYPE_INT = ch_I"
| "primitive_char PRIMITIVETYPE_LONG = ch_J"
| "primitive_char PRIMITIVETYPE_SHORT = ch_S"
| "primitive_char PRIMITIVETYPE_BOOLEAN = ch_Z"
| "primitive_char PRIMITIVETYPE_VOID = ch_V"
| "primitive_char PRIMITIVETYPE_DUMMY1 = 0"

fun print_type :: "parse_result \<Rightarrow> u1 list" where
  "print_type (PRIMITIVE_TYPE t p) = [primitive_char p]"
| "print_type (REFERENCE_TYPE name dim) = (if dim = 0 then ch_L # name @ [ch_semicolon] else name)"

text \<open>The types of fields and parameters (JVM specification 4.3.2); \<open>void\<close> is not one of them, it is the type of a method that returns
  nothing (4.3.3).\<close>

fun wf_type :: "parse_result \<Rightarrow> bool" where
  "wf_type (PRIMITIVE_TYPE t p) \<longleftrightarrow> p \<noteq> PRIMITIVETYPE_DUMMY1 \<and> p \<noteq> PRIMITIVETYPE_VOID \<and>
     t = (case p of PRIMITIVETYPE_DOUBLE \<Rightarrow> TYPE_DBL | PRIMITIVETYPE_FLOAT \<Rightarrow> TYPE_FLT | PRIMITIVETYPE_LONG \<Rightarrow> TYPE_LNG | _ \<Rightarrow> TYPE_INT)"
| "wf_type (REFERENCE_TYPE name dim) \<longleftrightarrow> units name \<noteq> None \<and>
     (if dim = 0 then ch_semicolon \<notin> set name
      else dim \<le> 255 \<and> take dim name = replicate dim ch_array \<and> array_element (drop dim name))"

definition void_type :: parse_result where
  "void_type = PRIMITIVE_TYPE TYPE_VOID PRIMITIVETYPE_VOID"

definition accepted_type :: "parse_result \<Rightarrow> bool" where
  "accepted_type r \<longleftrightarrow> wf_type r \<or> r = void_type"

lemma accepted_type_simps [simp]:
  "accepted_type (PRIMITIVE_TYPE t p) \<longleftrightarrow> p \<noteq> PRIMITIVETYPE_DUMMY1 \<and>
     t = (case p of PRIMITIVETYPE_DOUBLE \<Rightarrow> TYPE_DBL | PRIMITIVETYPE_FLOAT \<Rightarrow> TYPE_FLT | PRIMITIVETYPE_LONG \<Rightarrow> TYPE_LNG
            | PRIMITIVETYPE_VOID \<Rightarrow> TYPE_VOID | _ \<Rightarrow> TYPE_INT)"
  "accepted_type (REFERENCE_TYPE name dim) \<longleftrightarrow> wf_type (REFERENCE_TYPE name dim)"
  by (cases p; auto simp: accepted_type_def void_type_def)+

lemma primitive_case_char:
  "primitive_case c = Some (t, p) \<longleftrightarrow> accepted_type (PRIMITIVE_TYPE t p) \<and> c = primitive_char p"
  by (cases p) (auto simp: primitive_case_def)

lemma type_text_print: "type_text r text \<longleftrightarrow> accepted_type r \<and> text = print_type r"
proof (cases r)
  case (PRIMITIVE_TYPE t p)
  then show ?thesis by (auto simp: primitive_case_char)
next
  case (REFERENCE_TYPE name dim)
  have "(\<exists>el. name = replicate dim ch_array @ el \<and> array_element el) \<longleftrightarrow>
      take dim name = replicate dim ch_array \<and> array_element (drop dim name)"
    by (metis append_eq_conv_conj append_take_drop_id length_replicate)
  then show ?thesis using REFERENCE_TYPE by auto
qed

text \<open>\<^bold>\<open>C27.\<close> Round trip of the descriptor parser: \<open>DescriptorParser::parse_type\<close> accepts a text
  exactly if it starts with the written form of a field type (a primitive type, a class name
  without semicolon in valid UTF-8, an array type of at most 255 dimensions) or with \<open>V\<close>, returns that type and stops right
  behind it; where the end of the input is expected nothing may follow. It accepts \<open>V\<close> in every position, for fields and parameters
  too, where the flag \<open>FORBID_VOID_TYPE\<close> is meant to refuse it: the flag has the value zero.\<close>

theorem parse_type_roundtrip:
  "parse_type_raw flags dt pos = Inr (r, rest) \<longleftrightarrow>
    (wf_type r \<or> r = void_type) \<and> pos = print_type r @ rest \<and> (flags AND EXPECT_END_OF_INPUT = 0 \<or> rest = [])"
  by (auto simp: parse_type_raw_Inr type_text_print accepted_type_def)

section \<open>The contract of a descriptor pool\<close>

text \<open>\<^bold>\<open>C28.\<close> The phases of a descriptor pool fit together: after any sequence of \<open>add_class\<close>, \<open>add_field\<close>
  and \<open>add_method\<close> calls that were all accepted, once the class references and the memory block are allocated,
  every added field (any number of times) and every added method (as often as it was added, with any flags)
  can be parsed: no call fails, no exception is pending (every class reference is found), and the memory
  handed out without any check by \<open>DescriptorPool::allocate\<close> stays inside the block sized by
  \<open>alloc_parsed_descriptors\<close>.\<close>

theorem descriptor_pool_safe:
  assumes "add_all ops DescriptorPool_new = Inr pool"
    and "parse_fields xs \<subseteq> added_fields ops" and "mset (parse_methods xs) \<subseteq># mset (added_methods ops)"
  shows "\<exists>pool' ps. parse_all xs (prepare pool) = (pool', Inr ps) \<and> length ps = length xs \<and> dp_exception pool' = None \<and>
    dp_descriptors_next pool' \<le> dp_descriptorsize pool' \<and> dp_descriptorsize pool' = dp_descriptorsize (prepare pool)"
proof -
  have "pool_ok (added_fields ops) (rev (added_methods ops)) pool" using add_all_ok [OF pool_ok_new assms(1)] by simp
  from parse_all_ok [OF prepare_ok [OF this] assms(2)] show ?thesis using assms(3) parsing_ok_fits by fastforce
qed

theorem descriptor_pool_safe_witness:
  "\<exists>pool pool' ps. add_all [Add_field [ch_J], Add_method [ch_open, ch_J, ch_close, ch_V]] DescriptorPool_new = Inr pool \<and>
    parse_all [Parse_method [ch_open, ch_J, ch_close, ch_V] ACC_UNDEF (Some 0), Parse_field [ch_J], Parse_field [ch_J]] (prepare pool) = (pool', Inr ps) \<and>
    length ps = 3 \<and> dp_descriptors_next pool' \<le> dp_descriptorsize pool'"
proof -
  have "\<not> isl (add_all [Add_field [ch_J], Add_method [ch_open, ch_J, ch_close, ch_V]] DescriptorPool_new)" by code_simp
  then obtain pool where "add_all [Add_field [ch_J], Add_method [ch_open, ch_J, ch_close, ch_V]] DescriptorPool_new = Inr pool"
    by (metis sum.disc(1) sum.exhaust)
  then show ?thesis
    using descriptor_pool_safe [of _ pool "[Parse_method [ch_open, ch_J, ch_close, ch_V] ACC_UNDEF (Some 0), Parse_field [ch_J], Parse_field [ch_J]]"]
    by (fastforce simp: parse_fields_def added_fields_def parse_methods_def added_methods_def)
qed

lemma fill_refs:
  "length refs + length h \<le> 65536 \<Longrightarrow> (\<forall>j < length h. snd (h ! j) = of_nat (length refs + j)) \<Longrightarrow>
    fold (\<lambda>(key, v) refs. refs[unat (v :: u2) := Some key]) h (refs @ replicate (length h) None) = refs @ map (Some \<circ> fst) h"
proof (induction h arbitrary: refs)
  case (Cons x h)
  obtain k v where x: "x = (k, v)" by (cases x)
  have "unat v = length refs" using Cons.prems x unat_of_nat_small [of "length refs", where 'a = 16] by fastforce
  then have step: "(refs @ replicate (length (x # h)) None)[unat v := Some k] = (refs @ [Some k]) @ replicate (length h) None"
    by simp
  have "snd (h ! j) = of_nat (length (refs @ [Some k]) + j)" if "j < length h" for j
    using Cons.prems(2) [rule_format, of "Suc j"] that by simp
  then show ?case using Cons.IH [of "refs @ [Some k]"] Cons.prems(1) step x by simp
qed simp

text \<open>\<^bold>\<open>C29.\<close> Class references resolve to their names: as long as a class uses at most 65536 class names, every name
  added to the pool directly or inside a descriptor is found in the table of \<open>create_classrefs\<close> under its own entry.\<close>

theorem classrefs_resolve:
  assumes "add_all ops DescriptorPool_new = Inr pool" and "length (dp_classrefhash pool) \<le> 65536"
    and "name \<in> fst ` set (dp_classrefhash pool)"
  shows "\<exists>i cs. lookup_classref name (prepare pool) = (prepare pool, Inr (Some i)) \<and> dp_classrefs (prepare pool) = Some cs \<and>
    i < length cs \<and> cs ! i = Some name"
proof -
  have ok: "refs_ok pool" using add_all_ok [OF pool_ok_new assms(1)] by (simp add: pool_ok_def)
  let ?h = "dp_classrefhash pool"
  have cs: "dp_classrefs (prepare pool) = Some (map (Some \<circ> fst) ?h)"
    using fill_refs [of "[]" ?h] ok assms(2) by (simp add: prepare_fields create_classrefs_def Let_def refs_ok_def)
  obtain i where i: "i < length ?h" "fst (?h ! i) = name" using assms(3) by (auto simp: in_set_conv_nth image_iff)
  have "snd (?h ! i) = of_nat i" using ok i by (simp add: refs_ok_def)
  then have "map_of ?h name = Some (of_nat i)"
    using ok i by (metis map_of_eq_Some_iff nth_mem prod.collapse refs_ok_def)
  moreover have "unat (of_nat i :: u2) = i" using i assms(2) by (intro unat_of_nat_small) simp
  ultimately have "lookup_classref name (prepare pool) = (prepare pool, Inr (Some i))"
    using cs by (simp add: lookup_classref_def prepare_fields)
  then show ?thesis using cs i by simp
qed

theorem classrefs_resolve_witness:
  "\<exists>pool i cs. add_all [Add_class [0x61], Add_field [ch_L, 0x62, ch_semicolon]] DescriptorPool_new = Inr pool \<and>
    lookup_classref [0x62] (prepare pool) = (prepare pool, Inr (Some i)) \<and> dp_classrefs (prepare pool) = Some cs \<and>
    i < length cs \<and> cs ! i = Some [0x62]"
proof -
  let ?r = "add_all [Add_class [0x61], Add_field [ch_L, 0x62, ch_semicolon]] DescriptorPool_new"
  have r: "case ?r of Inr pool \<Rightarrow> dp_classrefhash pool = [([0x61], 0), ([0x62], 1)] | Inl _ \<Rightarrow> False" by code_simp
  then obtain pool where p: "?r = Inr pool" by (cases ?r) simp_all
  then have "dp_classrefhash pool = [([0x61], 0), ([0x62], 1)]" using r by simp
  then show ?thesis using classrefs_resolve [OF p, of "[0x62]"] p by (intro exI [of _ pool]) simp
qed

text \<open>\<^bold>\<open>C30.\<close> The bound of C29 is sharp, and \<open>add_class\<close> does not check it: the index of a class name is kept in
  16 bits, so the class name after the first 65536 is accepted and shares the reference of the very first one.\<close>

theorem class_index_wraps:
  assumes "refs_ok pool" and "length (dp_classrefhash pool) = 65536"
    and "name \<notin> fst ` set (dp_classrefhash pool)" and "valid_name_bytes name"
  shows "\<exists>pool'. add_class name pool = (pool', Inr ()) \<and>
    snd (lookup_classref name (prepare pool')) = Inr (Some 0) \<and>
    snd (lookup_classref (fst (hd (dp_classrefhash pool))) (prepare pool')) = Inr (Some 0)"
proof -
  let ?h = "dp_classrefhash pool"
  let ?pool' = "pool\<lparr> dp_classrefhash := ?h @ [(name, 0)] \<rparr>"
  have none: "map_of ?h name = None" using assms(3) by (simp add: map_of_eq_None_iff)
  have wrap: "(of_nat 65536 :: u2) = 0" by simp
  have add: "add_class name pool = (?pool', Inr ())"
    using none assms(2,4) wrap by (simp add: add_class_def)
  obtain k v h where h: "?h = (k, v) # h" using assms(2) by (metis length_0_conv list.exhaust prod.collapse zero_neq_numeral)
  then have "v = 0" using assms(1) by (force simp: refs_ok_def)
  moreover have "dp_classrefs (prepare ?pool') \<noteq> None" using create_classrefs_fields(2) by (simp add: prepare_fields)
  ultimately have "snd (lookup_classref name (prepare ?pool')) = Inr (Some 0)"
      "snd (lookup_classref (fst (hd ?h)) (prepare ?pool')) = Inr (Some 0)"
    using none h by (auto simp: lookup_classref_def prepare_fields map_add_def split: if_splits option.splits)
  then show ?thesis using add by blast
qed

text \<open>A pool of many class names, for the witness.\<close>

definition many_names :: "nat \<Rightarrow> DescriptorPool" where
  "many_names n = DescriptorPool_new\<lparr> dp_classrefhash := map (\<lambda>i. (replicate i 0x61, of_nat i)) [0..<n] \<rparr>"

lemma many_names_facts: "refs_ok (many_names n)" "length (dp_classrefhash (many_names n)) = n"
  "[0x62] \<notin> fst ` set (dp_classrefhash (many_names n))" "0 < n \<Longrightarrow> fst (hd (dp_classrefhash (many_names n))) = []"
proof -
  have "inj_on (\<lambda>i. replicate i (0x61 :: u1)) {0..<n}" by (rule inj_onI) (simp add: replicate_eq_replicate)
  then show "refs_ok (many_names n)" by (simp add: refs_ok_def distinct_map comp_def many_names_def)
  show "[0x62] \<notin> fst ` set (dp_classrefhash (many_names n))"
    by (auto simp: image_iff Cons_replicate_eq many_names_def)
qed (simp_all add: many_names_def hd_map)

theorem class_index_wraps_witness:
  "\<exists>pool'. add_class [0x62] (many_names 65536) = (pool', Inr ()) \<and>
    snd (lookup_classref [0x62] (prepare pool')) = Inr (Some 0) \<and> snd (lookup_classref [] (prepare pool')) = Inr (Some 0)"
proof -
  have v: "valid_name_bytes [0x62]" by code_simp
  show ?thesis
    using class_index_wraps [OF many_names_facts(1,2,3) v] many_names_facts(4) [of 65536] by (simp only: zero_less_numeral)
qed

lemma late_static:
  assumes "mflags \<noteq> ACC_UNDEF" "mflags AND ACC_STATIC \<noteq> 0"
  shows "params_from_paramtypes mflags (md_of pool ACC_UNDEF (Some c) rs r) =
    Inr ((md_of pool mflags (Some c) rs r)\<lparr> md_pool_lock := True,
      md_paramtypes := map (td_of pool) rs @ [zero_typedesc\<lparr> td_classref := Some c \<rparr>] \<rparr>)"
  using assms by (simp add: params_from_paramtypes_def md_of_def has_this_def Let_def)

lemma late_this:
  assumes "mflags \<noteq> ACC_UNDEF" "mflags AND ACC_STATIC = 0"
  shows "params_from_paramtypes mflags (md_of pool ACC_UNDEF (Some c) rs r) =
    Inr ((md_of pool mflags (Some c) rs r)\<lparr> md_pool_lock := True,
      md_paramtypes := \<lparr> td_classref = Some c, td_type = TYPE_ADR, td_primitivetype = PRIMITIVETYPE_DUMMY1, td_arraydim = 0 \<rparr>
        # map (td_of pool) rs \<rparr>)"
proof -
  have "(map (td_of pool) rs @ [x]) ! length rs = x" for x by (simp add: nth_append)
  then show ?thesis using assms by (simp add: params_from_paramtypes_def md_of_def has_this_def Let_def)
qed

text \<open>\<^bold>\<open>C31.\<close> The parameters of a method descriptor come out the same whether they are known when the descriptor
  is parsed or filled in later by \<open>params_from_paramtypes\<close>: same count, slots, parameter memory, return type
  and parameter types, \<open>this\<close> in front unless the method is static. The one difference is the declared type of
  \<open>this\<close>, which the early path leaves at zero, the code of \<open>int\<close>.\<close>

theorem late_params_agree:
  assumes "method_ok (known pool) d rs r" and "dp_classrefs pool \<noteq> None" and "dp_descriptors pool" and "mflags \<noteq> ACC_UNDEF"
  shows "\<exists>pool1 md1 pool2 md2 md.
    parse_method_descriptor d ACC_UNDEF (Some c) pool = (pool1, Inr md1) \<and>
    parse_method_descriptor d mflags (Some c) pool = (pool2, Inr md2) \<and>
    params_from_paramtypes mflags md1 = Inr md \<and>
    md_paramcount md = md_paramcount md2 \<and> md_paramslots md = md_paramslots md2 \<and> md_params md = md_params md2 \<and>
    md_returntype md = md_returntype md2 \<and>
    take (md_paramcount md) (md_paramtypes md) =
      (if mflags AND ACC_STATIC = 0
       then (hd (md_paramtypes md2))\<lparr> td_primitivetype := PRIMITIVETYPE_DUMMY1 \<rparr> # tl (md_paramtypes md2)
       else md_paramtypes md2) \<and>
    (mflags AND ACC_STATIC = 0 \<longrightarrow> td_primitivetype (hd (md_paramtypes md2)) = PRIMITIVETYPE_INT)"
proof -
  let ?md2 = "md_of pool mflags (Some c) rs r"
  note runs = parse_method_ok [OF assms(1-3)]
  have md2: "md_paramcount ?md2 = length (md_paramtypes ?md2)" "md_paramtypes ?md2 =
      (if mflags AND ACC_STATIC = 0 then [zero_typedesc\<lparr> td_type := TYPE_ADR, td_arraydim := 0, td_classref := Some c \<rparr>] else []) @
      map (td_of pool) rs"
    using assms(4) by (simp_all add: md_of_def has_this_def Let_def)
  show ?thesis
  proof (cases "mflags AND ACC_STATIC = 0")
    case True
    show ?thesis
      by (intro exI conjI, rule runs, rule runs, rule late_this [OF assms(4) True]) (simp_all add: md2 True zero_typedesc_def)
  next
    case False
    show ?thesis
      by (intro exI conjI, rule runs, rule runs, rule late_static [OF assms(4) False]) (simp_all add: md2 False)
  qed
qed

theorem late_params_agree_witness:
  "\<exists>pool1 md1 md. parse_method_descriptor [ch_open, ch_J, ch_close, ch_V] ACC_UNDEF (Some 0)
      (DescriptorPool_new\<lparr> dp_classrefs := Some [], dp_descriptors := True \<rparr>) = (pool1, Inr md1) \<and>
    params_from_paramtypes 0 md1 = Inr md \<and> md_paramcount md = 2 \<and> md_paramslots md = 3"
proof -
  let ?pool = "DescriptorPool_new\<lparr> dp_classrefs := Some [], dp_descriptors := True \<rparr>"
  have "param_types [ch_J, ch_close, ch_V] = Inr ([PRIMITIVE_TYPE TYPE_LNG PRIMITIVETYPE_LONG], [ch_V])" by code_simp
  then have "method_ok (known ?pool) [ch_open, ch_J, ch_close, ch_V] [PRIMITIVE_TYPE TYPE_LNG PRIMITIVETYPE_LONG] (PRIMITIVE_TYPE TYPE_VOID PRIMITIVETYPE_VOID)"
    by (simp add: method_ok_def primitive_case_def IS_2_WORD_TYPE_def)
  from late_params_agree [OF this, of 0 0]
  obtain pool1 md1 pool2 md2 md where *: "parse_method_descriptor [ch_open, ch_J, ch_close, ch_V] ACC_UNDEF (Some 0) ?pool = (pool1, Inr md1)"
      "params_from_paramtypes 0 md1 = Inr md" "md_paramcount md = md_paramcount md2" "md_paramslots md = md_paramslots md2"
      "parse_method_descriptor [ch_open, ch_J, ch_close, ch_V] 0 (Some 0) ?pool = (pool2, Inr md2)"
    by (auto simp: ACC_UNDEF_def)
  have "case parse_method_descriptor [ch_open, ch_J, ch_close, ch_V] 0 (Some 0) ?pool of (_, Inr md) \<Rightarrow> md_paramcount md = 2 \<and> md_paramslots md = 3 | _ \<Rightarrow> False"
    by code_simp
  then show ?thesis using * by auto
qed

section \<open>Which method descriptors are accepted\<close>

definition names_ok :: "DescriptorPool \<Rightarrow> parse_result \<Rightarrow> bool" where
  "names_ok pool r \<longleftrightarrow> (\<forall>name \<in> names_of r. name \<in> known pool \<or> valid_name_bytes name)"


lemma check_type_iff:
  "(\<exists>pool'. check_type flags dt pos pool = (pool', Inr (t, rest))) \<longleftrightarrow>
    (\<exists>r. parse_type_raw flags dt pos = Inr (r, rest) \<and> t = type_of r \<and> names_ok pool r)"
proof (cases "parse_type_raw flags dt pos")
  case (Inr rr)
  obtain r q where "rr = (r, q)" by (cases rr)
  then show ?thesis
    using Inr by (cases r) (auto simp: check_type_def add_class_def names_ok_def known_iff rbind_Inr split: option.splits)
qed (simp add: check_type_def)






text \<open>\<^bold>\<open>C33.\<close> A field descriptor that \<open>add_field\<close> accepts is the written form of a type, and \<open>descriptor_to_basic_type\<close>,
  which relies on that check, returns the basic type of it, except for \<open>void\<close>: the flag that should forbid \<open>void\<close> has the
  value zero, the descriptor \<open>V\<close> is accepted, and \<open>descriptor_to_basic_type\<close> aborts the VM on it.\<close>

theorem add_field_basic_type:
  assumes "map_of (dp_fieldrefhash pool) d = None" and "add_field d pool = (pool', Inr ())"
  shows "\<exists>r. (wf_type r \<or> r = void_type) \<and> d = print_type r \<and> descriptor_to_basic_type d =
    (if r = void_type then Inl (Vm_abort ''descriptor_to_basic_type: invalid type'') else Inr (type_of r))"
proof -
  obtain pool2 t q where "check_field_descriptor d pool = (pool2, Inr (t, q))"
    using assms by (auto simp: add_field_def split: prod.splits sum.splits)
  then obtain r where "parse_type_raw (FORBID_VOID_TYPE OR EXPECT_END_OF_INPUT) ''field'' d = Inr (r, q)"
    using check_type_iff [of "FORBID_VOID_TYPE OR EXPECT_END_OF_INPUT" "''field''" d pool t q] unfolding check_field_descriptor_def by blast
  then have r: "accepted_type r" "d = print_type r" using expect_end(2) by (auto simp: parse_type_raw_Inr type_text_print)
  then have wf: "wf_type r \<or> r = void_type" by (simp add: accepted_type_def)
  show ?thesis
  proof (cases r)
    case (PRIMITIVE_TYPE t p)
    then show ?thesis using r wf by (intro exI [of _ r]; cases p) (auto simp: descriptor_to_basic_type_def void_type_def)
  next
    case (REFERENCE_TYPE name dim)
    then have "\<exists>c w. d = c # w \<and> (c = ch_L \<or> c = ch_array)"
      using r by (cases dim; cases name) (auto simp: array_element_def)
    then show ?thesis using r wf REFERENCE_TYPE by (intro exI [of _ r]) (auto simp: descriptor_to_basic_type_def void_type_def)
  qed
qed

lemma print_void: "accepted_type r \<Longrightarrow> print_type r = [ch_V] \<Longrightarrow> r = void_type"
proof (cases r)
  case (PRIMITIVE_TYPE t p)
  assume "accepted_type r" "print_type r = [ch_V]"
  then show ?thesis using PRIMITIVE_TYPE by (cases p) (simp_all add: void_type_def)
next
  case (REFERENCE_TYPE name dim)
  assume "accepted_type r" "print_type r = [ch_V]"
  then show ?thesis using REFERENCE_TYPE by (cases dim) simp_all
qed

theorem add_field_basic_type_witness:
  "\<exists>pool'. add_field [ch_V] DescriptorPool_new = (pool', Inr ()) \<and>
    descriptor_to_basic_type [ch_V] = Inl (Vm_abort ''descriptor_to_basic_type: invalid type'')"
proof -
  have "snd (add_field [ch_V] DescriptorPool_new) = Inr ()" by code_simp
  then obtain pool' where a: "add_field [ch_V] DescriptorPool_new = (pool', Inr ())" by (metis prod.collapse)
  have "map_of (dp_fieldrefhash DescriptorPool_new) [ch_V] = None" by (simp add: DescriptorPool_new_def)
  from add_field_basic_type [OF this a] obtain r where r: "wf_type r \<or> r = void_type" "[ch_V] = print_type r" "descriptor_to_basic_type [ch_V] =
    (if r = void_type then Inl (Vm_abort ''descriptor_to_basic_type: invalid type'') else Inr (type_of r))"
    by blast
  have "r = void_type" by (rule print_void) (use r in \<open>simp_all add: accepted_type_def\<close>)
  then show ?thesis using a r(3) by simp
qed

end
