(* ===== verification/ThreadList.thy ===== *)
theory ThreadList
  imports Lockword
begin

unbundle bit_operations_syntax

text \<open>
  The list of threads (\<^verbatim>\<open>src/src/threads/threadlist.cpp\<close>, \<^verbatim>\<open>threadlist.hpp\<close>) and the life of a thread object
  (\<^verbatim>\<open>src/src/threads/thread.cpp\<close>): it is taken from the free list or allocated with a new index, entered
  into the active list, deactivated when its thread ends, and put on the free list when the Java thread object
  is finalized. The index of a thread decides its thin lock word, by which the monitors tell threads apart.

  \<^item> A thread object is named by its address, a number; \<open>None\<close> is \<open>NULL\<close>. Of its fields those
    are modelled that the list and the life cycle use.
  \<^item> Every method holds the mutex of the list, so it is one function of the state.
  \<^item> The counters are \<open>int32_t\<close> in the source; they count threads and are integers here.
  \<^item> \<open>life\<close> is not a part of the program: beside the state of the program the step relation records which call
    of the life cycle each object has reached, so that it makes only the calls that the source makes.
  \<^item> \<open>thread_create_object\<close> runs Java code; its outcome, the object or a failure, is a parameter.
\<close>

section \<open>State\<close>

datatype ThreadState = THREAD_STATE_NEW | THREAD_STATE_RUNNABLE | THREAD_STATE_BLOCKED | THREAD_STATE_WAITING
  | THREAD_STATE_TIMED_WAITING | THREAD_STATE_TERMINATED | THREAD_STATE_PARKED | THREAD_STATE_TIMED_PARKED

definition THREAD_FLAG_JAVA :: u4 where "THREAD_FLAG_JAVA = 0x01"

definition THREAD_FLAG_INTERNAL :: u4 where "THREAD_FLAG_INTERNAL = 0x02"

definition THREAD_FLAG_DAEMON :: u4 where "THREAD_FLAG_DAEMON = 0x04"

record thread_object =
  to_object :: "nat option"
  to_thinlock :: uintptr_t
  to_index :: s4
  to_flags :: u4
  to_state :: ThreadState
  to_is_in_active_list :: bool

record thread_list =
  tl_active :: "nat list"
  tl_free :: "nat list"
  tl_started_java :: int
  tl_active_java :: int
  tl_peak_java :: int
  tl_last_index :: s4

record tworld =
  tw_list :: thread_list
  tw_heap :: "nat \<Rightarrow> thread_object"

abbreviation upd_to :: "nat \<Rightarrow> (thread_object \<Rightarrow> thread_object) \<Rightarrow> tworld \<Rightarrow> tworld" where
  "upd_to t f w \<equiv> w\<lparr> tw_heap := (tw_heap w)(t := f (tw_heap w t)) \<rparr>"

abbreviation upd_tl :: "(thread_list \<Rightarrow> thread_list) \<Rightarrow> tworld \<Rightarrow> tworld" where
  "upd_tl f w \<equiv> w\<lparr> tw_list := f (tw_list w) \<rparr>"

section \<open>The list\<close>

definition ThreadList_new :: thread_list where
  "ThreadList_new = \<lparr> tl_active = [], tl_free = [], tl_started_java = 0, tl_active_java = 0, tl_peak_java = 0, tl_last_index = 0 \<rparr>"

definition is_internal :: "thread_object \<Rightarrow> bool" where
  "is_internal t \<longleftrightarrow> to_flags t AND THREAD_FLAG_INTERNAL \<noteq> 0"

definition thread_is_daemon :: "thread_object \<Rightarrow> bool" where
  "thread_is_daemon t \<longleftrightarrow> to_flags t AND THREAD_FLAG_DAEMON \<noteq> 0"

definition add_to_active_thread_list :: "nat \<Rightarrow> tworld \<Rightarrow> tworld" where
  "add_to_active_thread_list t w =
     (let w = upd_tl (\<lambda>l. l\<lparr> tl_active := tl_active l @ [t] \<rparr>) w;
          w = upd_to t (\<lambda>x. x\<lparr> to_is_in_active_list := True \<rparr>) w
      in if to_flags (tw_heap w t) AND THREAD_FLAG_INTERNAL = 0
         then upd_tl (\<lambda>l. l\<lparr> tl_started_java := tl_started_java l + 1, tl_active_java := tl_active_java l + 1,
                            tl_peak_java := max (tl_peak_java l) (tl_active_java l + 1) \<rparr>) w
         else w)"

definition remove_from_active_thread_list :: "nat \<Rightarrow> tworld \<Rightarrow> tworld" where
  "remove_from_active_thread_list t w =
     (let w = upd_tl (\<lambda>l. l\<lparr> tl_active := removeAll t (tl_active l) \<rparr>) w;
          w = upd_to t (\<lambda>x. x\<lparr> to_is_in_active_list := False \<rparr>) w
      in if to_flags (tw_heap w t) AND THREAD_FLAG_INTERNAL = 0
         then upd_tl (\<lambda>l. l\<lparr> tl_active_java := tl_active_java l - 1 \<rparr>) w
         else w)"

definition get_main_thread :: "tworld \<Rightarrow> nat option" where
  "get_main_thread w = (case tl_active (tw_list w) of [] \<Rightarrow> None | t # _ \<Rightarrow> Some t)"

definition get_active_threads :: "tworld \<Rightarrow> nat list" where
  "get_active_threads w = tl_active (tw_list w)"

text \<open>The threads are appended to the list that the caller passes.\<close>

definition get_active_java_threads :: "tworld \<Rightarrow> nat list \<Rightarrow> nat list" where
  "get_active_java_threads w xs =
     fold (\<lambda>t xs. if to_flags (tw_heap w t) AND THREAD_FLAG_INTERNAL \<noteq> 0 then xs else xs @ [t]) (tl_active (tw_list w)) xs"

definition get_free_thread :: "tworld \<Rightarrow> tworld \<times> nat option \<times> s4" where
  "get_free_thread w =
     (case tl_free (tw_list w) of
        t # ts \<Rightarrow> (upd_tl (\<lambda>l. l\<lparr> tl_free := ts \<rparr>) w, Some t, to_index (tw_heap w t))
      | [] \<Rightarrow> (let i = tl_last_index (tw_list w) + 1 in (upd_tl (\<lambda>l. l\<lparr> tl_last_index := i \<rparr>) w, None, i)))"

definition get_number_of_daemon_java_threads :: "tworld \<Rightarrow> int" where
  "get_number_of_daemon_java_threads w =
     fold (\<lambda>t n. if to_flags (tw_heap w t) AND THREAD_FLAG_INTERNAL \<noteq> 0 then n
                 else if thread_is_daemon (tw_heap w t) then n + 1 else n) (tl_active (tw_list w)) 0"

definition get_number_of_non_daemon_threads :: "tworld \<Rightarrow> int" where
  "get_number_of_non_daemon_threads w =
     fold (\<lambda>t n. if \<not> thread_is_daemon (tw_heap w t) then n + 1 else n) (tl_active (tw_list w)) 0"

definition tl_get_thread_by_index :: "s4 \<Rightarrow> tworld \<Rightarrow> nat option" where
  "tl_get_thread_by_index index w =
     (case find (\<lambda>t. to_index (tw_heap w t) = index) (tl_active (tw_list w)) of
        None \<Rightarrow> None
      | Some t \<Rightarrow> if to_state (tw_heap w t) = THREAD_STATE_NEW then None else Some t)"

definition get_thread_from_java_object :: "nat \<Rightarrow> tworld \<Rightarrow> nat option" where
  "get_thread_from_java_object h w = find (\<lambda>t. to_object (tw_heap w t) = Some h) (tl_active (tw_list w))"

definition threads_impl_clear_heap_pointers :: "nat \<Rightarrow> tworld \<Rightarrow> tworld" where
  "threads_impl_clear_heap_pointers t w = upd_to t (\<lambda>x. x\<lparr> to_object := None \<rparr>) w"

definition deactivate_thread :: "nat \<Rightarrow> tworld \<Rightarrow> tworld" where
  "deactivate_thread t w = threads_impl_clear_heap_pointers t (remove_from_active_thread_list t w)"

definition release_thread :: "nat \<Rightarrow> bool \<Rightarrow> tworld \<Rightarrow> tworld result" where
  "release_thread t needs_deactivate w =
     rbind (if needs_deactivate then Inr (remove_from_active_thread_list t w)
            else if to_is_in_active_list (tw_heap w t) then Inl Assertion_failed else Inr w)
       (\<lambda>w. Inr (upd_tl (\<lambda>l. l\<lparr> tl_free := tl_free l @ [t] \<rparr>) w))"

definition get_number_of_active_threads :: "tworld \<Rightarrow> int" where
  "get_number_of_active_threads w = int (length (tl_active (tw_list w)))"

definition reset_peak_of_active_java_threads :: "tworld \<Rightarrow> tworld" where
  "reset_peak_of_active_java_threads w = upd_tl (\<lambda>l. l\<lparr> tl_peak_java := tl_active_java l \<rparr>) w"

section \<open>Thread objects\<close>

definition zero_thread :: thread_object where
  "zero_thread = \<lparr> to_object = None, to_thinlock = 0, to_index = 0, to_flags = 0, to_state = THREAD_STATE_NEW, to_is_in_active_list = False \<rparr>"

definition threads_impl_thread_clear :: "nat \<Rightarrow> tworld \<Rightarrow> tworld" where
  "threads_impl_thread_clear t w =
     upd_to t (\<lambda>x. x\<lparr> to_object := None, to_thinlock := 0, to_index := 0, to_flags := 0,
                     to_state := THREAD_STATE_NEW, to_is_in_active_list := False \<rparr>) w"

text \<open>\<open>addr\<close> is what \<open>NEW(threadobject)\<close> returns.\<close>

definition thread_new :: "u4 \<Rightarrow> nat \<Rightarrow> tworld \<Rightarrow> (tworld \<times> nat) result" where
  "thread_new flags addr w =
     (let (w, free, index) = get_free_thread w;
          (w, t) = (case free of Some t \<Rightarrow> (threads_impl_thread_clear t w, t)
                               | None \<Rightarrow> (upd_to addr (\<lambda>_. zero_thread) w, addr))
      in if index = 0 then Inl Assertion_failed
         else Inr (upd_to t (\<lambda>x. x\<lparr> to_index := index, to_thinlock := pre_compute_thinlock index,
                                   to_flags := flags, to_state := THREAD_STATE_NEW \<rparr>) w, t))"

definition thread_free :: "nat \<Rightarrow> tworld \<Rightarrow> tworld" where
  "thread_free t w = deactivate_thread t (upd_to t (\<lambda>x. x\<lparr> to_object := None \<rparr>) w)"

definition thread_cleanup_finalizer :: "nat \<Rightarrow> tworld \<Rightarrow> tworld result" where
  "thread_cleanup_finalizer t w = release_thread t False w"

definition thread_set_state_runnable :: "nat \<Rightarrow> tworld \<Rightarrow> tworld" where
  "thread_set_state_runnable t w =
     (if to_state (tw_heap w t) \<noteq> THREAD_STATE_TERMINATED
      then upd_to t (\<lambda>x. x\<lparr> to_state := THREAD_STATE_RUNNABLE \<rparr>) w else w)"

text \<open>The callers. The second component of the result is the thread, or \<open>None\<close> if the thread could not be created.\<close>

definition threads_thread_start_internal :: "nat option \<Rightarrow> nat \<Rightarrow> tworld \<Rightarrow> (tworld \<times> nat option) result" where
  "threads_thread_start_internal created addr w =
     rbind (thread_new (THREAD_FLAG_INTERNAL OR THREAD_FLAG_DAEMON) addr w) (\<lambda>(w, t).
       let w = add_to_active_thread_list t w in
       case created of
         None \<Rightarrow> rbind (release_thread t True w) (\<lambda>w. Inr (w, None))
       | Some obj \<Rightarrow> Inr (upd_to t (\<lambda>x. x\<lparr> to_object := Some obj \<rparr>) w, Some t))"

definition threads_thread_start :: "nat \<Rightarrow> bool \<Rightarrow> nat \<Rightarrow> tworld \<Rightarrow> (tworld \<times> nat option) result" where
  "threads_thread_start object daemon addr w =
     rbind (thread_new (if daemon then THREAD_FLAG_JAVA OR THREAD_FLAG_DAEMON else THREAD_FLAG_JAVA) addr w) (\<lambda>(w, t).
       let w = upd_to t (\<lambda>x. x\<lparr> to_object := Some object \<rparr>) w;
           w = add_to_active_thread_list t w
       in Inr (thread_set_state_runnable t w, Some t))"

definition thread_attach_current_thread :: "bool \<Rightarrow> nat option \<Rightarrow> nat \<Rightarrow> tworld \<Rightarrow> (tworld \<times> nat option) result" where
  "thread_attach_current_thread isdaemon created addr w =
     rbind (thread_new (if isdaemon then THREAD_FLAG_JAVA OR THREAD_FLAG_DAEMON else THREAD_FLAG_JAVA) addr w) (\<lambda>(w, t).
       let w = add_to_active_thread_list t w in
       case created of
         None \<Rightarrow> rbind (release_thread t True w) (\<lambda>w. Inr (w, None))
       | Some obj \<Rightarrow> Inr (thread_set_state_runnable t (upd_to t (\<lambda>x. x\<lparr> to_object := Some obj \<rparr>) w), Some t))"

definition threads_preinit :: "nat \<Rightarrow> tworld \<Rightarrow> (tworld \<times> nat) result" where
  "threads_preinit addr w =
     rbind (thread_new THREAD_FLAG_JAVA addr (w\<lparr> tw_list := ThreadList_new \<rparr>)) (\<lambda>(w, mainthread).
       let w = add_to_active_thread_list mainthread w in
       if to_index (tw_heap w mainthread) \<noteq> 1 then Inl (Vm_abort ''threads_preinit: main thread index not 1'')
       else Inr (upd_to mainthread (\<lambda>x. x\<lparr> to_state := THREAD_STATE_RUNNABLE \<rparr>) w, mainthread))"

section \<open>The life cycle\<close>

datatype life = Unallocated | Fresh | Active | Dead | Free

type_synonym tconfig = "tworld \<times> (nat \<Rightarrow> life)"

text \<open>\<open>int32_t\<close> indices are shifted by nine bits: the bound is what a thin lock can hold.\<close>

definition MAX_THREADS :: nat where "MAX_THREADS = 2 ^ 22"

inductive tstep :: "tconfig \<Rightarrow> tconfig \<Rightarrow> bool" where
  T_new: "thread_new flags addr w = Inr (w', t) \<Longrightarrow> L addr = Unallocated \<Longrightarrow>
    unat (tl_last_index (tw_list w)) + 1 < MAX_THREADS \<Longrightarrow> tstep (w, L) (w', L(t := Fresh))"
| T_object: "L t = Fresh \<or> L t = Active \<Longrightarrow> tstep (w, L) (upd_to t (\<lambda>x. x\<lparr> to_object := obj \<rparr>) w, L)"
| T_state: "L t = Active \<Longrightarrow> tstep (w, L) (upd_to t (\<lambda>x. x\<lparr> to_state := st \<rparr>) w, L)"
| T_add: "L t = Fresh \<Longrightarrow> tstep (w, L) (add_to_active_thread_list t w, L(t := Active))"
| T_fail: "L t = Active \<Longrightarrow> release_thread t True w = Inr w' \<Longrightarrow> tstep (w, L) (w', L(t := Free))"
| T_free: "L t = Active \<Longrightarrow> tstep (w, L) (thread_free t w, L(t := Dead))"
| T_cleanup: "L t = Dead \<Longrightarrow> thread_cleanup_finalizer t w = Inr w' \<Longrightarrow> tstep (w, L) (w', L(t := Free))"
| T_reset: "tstep (w, L) (reset_peak_of_active_java_threads w, L)"

definition thread_init :: tconfig where
  "thread_init = (\<lparr> tw_list = ThreadList_new, tw_heap = (\<lambda>_. zero_thread) \<rparr>, \<lambda>_. Unallocated)"

inductive treach :: "tconfig \<Rightarrow> bool" where
  treach_init: "treach thread_init"
| treach_step: "treach c \<Longrightarrow> tstep c c' \<Longrightarrow> treach c'"

section \<open>The invariant\<close>

definition java_threads :: "tworld \<Rightarrow> nat list" where
  "java_threads w = filter (\<lambda>t. \<not> is_internal (tw_heap w t)) (tl_active (tw_list w))"

text \<open>Which lists an object is on, and its index.\<close>

definition lists_ok :: "tconfig \<Rightarrow> bool" where
  "lists_ok = (\<lambda>(w, L).
     distinct (tl_active (tw_list w)) \<and> set (tl_active (tw_list w)) = {t. L t = Active} \<and>
     distinct (tl_free (tw_list w)) \<and> set (tl_free (tw_list w)) = {t. L t = Free} \<and>
     (\<forall>t. to_is_in_active_list (tw_heap w t) \<longleftrightarrow> L t = Active))"

definition indices_ok :: "tconfig \<Rightarrow> bool" where
  "indices_ok = (\<lambda>(w, L).
     bij_betw (\<lambda>t. unat (to_index (tw_heap w t))) {t. L t \<noteq> Unallocated} {1..unat (tl_last_index (tw_list w))} \<and>
     (\<forall>t. L t \<noteq> Unallocated \<longrightarrow> to_thinlock (tw_heap w t) = pre_compute_thinlock (to_index (tw_heap w t))) \<and>
     unat (tl_last_index (tw_list w)) < MAX_THREADS)"

definition counters_ok :: "tconfig \<Rightarrow> bool" where
  "counters_ok = (\<lambda>(w, L).
     tl_active_java (tw_list w) = int (length (java_threads w)) \<and>
     tl_active_java (tw_list w) \<le> tl_peak_java (tw_list w) \<and> tl_peak_java (tw_list w) \<le> tl_started_java (tw_list w))"

definition tinv :: "tconfig \<Rightarrow> bool" where
  "tinv c \<longleftrightarrow> lists_ok c \<and> indices_ok c \<and> counters_ok c"

lemma java_threads_heap:
  assumes "\<And>x. x \<in> set (tl_active (tw_list w)) \<Longrightarrow> to_flags (h x) = to_flags (tw_heap w x)"
  shows "java_threads (w\<lparr> tw_heap := h \<rparr>) = java_threads w"
  using assms by (auto simp: java_threads_def is_internal_def intro!: filter_cong)

text \<open>Steps that change neither lists nor flags nor indices.\<close>

lemma tinv_heap:
  assumes "tinv (w, L)"
    and "\<And>x. to_index (h x) = to_index (tw_heap w x)" "\<And>x. to_thinlock (h x) = to_thinlock (tw_heap w x)"
    and "\<And>x. to_flags (h x) = to_flags (tw_heap w x)" "\<And>x. to_is_in_active_list (h x) = to_is_in_active_list (tw_heap w x)"
  shows "tinv (w\<lparr> tw_heap := h \<rparr>, L)"
proof -
  have "java_threads (w\<lparr> tw_heap := h \<rparr>) = java_threads w" using assms(4) by (rule java_threads_heap)
  then show ?thesis using assms by (simp add: tinv_def lists_ok_def indices_ok_def counters_ok_def)
qed

lemma tinv_new:
  assumes inv: "tinv (w, L)" and new: "thread_new flags addr w = Inr (w', t)" and addr: "L addr = Unallocated"
    and bound: "unat (tl_last_index (tw_list w)) + 1 < MAX_THREADS"
  shows "tinv (w', L(t := Fresh))"
proof (cases "tl_free (tw_list w)")
  case (Cons u us)
  have t: "t = u" and w': "w' = w\<lparr> tw_list := (tw_list w)\<lparr> tl_free := us \<rparr>,
      tw_heap := (tw_heap w)(u := (tw_heap w u)\<lparr> to_object := None, to_is_in_active_list := False,
        to_thinlock := pre_compute_thinlock (to_index (tw_heap w u)), to_flags := flags, to_state := THREAD_STATE_NEW \<rparr>) \<rparr>"
    using new Cons by (auto simp: thread_new_def get_free_thread_def threads_impl_thread_clear_def split: if_splits)
  have Lt: "L u = Free" using inv Cons by (auto simp: tinv_def lists_ok_def)
  have jt: "java_threads w' = java_threads w"
    unfolding w' java_threads_def is_internal_def using inv Lt by (auto simp: tinv_def lists_ok_def intro!: filter_cong)
  have "lists_ok (w', L(t := Fresh))"
    using inv Lt Cons unfolding tinv_def lists_ok_def t w' by (auto simp: set_eq_iff)
  moreover have "indices_ok (w', L(t := Fresh))"
  proof -
    have "{x. (L(t := Fresh)) x \<noteq> Unallocated} = {x. L x \<noteq> Unallocated}" using Lt t by auto
    moreover have "(\<lambda>x. unat (to_index (tw_heap w' x))) = (\<lambda>x. unat (to_index (tw_heap w x)))" by (auto simp: w')
    ultimately show ?thesis using inv Lt unfolding tinv_def indices_ok_def by (auto simp: w' t)
  qed
  moreover have "counters_ok (w', L(t := Fresh))" using inv jt by (simp add: tinv_def counters_ok_def) (simp add: w')
  ultimately show ?thesis by (simp add: tinv_def)
next
  case Nil
  let ?n = "unat (tl_last_index (tw_list w))"
  let ?i = "tl_last_index (tw_list w) + 1"
  have i: "unat ?i = ?n + 1"
    using bound by (simp add: MAX_THREADS_def unat_word_ariths)
  have t: "t = addr" and w': "w' = w\<lparr> tw_list := (tw_list w)\<lparr> tl_last_index := ?i \<rparr>,
      tw_heap := (tw_heap w)(addr := \<lparr> to_object = None, to_thinlock = pre_compute_thinlock ?i,
        to_index = ?i, to_flags = flags, to_state = THREAD_STATE_NEW, to_is_in_active_list = False \<rparr>) \<rparr>"
    using new Nil by (auto simp: thread_new_def get_free_thread_def zero_thread_def Let_def split: if_splits)
  have jt: "java_threads w' = java_threads w"
    unfolding w' java_threads_def is_internal_def using inv addr by (auto simp: tinv_def lists_ok_def intro!: filter_cong)
  have "lists_ok (w', L(t := Fresh))"
    using inv addr Nil unfolding tinv_def lists_ok_def t w' by (auto simp: set_eq_iff)
  moreover have "indices_ok (w', L(t := Fresh))"
  proof -
    let ?f = "\<lambda>x. unat (to_index (tw_heap w x))" and ?g = "\<lambda>x. unat (to_index (tw_heap w' x))"
    have "bij_betw ?f {x. L x \<noteq> Unallocated} {1..?n}" using inv by (simp add: tinv_def indices_ok_def)
    then have "bij_betw ?g {x. L x \<noteq> Unallocated} {1..?n}"
      using addr by (subst bij_betw_cong [where g = ?f]) (auto simp: w')
    moreover have "?g addr = ?n + 1" using i by (simp add: w')
    ultimately have "bij_betw ?g ({x. L x \<noteq> Unallocated} \<union> {addr}) ({1..?n} \<union> {?n + 1})"
      using notIn_Un_bij_betw3 [of addr "{x. L x \<noteq> Unallocated}" ?g "{1..?n}"] addr by simp
    moreover have "{x. (L(t := Fresh)) x \<noteq> Unallocated} = {x. L x \<noteq> Unallocated} \<union> {addr}" by (auto simp: t)
    moreover have "{1..?n} \<union> {?n + 1} = {1..?n + 1}" by auto
    ultimately have "bij_betw ?g {x. (L(t := Fresh)) x \<noteq> Unallocated} {1..unat (tl_last_index (tw_list w'))}"
      using i by (simp add: w')
    then show ?thesis using inv bound i unfolding tinv_def indices_ok_def by (auto simp: w' t)
  qed
  moreover have "counters_ok (w', L(t := Fresh))" using inv jt by (simp add: tinv_def counters_ok_def) (simp add: w')
  ultimately show ?thesis by (simp add: tinv_def)
qed

text \<open>Moving a thread between the lists.\<close>

lemma tinv_add:
  assumes inv: "tinv (w, L)" and t: "L t = Fresh"
  shows "tinv (add_to_active_thread_list t w, L(t := Active))"
proof -
  let ?w = "add_to_active_thread_list t w"
  have act: "tl_active (tw_list ?w) = tl_active (tw_list w) @ [t]" and fr: "tl_free (tw_list ?w) = tl_free (tw_list w)"
    and heap: "tw_heap ?w = (tw_heap w)(t := (tw_heap w t)\<lparr> to_is_in_active_list := True \<rparr>)"
    and last: "tl_last_index (tw_list ?w) = tl_last_index (tw_list w)"
    by (simp_all add: add_to_active_thread_list_def Let_def)
  have new: "t \<notin> set (tl_active (tw_list w))" using inv t by (auto simp: tinv_def lists_ok_def)
  have jt: "java_threads ?w = java_threads w @ (if is_internal (tw_heap w t) then [] else [t])"
    using new by (auto simp: java_threads_def act heap is_internal_def intro!: filter_cong)
  have "lists_ok (?w, L(t := Active))"
    using inv t new by (auto simp: tinv_def lists_ok_def act fr heap set_eq_iff)
  moreover have "indices_ok (?w, L(t := Active))"
  proof -
    have "(\<lambda>x. unat (to_index (tw_heap ?w x))) = (\<lambda>x. unat (to_index (tw_heap w x)))" by (auto simp: heap)
    moreover have "{x. (L(t := Active)) x \<noteq> Unallocated} = {x. L x \<noteq> Unallocated}" using t by auto
    ultimately show ?thesis using inv t by (auto simp: tinv_def indices_ok_def last heap)
  qed
  moreover have "counters_ok (?w, L(t := Active))"
    using inv by (simp add: tinv_def counters_ok_def jt) (auto simp: add_to_active_thread_list_def Let_def is_internal_def)
  ultimately show ?thesis by (simp add: tinv_def)
qed

lemma tinv_remove:
  assumes inv: "tinv (w, L)" and t: "L t = Active"
  shows "tinv (remove_from_active_thread_list t w, L(t := Dead))"
proof -
  let ?w = "remove_from_active_thread_list t w"
  have act: "tl_active (tw_list ?w) = removeAll t (tl_active (tw_list w))" and fr: "tl_free (tw_list ?w) = tl_free (tw_list w)"
    and heap: "tw_heap ?w = (tw_heap w)(t := (tw_heap w t)\<lparr> to_is_in_active_list := False \<rparr>)"
    and last: "tl_last_index (tw_list ?w) = tl_last_index (tw_list w)"
    by (simp_all add: remove_from_active_thread_list_def Let_def)
  have mem: "t \<in> set (tl_active (tw_list w))" "distinct (tl_active (tw_list w))" using inv t by (auto simp: tinv_def lists_ok_def)
  have jt: "java_threads ?w = removeAll t (java_threads w)"
    by (auto simp: java_threads_def act heap is_internal_def removeAll_filter_not_eq intro!: filter_cong)
  have len: "int (length (removeAll t (java_threads w))) = int (length (java_threads w)) - (if is_internal (tw_heap w t) then 0 else 1)"
  proof (cases "is_internal (tw_heap w t)")
    case True
    then show ?thesis by (simp add: java_threads_def removeAll_id)
  next
    case False
    then have "t \<in> set (java_threads w)" "distinct (java_threads w)" using mem by (simp_all add: java_threads_def)
    then have "length (removeAll t (java_threads w)) = length (java_threads w) - 1" "0 < length (java_threads w)"
      by (simp_all add: distinct_remove1_removeAll [symmetric] length_remove1 length_pos_if_in_set del: length_greater_0_conv)
    then have "int (length (removeAll t (java_threads w))) = int (length (java_threads w)) - 1" by linarith
    then show ?thesis using False by simp
  qed
  have "lists_ok (?w, L(t := Dead))"
    using inv t by (auto simp: tinv_def lists_ok_def act fr heap set_eq_iff distinct_removeAll)
  moreover have "indices_ok (?w, L(t := Dead))"
  proof -
    have "(\<lambda>x. unat (to_index (tw_heap ?w x))) = (\<lambda>x. unat (to_index (tw_heap w x)))" by (auto simp: heap)
    moreover have "{x. (L(t := Dead)) x \<noteq> Unallocated} = {x. L x \<noteq> Unallocated}" using t by auto
    ultimately show ?thesis using inv t by (auto simp: tinv_def indices_ok_def last heap)
  qed
  moreover have "counters_ok (?w, L(t := Dead))"
    using inv len by (simp add: tinv_def counters_ok_def jt) (auto simp: remove_from_active_thread_list_def Let_def is_internal_def)
  ultimately show ?thesis by (simp add: tinv_def)
qed

lemma tinv_release:
  assumes inv: "tinv (w, L)" and t: "L t = Dead"
  shows "tinv (upd_tl (\<lambda>l. l\<lparr> tl_free := tl_free l @ [t] \<rparr>) w, L(t := Free))"
proof -
  have "{x. (L(t := Free)) x \<noteq> Unallocated} = {x. L x \<noteq> Unallocated}" using t by auto
  moreover have "java_threads (upd_tl (\<lambda>l. l\<lparr> tl_free := tl_free l @ [t] \<rparr>) w) = java_threads w" by (simp add: java_threads_def)
  ultimately show ?thesis using inv t by (auto simp: tinv_def lists_ok_def indices_ok_def counters_ok_def)
qed

lemma tinv_step: "tstep c c' \<Longrightarrow> tinv c \<Longrightarrow> tinv c'"
proof (induction rule: tstep.induct)
  case (T_new flags addr w w' t L)
  then show ?case by (intro tinv_new)
next
  case (T_object L t w obj)
  then show ?case by (intro tinv_heap) auto
next
  case (T_state L t w st)
  then show ?case by (intro tinv_heap) auto
next
  case (T_add L t w)
  then show ?case by (intro tinv_add)
next
  case (T_fail L t w w')
  have "tinv (remove_from_active_thread_list t w, L(t := Dead))" using T_fail by (intro tinv_remove)
  then have "tinv (w', L(t := Dead, t := Free))"
    using tinv_release [of "remove_from_active_thread_list t w" "L(t := Dead)" t] T_fail(2) by (simp add: release_thread_def)
  then show ?case by simp
next
  case (T_free L t w)
  let ?w = "upd_to t (\<lambda>x. x\<lparr> to_object := None \<rparr>) w"
  have "tinv (?w, L)" using T_free(2) by (rule tinv_heap) auto
  then have "tinv (remove_from_active_thread_list t ?w, L(t := Dead))" using T_free(1) by (intro tinv_remove)
  then show ?case unfolding thread_free_def deactivate_thread_def threads_impl_clear_heap_pointers_def by (rule tinv_heap) auto
next
  case (T_cleanup L t w w')
  then show ?case
    using tinv_release [of w L t] by (auto simp: thread_cleanup_finalizer_def release_thread_def split: if_splits)
next
  case (T_reset w L)
  have "java_threads (reset_peak_of_active_java_threads w) = java_threads w"
    by (simp add: java_threads_def reset_peak_of_active_java_threads_def)
  then show ?case using T_reset
    by (simp add: tinv_def lists_ok_def indices_ok_def counters_ok_def) (auto simp: reset_peak_of_active_java_threads_def)
qed

lemma tinv_init: "tinv thread_init"
  by (auto simp: tinv_def lists_ok_def indices_ok_def counters_ok_def thread_init_def ThreadList_new_def zero_thread_def
      java_threads_def MAX_THREADS_def bij_betw_def)

lemma treach_tinv: "treach c \<Longrightarrow> tinv c"
  by (induction rule: treach.induct) (auto intro: tinv_init tinv_step)

section \<open>Properties\<close>

text \<open>\<^bold>\<open>C34.\<close> Threads are told apart by their index: in every state reached by creating, starting, failing to start,
  ending and finalizing threads in any order, two different thread objects never have the same index nor the same thin lock
  word, the indices are exactly \<open>1\<close> to the number of thread objects (ended threads are reused, none is lost), and
  the thin lock word carries the index of its thread.\<close>

theorem thread_indices_unique:
  assumes "treach (w, L)" and "L t \<noteq> Unallocated" and "L u \<noteq> Unallocated" and "t \<noteq> u"
  shows "to_index (tw_heap w t) \<noteq> to_index (tw_heap w u) \<and> to_thinlock (tw_heap w t) \<noteq> to_thinlock (tw_heap w u) \<and>
    get_thin_lock_thread_index (to_thinlock (tw_heap w t)) = to_index (tw_heap w t) \<and>
    (\<lambda>x. unat (to_index (tw_heap w x))) ` {x. L x \<noteq> Unallocated} = {1..card {x. L x \<noteq> Unallocated}}"
proof -
  have inv: "indices_ok (w, L)" using treach_tinv [OF assms(1)] by (simp add: tinv_def)
  let ?f = "\<lambda>x. unat (to_index (tw_heap w x))"
  have bij: "bij_betw ?f {x. L x \<noteq> Unallocated} {1..unat (tl_last_index (tw_list w))}"
    and lim: "unat (tl_last_index (tw_list w)) < 2 ^ 22" using inv by (simp_all add: indices_ok_def MAX_THREADS_def)
  have range: "?f x < 2 ^ 22" if "L x \<noteq> Unallocated" for x
    using bij_betwE [OF bij] that lim by fastforce
  have thin: "to_thinlock (tw_heap w x) = thinword (?f x) 0" if "L x \<noteq> Unallocated" for x
    using pre_compute_thinlock_thinword [OF range [OF that]] inv that by (simp add: indices_ok_def)
  have ne: "?f t \<noteq> ?f u" using bij_betw_imp_inj_on [OF bij] assms(2-4) by (auto simp: inj_on_def)
  have small: "?f t < 2 ^ 31" "?f u < 2 ^ 31" using range [OF assms(2)] range [OF assms(3)] by simp_all
  have "thinword (?f t) 0 \<noteq> thinword (?f u) 0" using ne small by (subst thinword_inj) simp_all
  moreover have "get_thin_lock_thread_index (to_thinlock (tw_heap w t)) = to_index (tw_heap w t)"
    using thin [OF assms(2)] thinword_index [OF small(1), of 0] by simp
  moreover have "card {x. L x \<noteq> Unallocated} = unat (tl_last_index (tw_list w))" using bij_betw_same_card [OF bij] by simp
  ultimately show ?thesis using ne thin [OF assms(2)] thin [OF assms(3)] bij_betw_imp_surj_on [OF bij] by auto
qed

text \<open>Creating the main thread and a second one, for the witnesses.\<close>

definition two_threads :: "tworld" where
  "two_threads = (case threads_preinit 10 (fst thread_init) of
     Inr (w, _) \<Rightarrow> (case threads_thread_start 7 True 20 w of Inr (w, _) \<Rightarrow> w | Inl _ \<Rightarrow> w)
   | Inl _ \<Rightarrow> fst thread_init)"

text \<open>The calls that the callers make are steps.\<close>

lemma start_reach:
  assumes "treach (w, L)" and "threads_thread_start object daemon addr w = Inr (w', Some t)"
    and "L addr = Unallocated" and "unat (tl_last_index (tw_list w)) + 1 < MAX_THREADS"
  shows "treach (w', L(t := Active))"
proof -
  let ?flags = "if daemon then THREAD_FLAG_JAVA OR THREAD_FLAG_DAEMON else THREAD_FLAG_JAVA"
  obtain w1 where n: "thread_new ?flags addr w = Inr (w1, t)"
      and w': "w' = thread_set_state_runnable t (add_to_active_thread_list t (upd_to t (\<lambda>x. x\<lparr> to_object := Some object \<rparr>) w1))"
    using assms(2) by (auto simp: threads_thread_start_def rbind_Inr Let_def)
  let ?w2 = "upd_to t (\<lambda>x. x\<lparr> to_object := Some object \<rparr>) w1" and ?L1 = "L(t := Fresh)" and ?L2 = "L(t := Active)"
  have "treach (w1, ?L1)" using treach_step [OF assms(1) T_new [where L = L, OF n assms(3,4)]] .
  then have "treach (?w2, ?L1)" by (rule treach_step) (rule T_object, simp)
  then have "treach (add_to_active_thread_list t ?w2, ?L1(t := Active))" by (rule treach_step) (rule T_add, simp)
  then have a: "treach (add_to_active_thread_list t ?w2, ?L2)" by simp
  have "tstep (add_to_active_thread_list t ?w2, ?L2) (upd_to t (\<lambda>x. x\<lparr> to_state := THREAD_STATE_RUNNABLE \<rparr>) (add_to_active_thread_list t ?w2), ?L2)"
    by (rule T_state) simp
  from treach_step [OF a this] a show ?thesis unfolding w' thread_set_state_runnable_def by (simp split: if_split)
qed

lemma preinit_reach:
  assumes "threads_preinit addr (fst thread_init) = Inr (w', t)"
  shows "treach (w', (\<lambda>_. Unallocated)(t := Active))"
proof -
  let ?L = "\<lambda>_ :: nat. Unallocated"
  have e: "(fst thread_init)\<lparr> tw_list := ThreadList_new \<rparr> = fst thread_init" by (simp add: thread_init_def)
  obtain w1 where n: "thread_new THREAD_FLAG_JAVA addr (fst thread_init) = Inr (w1, t)"
      and w': "w' = upd_to t (\<lambda>x. x\<lparr> to_state := THREAD_STATE_RUNNABLE \<rparr>) (add_to_active_thread_list t w1)"
    using assms by (auto simp: threads_preinit_def rbind_Inr Let_def e split: if_splits)
  have "treach (fst thread_init, ?L)" using treach_init by (simp add: thread_init_def)
  moreover have "unat (tl_last_index (tw_list (fst thread_init))) + 1 < MAX_THREADS"
    by (simp add: thread_init_def ThreadList_new_def MAX_THREADS_def)
  ultimately have "treach (w1, ?L(t := Fresh))" using treach_step [OF _ T_new [where L = ?L, OF n]] by simp
  then have "treach (add_to_active_thread_list t w1, (?L(t := Fresh))(t := Active))" by (rule treach_step) (rule T_add, simp)
  then have "treach (add_to_active_thread_list t w1, ?L(t := Active))" by simp
  then show ?thesis unfolding w' by (rule treach_step) (rule T_state, simp)
qed

lemma two_threads_reach: "treach (two_threads, (\<lambda>_. Unallocated)(10 := Active, 20 := Active))"
proof -
  have run: "case threads_preinit 10 (fst thread_init) of Inr (w, t) \<Rightarrow> t = 10 \<and> tl_last_index (tw_list w) = 1 \<and>
      (case threads_thread_start 7 True 20 w of Inr (_, u) \<Rightarrow> u = Some 20 | Inl _ \<Rightarrow> False) | Inl _ \<Rightarrow> False" by code_simp
  then obtain w where w: "threads_preinit 10 (fst thread_init) = Inr (w, 10)" "tl_last_index (tw_list w) = 1"
    by (auto split: sum.splits prod.splits)
  then obtain w' where w': "threads_thread_start 7 True 20 w = Inr (w', Some 20)"
    using run by (auto split: sum.splits prod.splits)
  have "treach (w', (\<lambda>_. Unallocated)(10 := Active, 20 := Active))"
    using start_reach [OF preinit_reach [OF w(1)] w'] w(2) by (simp add: MAX_THREADS_def)
  then show ?thesis using w w' by (simp add: two_threads_def)
qed

theorem thread_indices_unique_witness:
  "to_index (tw_heap two_threads 10) \<noteq> to_index (tw_heap two_threads 20) \<and>
    to_thinlock (tw_heap two_threads 10) \<noteq> to_thinlock (tw_heap two_threads 20)"
  using thread_indices_unique [OF two_threads_reach, of 10 20] by simp

text \<open>\<^bold>\<open>C35.\<close> \<open>get_thread_by_index\<close>, which the monitors use to find the holder of a thin lock, returns the one
  active thread with that index unless it is still in state \<open>NEW\<close>, and \<open>NULL\<close> if there is none.\<close>

theorem get_thread_by_index_correct:
  assumes "treach (w, L)"
  shows "tl_get_thread_by_index i w = Some t \<longleftrightarrow>
    t \<in> set (get_active_threads w) \<and> to_index (tw_heap w t) = i \<and> to_state (tw_heap w t) \<noteq> THREAD_STATE_NEW"
proof -
  have inv: "tinv (w, L)" using treach_tinv [OF assms] .
  have inj: "x = y" if "x \<in> set (tl_active (tw_list w))" "y \<in> set (tl_active (tw_list w))"
      "to_index (tw_heap w x) = to_index (tw_heap w y)" for x y
  proof -
    have "L x \<noteq> Unallocated" "L y \<noteq> Unallocated" using inv that by (auto simp: tinv_def lists_ok_def)
    then show ?thesis using inv that(3) by (auto simp: tinv_def indices_ok_def bij_betw_def inj_on_def)
  qed
  show ?thesis
  proof (cases "find (\<lambda>t. to_index (tw_heap w t) = i) (tl_active (tw_list w))")
    case None
    then have "\<not> (\<exists>x. x \<in> set (tl_active (tw_list w)) \<and> to_index (tw_heap w x) = i)" by (simp add: find_None_iff)
    then show ?thesis using None by (auto simp: tl_get_thread_by_index_def get_active_threads_def)
  next
    case (Some u)
    then have "u \<in> set (tl_active (tw_list w))" "to_index (tw_heap w u) = i" by (auto simp: find_Some_iff)
    then show ?thesis using inj Some by (auto simp: tl_get_thread_by_index_def get_active_threads_def)
  qed
qed

theorem get_thread_by_index_correct_witness:
  "tl_get_thread_by_index 2 two_threads = Some 20"
  unfolding get_thread_by_index_correct [OF two_threads_reach] by code_simp

text \<open>The counters visible to Java are right: the number of active Java threads is the number of active
  threads that are not internal, at most the peak, which is at most the number ever started; and the assertion in
  \<open>release_thread\<close> never fails for a thread that has ended.\<close>

theorem thread_counters_correct:
  assumes "treach (w, L)"
  shows "tl_active_java (tw_list w) = int (length (get_active_java_threads w [])) \<and>
    tl_active_java (tw_list w) \<le> tl_peak_java (tw_list w) \<and> tl_peak_java (tw_list w) \<le> tl_started_java (tw_list w) \<and>
    get_number_of_active_threads w = int (card {t. L t = Active}) \<and>
    (L t = Dead \<longrightarrow> (\<exists>w'. thread_cleanup_finalizer t w = Inr w'))"
proof -
  have inv: "tinv (w, L)" using treach_tinv [OF assms] .
  have "fold (\<lambda>t xs. if to_flags (tw_heap w t) AND THREAD_FLAG_INTERNAL \<noteq> 0 then xs else xs @ [t]) as xs =
      xs @ filter (\<lambda>t. \<not> is_internal (tw_heap w t)) as" for as xs
    by (induction as arbitrary: xs) (simp_all add: is_internal_def)
  then have "get_active_java_threads w [] = java_threads w" by (simp add: get_active_java_threads_def java_threads_def)
  moreover have "length (tl_active (tw_list w)) = card {t. L t = Active}"
    using inv by (simp add: tinv_def lists_ok_def) (metis distinct_card)
  moreover have "to_is_in_active_list (tw_heap w t) \<longleftrightarrow> L t = Active" using inv by (simp add: tinv_def lists_ok_def)
  ultimately show ?thesis
    using inv by (auto simp: tinv_def counters_ok_def get_number_of_active_threads_def thread_cleanup_finalizer_def release_thread_def)
qed

theorem thread_counters_correct_witness:
  "tl_active_java (tw_list two_threads) = int (length (get_active_java_threads two_threads [])) \<and>
    get_number_of_active_threads two_threads = 2"
proof -
  have "{t. ((\<lambda>_. Unallocated)(10 := Active, 20 := Active)) t = Active} = {10, 20 :: nat}" by auto
  then show ?thesis using thread_counters_correct [OF two_threads_reach, of 10] by simp
qed

end
