(* ===== verification/DumpMemory.thy ===== *)
theory DumpMemory
  imports Prelude
begin

text \<open>
  Dump memory (\<^verbatim>\<open>src/src/mm/dumpmemory.cpp\<close>, \<^verbatim>\<open>dumpmemory.hpp\<close>): the scratch memory of a compiler run. The dump memory
  of a thread is a stack of areas; an area is a list of blocks, from the last of which memory is handed out
  by moving a mark; memory is freed only with its area.

  \<^item> Addresses and sizes are natural numbers below \<open>2 ^ 64\<close>; rounding up a size wraps as in \<open>size_t\<close>. The counters of blocks
    and areas are sums of sizes of blocks that lie apart in the address space and cannot wrap. The two totals of a dump memory
    are \<open>size_t\<close>, since they are also decreased.
  \<^item> The lists have their newest element first, where the source uses the back of a list.
  \<^item> The address that \<open>memory_checked_alloc\<close> returns for a new block is an argument.
  \<^item> \<open>stat\<close> says whether the VM is built with \<open>ENABLE_STATISTICS\<close>. The canaries of \<open>ENABLE_MEMCHECK\<close> are not modelled.
\<close>

section \<open>State\<close>

definition ALIGNSIZE :: nat where "ALIGNSIZE = 8"

definition MEMORY_ALIGN :: "nat \<Rightarrow> nat \<Rightarrow> nat" where
  "MEMORY_ALIGN pos sz = ((pos + sz - 1) mod 2 ^ 64 div sz) * sz"

record dm_block =
  db_size :: nat
  db_used :: nat
  db_block :: nat

record dm_area =
  da_size :: nat
  da_used :: nat
  da_blocks :: "dm_block list"

record dump_memory =
  dm_size :: size_t
  dm_used :: size_t
  dm_areas :: "dm_area list"

section \<open>Blocks\<close>

definition DEFAULT_SIZE :: nat where "DEFAULT_SIZE = 16384"

definition DumpMemoryBlock_new :: "nat \<Rightarrow> nat \<Rightarrow> dm_block" where
  "DumpMemoryBlock_new addr sz = \<lparr> db_size = (if sz > DEFAULT_SIZE then sz else DEFAULT_SIZE), db_used = 0, db_block = addr \<rparr>"

definition get_free :: "dm_block \<Rightarrow> nat" where
  "get_free b = db_size b - db_used b"

definition block_allocate :: "nat \<Rightarrow> dm_block \<Rightarrow> (dm_block \<times> nat option) result" where
  "block_allocate sz b =
     (if sz = 0 then Inr (b, None)
      else if \<not> sz \<le> db_size b - db_used b then Inl Assertion_failed
      else Inr (b\<lparr> db_used := db_used b + sz \<rparr>, Some (db_block b + db_used b)))"

section \<open>Areas\<close>

definition DumpMemoryArea_new :: dm_area where
  "DumpMemoryArea_new = \<lparr> da_size = 0, da_used = 0, da_blocks = [] \<rparr>"

definition get_current_block :: "dm_area \<Rightarrow> dm_block option" where
  "get_current_block a = (case da_blocks a of [] \<Rightarrow> None | b # _ \<Rightarrow> Some b)"

text \<open>The new block; the number of bytes that \<open>add_size\<close> adds to the dump memory.\<close>

definition allocate_new_block :: "bool \<Rightarrow> nat \<Rightarrow> nat \<Rightarrow> dm_area \<Rightarrow> dm_area \<times> dm_block \<times> size_t" where
  "allocate_new_block stat addr sz a =
     (let dmb = DumpMemoryBlock_new addr sz
      in (a\<lparr> da_blocks := dmb # da_blocks a \<rparr>, dmb, if stat then of_nat (db_size dmb) else 0))"

definition area_allocate :: "bool \<Rightarrow> nat \<Rightarrow> nat \<Rightarrow> dm_area \<Rightarrow> (dm_area \<times> size_t \<times> nat option) result" where
  "area_allocate stat addr sz a =
     (let (a, dmb, added) =
        (case get_current_block a of
           Some dmb \<Rightarrow> if sz > get_free dmb
             then (let (a, dmb, added) = allocate_new_block stat addr sz a in (a\<lparr> da_size := da_size a + db_size dmb \<rparr>, dmb, added))
             else (a, dmb, 0)
         | None \<Rightarrow> (let (a, dmb, added) = allocate_new_block stat addr sz a in (a\<lparr> da_size := da_size a + db_size dmb \<rparr>, dmb, added)))
      in rbind (block_allocate sz dmb) (\<lambda>(dmb, p).
           Inr (a\<lparr> da_blocks := dmb # tl (da_blocks a), da_used := da_used a + sz \<rparr>, added, p)))"

section \<open>Dump memory\<close>

definition DumpMemory_new :: dump_memory where
  "DumpMemory_new = \<lparr> dm_size = 0, dm_used = 0, dm_areas = [] \<rparr>"

definition add_area :: "dm_area \<Rightarrow> dump_memory \<Rightarrow> dump_memory" where
  "add_area dma dm = dm\<lparr> dm_areas := dma # dm_areas dm, dm_size := dm_size dm + of_nat (da_size dma) \<rparr>"

text \<open>The area to remove is given by its position; it must be the current one.\<close>

definition remove_area :: "nat \<Rightarrow> dump_memory \<Rightarrow> dump_memory result" where
  "remove_area i dm =
     (case dm_areas dm of
        [] \<Rightarrow> Inl (Vm_abort ''no area'')
      | dma # areas \<Rightarrow>
          if i \<noteq> 0 then Inl Assertion_failed
          else Inr (dm\<lparr> dm_areas := areas, dm_size := dm_size dm - of_nat (da_size dma), dm_used := dm_used dm - of_nat (da_used dma) \<rparr>))"

text \<open>The constructor and the destructor of an area.\<close>

definition area_begin :: "dump_memory \<Rightarrow> dump_memory" where
  "area_begin dm = add_area DumpMemoryArea_new dm"

definition area_end :: "dump_memory \<Rightarrow> dump_memory result" where
  "area_end dm = remove_area 0 dm"

definition dm_allocate :: "bool \<Rightarrow> nat \<Rightarrow> nat \<Rightarrow> dump_memory \<Rightarrow> (dump_memory \<times> nat option) result" where
  "dm_allocate stat addr sz dm =
     (case dm_areas dm of
        [] \<Rightarrow> Inl (Vm_abort ''no area'')
      | dma # areas \<Rightarrow>
          (let alignedsize = MEMORY_ALIGN sz ALIGNSIZE in
           rbind (area_allocate stat addr alignedsize dma) (\<lambda>(dma, added, p).
             Inr (dm\<lparr> dm_areas := dma # areas, dm_size := dm_size dm + added, dm_used := dm_used dm + of_nat alignedsize \<rparr>, p))))"

text \<open>The bytes of memory are a function of the address. A copy through \<open>NULL\<close> crashes.\<close>

definition dm_memcpy :: "nat option \<Rightarrow> nat option \<Rightarrow> nat \<Rightarrow> (nat \<Rightarrow> u1) \<Rightarrow> (nat \<Rightarrow> u1) result" where
  "dm_memcpy dst src n mem =
     (if n = 0 then Inr mem
      else case (dst, src) of
        (Some d, Some s) \<Rightarrow> Inr (\<lambda>a. if d \<le> a \<and> a < d + n then mem (s + (a - d)) else mem a)
      | _ \<Rightarrow> Inl (Vm_abort ''segmentation fault''))"

definition dm_reallocate :: "bool \<Rightarrow> nat \<Rightarrow> nat option \<Rightarrow> nat \<Rightarrow> nat \<Rightarrow> dump_memory \<times> (nat \<Rightarrow> u1)
    \<Rightarrow> ((dump_memory \<times> (nat \<Rightarrow> u1)) \<times> nat option) result" where
  "dm_reallocate stat addr src len1 len2 = (\<lambda>(dm, mem).
     rbind (dm_allocate stat addr len2 dm) (\<lambda>(dm, dst).
       rbind (dm_memcpy dst src len1 mem) (\<lambda>mem. Inr ((dm, mem), dst))))"

section \<open>Allocations\<close>

text \<open>The addresses of a piece of memory, and of a block.\<close>

definition piece :: "nat \<times> nat \<Rightarrow> nat set" where
  "piece = (\<lambda>(a, n). {a..<a + n})"

definition block_mem :: "dm_block \<Rightarrow> nat set" where
  "block_mem b = {db_block b..<db_block b + db_size b}"

definition used_mem :: "dm_block \<Rightarrow> nat set" where
  "used_mem b = {db_block b..<db_block b + db_used b}"

definition all_blocks :: "dump_memory \<Rightarrow> dm_block list" where
  "all_blocks dm = concat (map da_blocks (dm_areas dm))"

text \<open>What the C library promises of a new block: it is aligned, not \<open>NULL\<close>, inside the address space, and overlaps no block in use.\<close>

definition good_addr :: "nat \<Rightarrow> nat \<Rightarrow> dump_memory \<Rightarrow> bool" where
  "good_addr addr sz dm \<longleftrightarrow> addr \<noteq> 0 \<and> ALIGNSIZE dvd addr \<and>
     addr + db_size (DumpMemoryBlock_new addr (MEMORY_ALIGN sz ALIGNSIZE)) \<le> 2 ^ 64 \<and>
     (\<forall>b \<in> set (all_blocks dm). block_mem (DumpMemoryBlock_new addr (MEMORY_ALIGN sz ALIGNSIZE)) \<inter> block_mem b = {})"

text \<open>A run of the allocator; beside the dump memory it keeps the pieces handed out in each area.\<close>

inductive dreach :: "bool \<Rightarrow> dump_memory \<Rightarrow> (nat \<times> nat) list list \<Rightarrow> bool" for stat where
  D_init: "dreach stat DumpMemory_new []"
| D_begin: "dreach stat dm ps \<Longrightarrow> dreach stat (area_begin dm) ([] # ps)"
| D_end: "dreach stat dm ps \<Longrightarrow> area_end dm = Inr dm' \<Longrightarrow> dreach stat dm' (tl ps)"
| D_alloc: "dreach stat dm (p # ps) \<Longrightarrow> sz < 2 ^ 64 \<Longrightarrow> good_addr addr sz dm \<Longrightarrow> dm_allocate stat addr sz dm = Inr (dm', Some a) \<Longrightarrow>
    dreach stat dm' (((a, sz) # p) # ps)"
| D_null: "dreach stat dm ps \<Longrightarrow> sz < 2 ^ 64 \<Longrightarrow> good_addr addr sz dm \<Longrightarrow> dm_allocate stat addr sz dm = Inr (dm', None) \<Longrightarrow> dreach stat dm' ps"

text \<open>Sizes whose rounding up does not wrap.\<close>

definition size_ok :: "nat \<Rightarrow> bool" where
  "size_ok sz \<longleftrightarrow> sz \<le> 2 ^ 64 - 8"

lemma align_dvd: "ALIGNSIZE dvd MEMORY_ALIGN sz ALIGNSIZE"
  by (simp add: MEMORY_ALIGN_def)

lemma align_props:
  assumes "size_ok sz"
  shows "sz \<le> MEMORY_ALIGN sz ALIGNSIZE" "MEMORY_ALIGN sz ALIGNSIZE = 0 \<longleftrightarrow> sz = 0" "MEMORY_ALIGN sz ALIGNSIZE < sz + ALIGNSIZE"
proof -
  have n: "(sz + 8 - 1) mod 2 ^ 64 = sz + 7" using assms by (simp add: size_ok_def)
  have "(sz + 7) div 8 * 8 = sz + 7 - (sz + 7) mod 8" using minus_mod_eq_div_mult [of "sz + 7" 8] by simp
  moreover have "(sz + 7) mod 8 < 8" by simp
  ultimately show "sz \<le> MEMORY_ALIGN sz ALIGNSIZE" "MEMORY_ALIGN sz ALIGNSIZE < sz + ALIGNSIZE"
    unfolding MEMORY_ALIGN_def ALIGNSIZE_def n by simp_all
  show "MEMORY_ALIGN sz ALIGNSIZE = 0 \<longleftrightarrow> sz = 0"
    unfolding MEMORY_ALIGN_def ALIGNSIZE_def n by (auto simp: div_eq_0_iff)
qed

lemma align_wraps: "sz < 2 ^ 64 \<Longrightarrow> \<not> size_ok sz \<Longrightarrow> MEMORY_ALIGN sz ALIGNSIZE = 0"
proof -
  assume "sz < 2 ^ 64" "\<not> size_ok sz"
  then have "2 ^ 64 \<le> sz + 8 - 1" "sz + 8 - 1 < 2 ^ 64 + 8" by (simp_all add: size_ok_def)
  then have "(sz + 8 - 1) mod 2 ^ 64 = sz + 8 - 1 - 2 ^ 64" "sz + 8 - 1 - 2 ^ 64 < 8" by (simp_all add: le_mod_geq mod_less)
  then have "(sz + 8 - 1) mod 2 ^ 64 < 8" by simp
  then show ?thesis by (simp add: MEMORY_ALIGN_def ALIGNSIZE_def)
qed

text \<open>Well-formed blocks.\<close>

definition block_ok :: "dm_block \<Rightarrow> bool" where
  "block_ok b \<longleftrightarrow> db_block b \<noteq> 0 \<and> ALIGNSIZE dvd db_block b \<and> ALIGNSIZE dvd db_used b \<and> db_used b \<le> db_size b"

text \<open>The branches of \<open>area_allocate\<close>: in the current block, or in a new one.\<close>

lemma area_allocate_cases:
  obtains b bs where "da_blocks a = b # bs" "sz \<le> db_size b - db_used b"
      "area_allocate stat addr sz a = Inr (a\<lparr> da_blocks := b\<lparr> db_used := db_used b + sz \<rparr> # bs, da_used := da_used a + sz \<rparr>, 0,
        if sz = 0 then None else Some (db_block b + db_used b))"
  | nb where "nb = DumpMemoryBlock_new addr sz" "\<And>b bs. da_blocks a = b # bs \<Longrightarrow> \<not> sz \<le> db_size b - db_used b"
      "area_allocate stat addr sz a = Inr (a\<lparr> da_blocks := nb\<lparr> db_used := sz \<rparr> # da_blocks a, da_size := da_size a + db_size nb,
        da_used := da_used a + sz \<rparr>, if stat then of_nat (db_size nb) else 0, if sz = 0 then None else Some addr)"
proof (cases "\<exists>b bs. da_blocks a = b # bs \<and> sz \<le> db_size b - db_used b")
  case True
  then obtain b bs where "da_blocks a = b # bs" "sz \<le> db_size b - db_used b" by blast
  then show ?thesis
    by (intro that(1)) (auto simp: area_allocate_def get_current_block_def get_free_def block_allocate_def)
next
  case False
  then show ?thesis
    by (intro that(2) [OF refl])
      (auto simp: area_allocate_def get_current_block_def get_free_def block_allocate_def allocate_new_block_def
        DumpMemoryBlock_new_def Let_def split: list.splits)
qed

definition area_ok :: "(nat \<times> nat) list \<Rightarrow> dm_area \<Rightarrow> bool" where
  "area_ok p a \<longleftrightarrow> (\<forall>x \<in> set p. 0 < snd x \<and> ALIGNSIZE dvd fst x \<and> (\<exists>b \<in> set (da_blocks a). piece x \<subseteq> used_mem b)) \<and>
     da_used a = sum_list (map db_used (da_blocks a)) \<and> da_size a = sum_list (map db_size (da_blocks a))"

abbreviation apart :: "('a \<Rightarrow> nat set) \<Rightarrow> 'a list \<Rightarrow> bool" where
  "apart f \<equiv> sorted_wrt (\<lambda>x y. f x \<inter> f y = {})"

definition dinv :: "bool \<Rightarrow> dump_memory \<Rightarrow> (nat \<times> nat) list list \<Rightarrow> bool" where
  "dinv stat dm ps \<longleftrightarrow> list_all2 area_ok ps (dm_areas dm) \<and> (\<forall>b \<in> set (all_blocks dm). block_ok b) \<and>
     apart block_mem (all_blocks dm) \<and> apart piece (concat ps) \<and>
     dm_used dm = of_nat (sum_list (map da_used (dm_areas dm))) \<and>
     (stat \<longrightarrow> dm_size dm = of_nat (sum_list (map da_size (dm_areas dm))))"

lemma used_block: "block_ok b \<Longrightarrow> used_mem b \<subseteq> block_mem b"
  by (auto simp: used_mem_def block_mem_def block_ok_def)

text \<open>A new piece lies outside all used memory.\<close>

lemma pieces_used:
  assumes "list_all2 area_ok ps as" and "x \<in> set (concat ps)"
  shows "\<exists>b \<in> set (concat (map da_blocks as)). piece x \<subseteq> used_mem b"
  using assms by (induction rule: list_all2_induct) (auto simp: area_ok_def, blast)

lemma pieces_pos: "list_all2 area_ok ps as \<Longrightarrow> x \<in> set (concat ps) \<Longrightarrow> 0 < snd x"
  by (induction rule: list_all2_induct) (auto simp: area_ok_def)

lemma dinv_piece:
  assumes "dinv stat dm (p # ps)" "dm_areas dm = a # as" "area_ok (x # p) a" "\<And>y. y \<in> set (concat (p # ps)) \<Longrightarrow> piece x \<inter> piece y = {}"
  shows "dinv stat dm ((x # p) # ps)"
  using assms by (simp add: dinv_def)

lemma dinv_alloc_current:
  assumes inv: "dinv stat dm (p # ps)" and areas: "dm_areas dm = a # as" and bl: "da_blocks a = b # bs"
    and fits: "n \<le> db_size b - db_used b" and n: "ALIGNSIZE dvd n"
    and a': "a' = a\<lparr> da_blocks := b\<lparr> db_used := db_used b + n \<rparr> # bs, da_used := da_used a + n \<rparr>"
    and dm': "dm' = dm\<lparr> dm_areas := a' # as, dm_size := dm_size dm + 0, dm_used := dm_used dm + of_nat n \<rparr>"
  shows "dinv stat dm' (p # ps)" and "sz \<le> n \<Longrightarrow> sz \<noteq> 0 \<Longrightarrow> dinv stat dm' (((db_block b + db_used b, sz) # p) # ps)"
proof -
  let ?b = "b\<lparr> db_used := db_used b + n \<rparr>" and ?x = "(db_block b + db_used b, sz)"
  have old: "area_ok p a" "list_all2 area_ok ps as" "\<forall>c \<in> set (all_blocks dm). block_ok c" "apart block_mem (all_blocks dm)"
      "apart piece (concat (p # ps))" using inv by (simp_all add: dinv_def areas)
  have blocks: "all_blocks dm = b # bs @ concat (map da_blocks as)" "all_blocks dm' = ?b # bs @ concat (map da_blocks as)"
    by (simp_all add: all_blocks_def areas bl dm' a')
  have bok: "block_ok b" using old(3) blocks by simp
  have ok: "block_ok ?b" using bok fits n by (auto simp: block_ok_def)
  have same: "block_mem ?b = block_mem b" by (simp add: block_mem_def)
  have sub: "used_mem b \<subseteq> used_mem ?b" by (auto simp: used_mem_def)
  have aok: "area_ok p a'"
    using old(1) sub unfolding area_ok_def by (auto simp: a' bl)
  have apart': "apart block_mem (all_blocks dm')" using old(4) unfolding blocks by (simp add: same)
  have main: "\<forall>c \<in> set (all_blocks dm'). block_ok c" using old(3) ok by (simp add: blocks)
  show keep: "dinv stat dm' (p # ps)"
    using inv aok old(2) apart' main by (simp add: dinv_def areas dm' a')
  assume "sz \<le> n" "sz \<noteq> 0"
  have inx: "piece ?x \<subseteq> used_mem ?b" using \<open>sz \<le> n\<close> by (auto simp: piece_def used_mem_def)
  have free: "piece ?x \<inter> used_mem c = {}" if "c \<in> set (all_blocks dm)" for c
  proof (cases "c \<in> set (bs @ concat (map da_blocks as))")
    case True
    then have "block_mem b \<inter> block_mem c = {}" using old(4) by (auto simp: blocks)
    moreover have "piece ?x \<subseteq> block_mem b" using inx used_block [OF ok] by (simp add: same)
    ultimately show ?thesis using used_block [of c] old(3) that by blast
  next
    case False
    then have "c = b" using that by (auto simp: blocks)
    then show ?thesis by (auto simp: piece_def used_mem_def)
  qed
  have "piece ?x \<inter> piece y = {}" if "y \<in> set (concat (p # ps))" for y
    using pieces_used [of "p # ps" "a # as" y] that old(1,2) free by (fastforce simp: all_blocks_def areas)
  moreover have "area_ok (?x # p) a'"
    using aok inx \<open>sz \<noteq> 0\<close> bok by (auto simp: area_ok_def a' block_ok_def)
  ultimately show "dinv stat dm' ((?x # p) # ps)"
    using dinv_piece [OF keep, of a' as ?x] by (simp add: dm')
qed

lemma dinv_alloc_new:
  assumes inv: "dinv stat dm (p # ps)" and areas: "dm_areas dm = a # as"
    and n: "n = MEMORY_ALIGN sz ALIGNSIZE" and nb: "nb = DumpMemoryBlock_new addr n" and good: "good_addr addr sz dm"
    and a': "a' = a\<lparr> da_blocks := nb\<lparr> db_used := n \<rparr> # da_blocks a, da_size := da_size a + db_size nb, da_used := da_used a + n \<rparr>"
    and dm': "dm' = dm\<lparr> dm_areas := a' # as, dm_size := dm_size dm + (if stat then of_nat (db_size nb) else 0),
        dm_used := dm_used dm + of_nat n \<rparr>"
  shows "dinv stat dm' (p # ps)" and "size_ok sz \<Longrightarrow> sz \<noteq> 0 \<Longrightarrow> dinv stat dm' (((addr, sz) # p) # ps)"
proof -
  let ?b = "nb\<lparr> db_used := n \<rparr>" and ?x = "(addr, sz)"
  have old: "area_ok p a" "list_all2 area_ok ps as" "\<forall>c \<in> set (all_blocks dm). block_ok c" "apart block_mem (all_blocks dm)"
      "apart piece (concat (p # ps))" using inv by (simp_all add: dinv_def areas)
  have blocks: "all_blocks dm' = ?b # all_blocks dm" by (simp add: all_blocks_def areas dm' a')
  have ok: "block_ok ?b" using good align_dvd by (simp add: block_ok_def nb n good_addr_def DumpMemoryBlock_new_def)
  have mem: "block_mem ?b = block_mem nb" by (simp add: block_mem_def)
  have far: "block_mem ?b \<inter> block_mem c = {}" if "c \<in> set (all_blocks dm)" for c
    using good that unfolding mem by (simp add: good_addr_def nb n)
  have aok: "area_ok p a'" using old(1) unfolding area_ok_def by (auto simp: a')
  show keep: "dinv stat dm' (p # ps)"
    using inv aok old ok far by (simp add: dinv_def blocks areas) (simp add: dm' a')
  assume "size_ok sz" "sz \<noteq> 0"
  have inx: "piece ?x \<subseteq> used_mem ?b" using align_props(1) [OF \<open>size_ok sz\<close>]
    by (auto simp: piece_def used_mem_def nb n DumpMemoryBlock_new_def)
  have "piece ?x \<inter> piece y = {}" if y: "y \<in> set (concat (p # ps))" for y
  proof -
    obtain c where "c \<in> set (all_blocks dm)" "piece y \<subseteq> used_mem c"
      using pieces_used [of "p # ps" "a # as" y] y old(1,2) by (auto simp: all_blocks_def areas)
    then show ?thesis using far [of c] inx used_block [OF ok] used_block [of c] old(3) by blast
  qed
  moreover have "area_ok (?x # p) a'"
    using aok inx \<open>sz \<noteq> 0\<close> good by (auto simp: area_ok_def a' good_addr_def)
  ultimately show "dinv stat dm' ((?x # p) # ps)"
    using dinv_piece [OF keep, of a' as ?x] by (simp add: dm')
qed

lemma dinv_alloc:
  assumes inv: "dinv stat dm (p # ps)" and good: "good_addr addr sz dm" and sz: "sz < 2 ^ 64"
  obtains dm' r where "dm_allocate stat addr sz dm = Inr (dm', r)"
    "r = None \<longleftrightarrow> sz = 0 \<or> \<not> size_ok sz" "dinv stat dm' (p # ps)" "\<And>a. r = Some a \<Longrightarrow> dinv stat dm' (((a, sz) # p) # ps)"
proof -
  obtain a as where areas: "dm_areas dm = a # as" using inv by (auto simp: dinv_def list_all2_Cons1)
  let ?n = "MEMORY_ALIGN sz ALIGNSIZE"
  have n0: "?n = 0 \<longleftrightarrow> sz = 0 \<or> \<not> size_ok sz" using align_props(2) [of sz] align_wraps [OF sz] by (cases "size_ok sz") auto
  have le: "size_ok sz \<Longrightarrow> sz \<le> ?n" by (rule align_props)
  show thesis
  proof (rule area_allocate_cases [where sz = ?n and stat = stat and addr = addr and a = a])
    fix b bs
    assume h: "da_blocks a = b # bs" "?n \<le> db_size b - db_used b"
      and run: "area_allocate stat addr ?n a = Inr (a\<lparr> da_blocks := b\<lparr> db_used := db_used b + ?n \<rparr> # bs, da_used := da_used a + ?n \<rparr>, 0,
        if ?n = 0 then None else Some (db_block b + db_used b))"
    note keep = dinv_alloc_current(1) [OF inv areas h align_dvd refl refl] dinv_alloc_current(2) [OF inv areas h align_dvd refl refl, where sz = sz]
    show thesis
    proof (rule that)
      show "dm_allocate stat addr sz dm = Inr (dm\<lparr> dm_areas := a\<lparr> da_blocks := b\<lparr> db_used := db_used b + ?n \<rparr> # bs, da_used := da_used a + ?n \<rparr> # as,
          dm_size := dm_size dm + 0, dm_used := dm_used dm + of_nat ?n \<rparr>, if ?n = 0 then None else Some (db_block b + db_used b))"
        using run by (simp add: dm_allocate_def areas Let_def)
    qed (use keep n0 le in \<open>auto split: if_splits\<close>)
  next
    fix nb
    assume nb: "nb = DumpMemoryBlock_new addr ?n"
      and run: "area_allocate stat addr ?n a = Inr (a\<lparr> da_blocks := nb\<lparr> db_used := ?n \<rparr> # da_blocks a, da_size := da_size a + db_size nb,
        da_used := da_used a + ?n \<rparr>, if stat then of_nat (db_size nb) else 0, if ?n = 0 then None else Some addr)"
    note keep = dinv_alloc_new [OF inv areas refl nb good refl refl]
    show thesis
    proof (rule that)
      show "dm_allocate stat addr sz dm = Inr (dm\<lparr> dm_areas := a\<lparr> da_blocks := nb\<lparr> db_used := ?n \<rparr> # da_blocks a, da_size := da_size a + db_size nb,
          da_used := da_used a + ?n \<rparr> # as, dm_size := dm_size dm + (if stat then of_nat (db_size nb) else 0),
          dm_used := dm_used dm + of_nat ?n \<rparr>, if ?n = 0 then None else Some addr)"
        using run by (simp add: dm_allocate_def areas Let_def)
    qed (use keep n0 le in \<open>auto split: if_splits\<close>)
  qed
qed

lemma dinv_end:
  assumes "dinv stat dm ps" and "area_end dm = Inr dm'"
  shows "dinv stat dm' (tl ps)"
proof -
  obtain a as where areas: "dm_areas dm = a # as" and dm': "dm' = dm\<lparr> dm_areas := as, dm_size := dm_size dm - of_nat (da_size a),
      dm_used := dm_used dm - of_nat (da_used a) \<rparr>"
    using assms(2) by (auto simp: area_end_def remove_area_def split: list.splits)
  obtain q qs where ps: "ps = q # qs" using assms(1) by (auto simp: dinv_def areas list_all2_Cons2)
  have "all_blocks dm = da_blocks a @ all_blocks dm'" by (simp add: all_blocks_def areas dm')
  then show ?thesis using assms(1) unfolding dinv_def ps by (simp add: areas sorted_wrt_append) (simp add: dm')
qed

lemma dreach_dinv: "dreach stat dm ps \<Longrightarrow> dinv stat dm ps"
proof (induction rule: dreach.induct)
  case D_init
  then show ?case by (simp add: dinv_def DumpMemory_new_def all_blocks_def)
next
  case (D_begin dm ps)
  have "all_blocks (area_begin dm) = all_blocks dm"
    by (simp add: all_blocks_def area_begin_def add_area_def DumpMemoryArea_new_def)
  then show ?case using D_begin.IH unfolding dinv_def
    by (simp add: area_begin_def add_area_def) (simp add: area_ok_def DumpMemoryArea_new_def)
next
  case (D_end dm ps dm')
  then show ?case by (intro dinv_end)
next
  case (D_alloc dm p ps addr sz dm' a)
  show ?case by (rule dinv_alloc [OF D_alloc.IH D_alloc.hyps(3,2)]) (use D_alloc.hyps(4) in auto)
next
  case (D_null dm ps addr sz dm')
  then obtain p qs where ps: "ps = p # qs"
    by (cases ps) (auto simp: dinv_def dm_allocate_def)
  show ?case unfolding ps by (rule dinv_alloc [OF D_null.IH [unfolded ps] D_null.hyps(3,2)]) (use D_null.hyps(4) in auto)
qed

section \<open>Properties\<close>

lemma new_piece:
  assumes "dinv stat dm (((a, sz) # p) # ps)"
  shows "a \<noteq> 0 \<and> ALIGNSIZE dvd a \<and> (\<forall>x \<in> set (concat (p # ps)). piece (a, sz) \<inter> piece x = {}) \<and>
    (\<exists>b \<in> set (all_blocks dm). piece (a, sz) \<subseteq> block_mem b)"
proof -
  obtain ar as where areas: "dm_areas dm = ar # as" "area_ok ((a, sz) # p) ar" using assms by (auto simp: dinv_def list_all2_Cons1)
  then obtain b where b: "b \<in> set (da_blocks ar)" "piece (a, sz) \<subseteq> used_mem b" "0 < sz" "ALIGNSIZE dvd a" by (auto simp: area_ok_def)
  then have mem: "b \<in> set (all_blocks dm)" by (auto simp: all_blocks_def areas)
  then have ok: "block_ok b" using assms by (simp add: dinv_def)
  have "a \<in> used_mem b" using b by (auto simp: piece_def)
  then have "a \<noteq> 0" using ok by (auto simp: used_mem_def block_ok_def)
  then show ?thesis using assms b mem used_block [OF ok] by (auto simp: dinv_def)
qed

text \<open>\<^bold>\<open>C36.\<close> Dump memory is safe: in any run that opens and closes areas and allocates, given that the C library returns
  blocks that are aligned and overlap no block in use, an allocation succeeds (the assertion
  never fails) and returns an address that is not \<open>NULL\<close>, aligned to eight bytes, inside one of the blocks, and shares no byte
  with any piece handed out before and not yet freed. It returns \<open>NULL\<close> only for size zero and for the seven sizes that cannot be
  rounded up to a multiple of eight within 64 bits.\<close>

theorem dump_memory_safe:
  assumes "dreach stat dm (p # ps)" and "good_addr addr sz dm" and "sz < 2 ^ 64"
  shows "\<exists>dm' r. dm_allocate stat addr sz dm = Inr (dm', r) \<and> (r = None \<longleftrightarrow> sz = 0 \<or> 2 ^ 64 - 8 < sz) \<and>
    (\<forall>a. r = Some a \<longrightarrow> a \<noteq> 0 \<and> ALIGNSIZE dvd a \<and> (\<forall>x \<in> set (concat (p # ps)). piece (a, sz) \<inter> piece x = {}) \<and>
      (\<exists>b \<in> set (all_blocks dm'). piece (a, sz) \<subseteq> block_mem b))"
proof (rule dinv_alloc [OF dreach_dinv [OF assms(1)] assms(2,3)])
  fix dm' r
  assume h: "dm_allocate stat addr sz dm = Inr (dm', r)" "r = None \<longleftrightarrow> sz = 0 \<or> \<not> size_ok sz"
    "\<And>a. r = Some a \<Longrightarrow> dinv stat dm' (((a, sz) # p) # ps)"
  have null: "r = None \<longleftrightarrow> sz = 0 \<or> 2 ^ 64 - 8 < sz" using h(2) by (auto simp: size_ok_def)
  show ?thesis by (intro exI [of _ dm'] exI [of _ r] conjI allI impI h(1) null) (use new_piece [OF h(3)] in simp_all)
qed

theorem dump_memory_safe_witness:
  "\<exists>dm' a. dm_allocate True 4096 20 (area_begin DumpMemory_new) = Inr (dm', Some a) \<and> a \<noteq> 0 \<and> ALIGNSIZE dvd a"
proof -
  have "dreach True (area_begin DumpMemory_new) ([] # [])" by (intro D_begin D_init)
  moreover have "good_addr 4096 20 (area_begin DumpMemory_new)"
    by (simp add: good_addr_def ALIGNSIZE_def all_blocks_def area_begin_def add_area_def DumpMemory_new_def DumpMemoryArea_new_def
        DumpMemoryBlock_new_def MEMORY_ALIGN_def DEFAULT_SIZE_def)
  ultimately show ?thesis using dump_memory_safe [of True "area_begin DumpMemory_new" "[]" "[]" 4096 20] by fastforce
qed

text \<open>The work of a compiler run: allocations, and areas opened and closed in between.\<close>

datatype dm_op = Allocate nat nat | Area "dm_op list"

fun dm_exec :: "bool \<Rightarrow> dm_op \<Rightarrow> dump_memory \<Rightarrow> dump_memory result"
  and dm_execs :: "bool \<Rightarrow> dm_op list \<Rightarrow> dump_memory \<Rightarrow> dump_memory result" where
  "dm_exec stat (Allocate addr sz) dm = rbind (dm_allocate stat addr sz dm) (\<lambda>(dm, p). Inr dm)"
| "dm_exec stat (Area ops) dm = rbind (dm_execs stat ops (area_begin dm)) area_end"
| "dm_execs stat [] dm = Inr dm"
| "dm_execs stat (x # ops) dm = rbind (dm_exec stat x dm) (dm_execs stat ops)"

text \<open>The bytes of the blocks that the work needs, those of inner areas included, counted from the free bytes of the current block
  alone (\<open>None\<close> if there is no block).\<close>

fun block_bytes :: "nat option \<Rightarrow> dm_op list \<Rightarrow> nat" where
  "block_bytes free [] = 0"
| "block_bytes free (Area ops # rest) = block_bytes None ops + block_bytes free rest"
| "block_bytes free (Allocate addr sz # rest) =
     (let n = MEMORY_ALIGN sz ALIGNSIZE; m = max n DEFAULT_SIZE in case free of
        None \<Rightarrow> m + block_bytes (Some (m - n)) rest
      | Some k \<Rightarrow> if n \<le> k then block_bytes (Some (k - n)) rest else m + block_bytes (Some (m - n)) rest)"

definition free_of :: "dm_area \<Rightarrow> nat option" where
  "free_of a = map_option get_free (get_current_block a)"

text \<open>How the totals of a dump memory and of its current area move together.\<close>

definition balanced :: "bool \<Rightarrow> nat \<Rightarrow> dump_memory \<Rightarrow> dump_memory \<Rightarrow> bool" where
  "balanced stat bytes dm dm' \<longleftrightarrow> (\<exists>a a' as. dm_areas dm = a # as \<and> dm_areas dm' = a' # as \<and>
     dm_used dm' - of_nat (da_used a') = dm_used dm - of_nat (da_used a) \<and>
     dm_size dm' - of_nat (da_size a') = dm_size dm - of_nat (da_size a) - (if stat then 0 else of_nat bytes))"

lemma balanced_trans: "balanced stat m a b \<Longrightarrow> balanced stat n b c \<Longrightarrow> balanced stat (m + n) a c"
  by (auto simp: balanced_def)

lemma dm_allocate_balance:
  assumes "dm_areas dm = a # as"
  obtains dm' p a' bytes where "dm_allocate stat addr sz dm = Inr (dm', p)" "dm_areas dm' = a' # as" "balanced stat bytes dm dm'"
    "\<And>ops. block_bytes (free_of a) (Allocate addr sz # ops) = bytes + block_bytes (free_of a') ops"
proof (rule area_allocate_cases [where sz = "MEMORY_ALIGN sz ALIGNSIZE" and stat = stat and addr = addr and a = a])
  let ?n = "MEMORY_ALIGN sz ALIGNSIZE"
  fix b bs
  let ?a = "a\<lparr> da_blocks := b\<lparr> db_used := db_used b + ?n \<rparr> # bs, da_used := da_used a + ?n \<rparr>"
  let ?dm = "dm\<lparr> dm_areas := ?a # as, dm_used := dm_used dm + of_nat ?n \<rparr>"
  assume bl: "da_blocks a = b # bs" "?n \<le> db_size b - db_used b"
    and "area_allocate stat addr ?n a = Inr (?a, 0, if ?n = 0 then None else Some (db_block b + db_used b))"
  then have "dm_allocate stat addr sz dm = Inr (?dm, if ?n = 0 then None else Some (db_block b + db_used b))"
    using assms by (simp add: dm_allocate_def Let_def)
  moreover have "balanced stat 0 dm ?dm" using assms by (simp add: balanced_def)
  moreover have "block_bytes (free_of a) (Allocate addr sz # ops) = 0 + block_bytes (free_of ?a) ops" for ops
    using bl by (simp add: free_of_def get_current_block_def get_free_def Let_def)
  ultimately show thesis by (intro that [of ?dm _ ?a 0]) simp_all
next
  let ?n = "MEMORY_ALIGN sz ALIGNSIZE"
  fix nb
  let ?a = "a\<lparr> da_blocks := nb\<lparr> db_used := ?n \<rparr> # da_blocks a, da_size := da_size a + db_size nb, da_used := da_used a + ?n \<rparr>"
  let ?dm = "dm\<lparr> dm_areas := ?a # as, dm_size := dm_size dm + (if stat then of_nat (db_size nb) else 0), dm_used := dm_used dm + of_nat ?n \<rparr>"
  assume nb: "nb = DumpMemoryBlock_new addr ?n" "\<And>b bs. da_blocks a = b # bs \<Longrightarrow> \<not> ?n \<le> db_size b - db_used b"
    and "area_allocate stat addr ?n a = Inr (?a, if stat then of_nat (db_size nb) else 0, if ?n = 0 then None else Some addr)"
  then have "dm_allocate stat addr sz dm = Inr (?dm, if ?n = 0 then None else Some addr)"
    using assms by (simp add: dm_allocate_def Let_def)
  moreover have "balanced stat (db_size nb) dm ?dm" using assms by (simp add: balanced_def)
  moreover have "block_bytes (free_of a) (Allocate addr sz # ops) = db_size nb + block_bytes (free_of ?a) ops" for ops
    using nb by (cases "da_blocks a") (auto simp: free_of_def get_current_block_def get_free_def Let_def DumpMemoryBlock_new_def max_def)
  ultimately show thesis by (intro that [of ?dm _ ?a "db_size nb"]) simp_all
qed

lemma area_end_balance:
  assumes "dm_areas (area_begin dm) = a # as" "balanced stat bytes (area_begin dm) dm'"
  shows "\<exists>dm''. area_end dm' = Inr dm'' \<and> dm_areas dm'' = dm_areas dm \<and> dm_used dm'' = dm_used dm \<and>
    dm_size dm'' = dm_size dm - (if stat then 0 else of_nat bytes)"
  using assms by (auto simp: balanced_def area_begin_def add_area_def DumpMemoryArea_new_def area_end_def remove_area_def)

lemma dm_execs_balance:
  "dm_areas dm = a # as \<Longrightarrow> \<exists>dm'. dm_execs stat ops dm = Inr dm' \<and> balanced stat (block_bytes (free_of a) ops) dm dm'"
proof (induction ops arbitrary: dm a as rule: measure_induct_rule [where f = "size_list size"])
  case (less ops)
  show ?case
  proof (cases ops)
    case Nil
    then show ?thesis using less.prems by (simp add: balanced_def)
  next
    case (Cons x rest)
    obtain dm1 a1 bytes where 1: "dm_exec stat x dm = Inr dm1" "dm_areas dm1 = a1 # as" "balanced stat bytes dm dm1"
        "block_bytes (free_of a) ops = bytes + block_bytes (free_of a1) rest"
    proof (cases x)
      case (Allocate addr sz)
      show thesis by (rule dm_allocate_balance [OF less.prems, of stat addr sz]) (rule that; simp add: Allocate Cons)
    next
      case (Area inner)
      have new: "dm_areas (area_begin dm) = DumpMemoryArea_new # a # as" "free_of DumpMemoryArea_new = None"
        using less.prems by (simp_all add: area_begin_def add_area_def DumpMemoryArea_new_def free_of_def get_current_block_def)
      obtain dm1 where dm1: "dm_execs stat inner (area_begin dm) = Inr dm1" "balanced stat (block_bytes None inner) (area_begin dm) dm1"
        using less.IH [of inner, OF _ new(1)] new(2) by (auto simp: Cons Area)
      obtain dm2 where dm2: "area_end dm1 = Inr dm2" "dm_areas dm2 = dm_areas dm" "dm_used dm2 = dm_used dm"
          "dm_size dm2 = dm_size dm - (if stat then 0 else of_nat (block_bytes None inner))"
        using area_end_balance [OF new(1) dm1(2)] by blast
      then show thesis using dm1(1) less.prems by (intro that [of dm2 a "block_bytes None inner"]) (simp_all add: Area Cons balanced_def)
    qed
    obtain dm2 where "dm_execs stat rest dm1 = Inr dm2" "balanced stat (block_bytes (free_of a1) rest) dm1 dm2"
      using less.IH [of rest, OF _ 1(2)] by (auto simp: Cons)
    then show ?thesis using 1 balanced_trans [OF 1(3)] by (simp add: Cons)
  qed
qed

text \<open>\<^bold>\<open>C37.\<close> An area that is opened, used and closed leaves the areas and the count of used bytes of the dump
  memory as they were, whatever is allocated in it, and whatever areas are opened and closed inside it; the assertions never fail.
  The count of its size is restored only in a VM built with statistics: otherwise the sizes of all the
  blocks are subtracted without ever having been added, and the count wraps below zero.\<close>

theorem area_balance:
  "\<exists>dm'. dm_exec stat (Area ops) dm = Inr dm' \<and> dm_areas dm' = dm_areas dm \<and> dm_used dm' = dm_used dm \<and>
    dm_size dm' = (if stat then dm_size dm else dm_size dm - of_nat (block_bytes None ops))"
proof -
  have new: "dm_areas (area_begin dm) = DumpMemoryArea_new # dm_areas dm" "free_of DumpMemoryArea_new = None"
    by (simp_all add: area_begin_def add_area_def DumpMemoryArea_new_def free_of_def get_current_block_def)
  obtain dm1 where "dm_execs stat ops (area_begin dm) = Inr dm1" "balanced stat (block_bytes None ops) (area_begin dm) dm1"
    using dm_execs_balance [OF new(1)] new(2) by metis
  then show ?thesis using area_end_balance [OF new(1)] by fastforce
qed

text \<open>\<^bold>\<open>C38.\<close> Reallocating a live piece to a size at least as big (as all callers do), which rounding up to a multiple of eight does not wrap, succeeds, copies its bytes, and
  changes no byte of any live piece, the old one included.\<close>

theorem reallocate_copies:
  assumes "dreach stat dm (p # ps)" and "good_addr addr len2 dm" and "(s, len1) \<in> set (concat (p # ps))" and "len1 \<le> len2" and "len2 \<le> 2 ^ 64 - 8"
  shows "\<exists>dm' mem' d. dm_reallocate stat addr (Some s) len1 len2 (dm, mem) = Inr ((dm', mem'), Some d) \<and>
    (\<forall>i < len1. mem' (d + i) = mem (s + i)) \<and> (\<forall>x \<in> set (concat (p # ps)). \<forall>b \<in> piece x. mem' b = mem b)"
proof (rule dinv_alloc [OF dreach_dinv [OF assms(1)] assms(2)])
  show "len2 < 2 ^ 64" using assms(5) by simp
  fix dm' r
  assume h: "dm_allocate stat addr len2 dm = Inr (dm', r)" "r = None \<longleftrightarrow> len2 = 0 \<or> \<not> size_ok len2"
    "\<And>a. r = Some a \<Longrightarrow> dinv stat dm' (((a, len2) # p) # ps)"
  have "list_all2 area_ok (p # ps) (dm_areas dm)" using dreach_dinv [OF assms(1)] by (simp add: dinv_def)
  from pieces_pos [OF this assms(3)] have pos: "0 < len1" by simp
  then obtain d where d: "r = Some d" using h(2) assms(4,5) by (cases r) (auto simp: size_ok_def)
  let ?mem = "\<lambda>a. if d \<le> a \<and> a < d + len1 then mem (s + (a - d)) else mem a"
  have "dm_reallocate stat addr (Some s) len1 len2 (dm, mem) = Inr ((dm', ?mem), Some d)"
    using h(1) d pos by (simp add: dm_reallocate_def dm_memcpy_def)
  moreover have "?mem b = mem b" if "x \<in> set (concat (p # ps))" "b \<in> piece x" for x b
  proof -
    have "b \<notin> piece (d, len2)" using new_piece [OF h(3) [OF d]] that by blast
    then show ?thesis using assms(4) by (auto simp: piece_def)
  qed
  ultimately show ?thesis by (intro exI [of _ dm'] exI [of _ ?mem] exI [of _ d]) simp
qed

theorem reallocate_copies_witness:
  "\<exists>dm dm' mem' d. dm_allocate True 4096 8 (area_begin DumpMemory_new) = Inr (dm, Some 4096) \<and>
    dm_reallocate True 40960 (Some 4096) 8 16 (dm, of_nat) = Inr ((dm', mem'), Some d) \<and> (\<forall>i < 8. mem' (d + i) = of_nat (4096 + i))"
proof -
  let ?b = "\<lparr> db_size = 16384, db_used = 8, db_block = 4096 \<rparr>"
  let ?dm = "\<lparr> dm_size = 16384, dm_used = 8, dm_areas = [\<lparr> da_size = 16384, da_used = 8, da_blocks = [?b] \<rparr>] \<rparr>"
  have run: "dm_allocate True 4096 8 (area_begin DumpMemory_new) = Inr (?dm, Some 4096)"
    by (simp add: dm_allocate_def area_begin_def add_area_def DumpMemoryArea_new_def area_allocate_def get_current_block_def DumpMemory_new_def
      allocate_new_block_def block_allocate_def DumpMemoryBlock_new_def Let_def MEMORY_ALIGN_def ALIGNSIZE_def DEFAULT_SIZE_def)
  have "good_addr 4096 8 (area_begin DumpMemory_new)"
    by (simp add: good_addr_def ALIGNSIZE_def all_blocks_def area_begin_def add_area_def DumpMemory_new_def DumpMemoryArea_new_def
        DumpMemoryBlock_new_def MEMORY_ALIGN_def DEFAULT_SIZE_def)
  from D_alloc [OF D_begin [OF D_init] _ this run] have reach: "dreach True ?dm ([(4096, 8)] # [])" by simp
  have "good_addr 40960 16 ?dm"
    by (auto simp: good_addr_def ALIGNSIZE_def all_blocks_def block_mem_def DumpMemoryBlock_new_def MEMORY_ALIGN_def DEFAULT_SIZE_def)
  from reallocate_copies [OF reach this, of 4096 8 of_nat]
  obtain dm' mem' d where "dm_reallocate True 40960 (Some 4096) 8 16 (?dm, of_nat) = Inr ((dm', mem'), Some d)"
      "\<forall>i < 8. mem' (d + i) = of_nat (4096 + i)" by auto
  with run show ?thesis by blast
qed

end
