(* ===== verification/ConstantPool.thy ===== *)
theory ConstantPool
  imports Descriptor
begin

unbundle bit_operations_syntax

text \<open>
  The constant pool of a class file: the reader \<open>ClassBuffer\<close> (\<^verbatim>\<open>src/src/vm/suck.hpp\<close>, \<^verbatim>\<open>src/src/toolbox/endianess.hpp\<close>),
  \<open>load_constantpool\<close> and the parts of \<open>load_class_from_classbuffer_intern\<close> that complete the constant pool
  (\<^verbatim>\<open>src/src/vm/loader.cpp\<close>), and \<open>class_getconstant\<close> (\<^verbatim>\<open>src/src/vm/class.cpp\<close>). The first pass reads the entries and
  keeps those that refer to others; they are resolved afterwards, in an order in which each finds
  what it refers to, and their descriptors go into the descriptor pool of the class.

  \<^item> A class buffer is the list of its unread bytes. Reading beyond the end is an error of the model,
    \<open>read_past_end\<close>. The VM is built with \<open>ENABLE_VERIFIER\<close>; \<open>opt_verify\<close> is the run-time option.
  \<^item> A string is the list of its bytes, \<open>NULL\<close> is \<open>I_null\<close>. A float or double is its bit pattern.
  \<^item> Numbers and names in the texts of exceptions are left out.
  \<^item> Where the code returns \<open>false\<close> without a pending exception the error is \<open>no_exception\<close>.
\<close>

section \<open>The reader\<close>

definition read_past_end :: vm_error where "read_past_end = Vm_abort ''read past the end of the class file''"

definition null_deref :: vm_error where "null_deref = Vm_abort ''NULL is dereferenced''"

definition type_confusion :: vm_error where "type_confusion = Vm_abort ''entry used as a different type''"

definition no_exception :: vm_error where "no_exception = Vm_abort ''failure without an exception''"

definition check_size :: "nat \<Rightarrow> u1 list \<Rightarrow> unit result" where
  "check_size sz pos = (if length pos < sz then Inl (ClassFormatError ''Truncated class file'') else Inr ())"

definition read_u1 :: "u1 list \<Rightarrow> (u1 \<times> u1 list) result" where
  "read_u1 pos = (case pos of s0 # pos \<Rightarrow> Inr (s0, pos) | _ \<Rightarrow> Inl read_past_end)"

definition read_u2 :: "u1 list \<Rightarrow> (u2 \<times> u1 list) result" where
  "read_u2 pos = (case pos of s0 # s1 # pos \<Rightarrow> Inr (push_bit 8 (ucast s0) + ucast s1, pos) | _ \<Rightarrow> Inl read_past_end)"

definition read_u4 :: "u1 list \<Rightarrow> (u4 \<times> u1 list) result" where
  "read_u4 pos = (case pos of
     s0 # s1 # s2 # s3 # pos \<Rightarrow>
       Inr (push_bit 24 (ucast s0) + push_bit 16 (ucast s1) + push_bit 8 (ucast s2) + ucast s3, pos)
   | _ \<Rightarrow> Inl read_past_end)"

definition read_u8 :: "u1 list \<Rightarrow> (64 word \<times> u1 list) result" where
  "read_u8 pos = (case pos of
     s0 # s1 # s2 # s3 # s4 # s5 # s6 # s7 # pos \<Rightarrow>
       Inr (push_bit 56 (ucast s0) + push_bit 48 (ucast s1) + push_bit 40 (ucast s2) + push_bit 32 (ucast s3)
            + push_bit 24 (ucast s4) + push_bit 16 (ucast s5) + push_bit 8 (ucast s6) + ucast s7, pos)
   | _ \<Rightarrow> Inl read_past_end)"

definition skip_nbytes :: "nat \<Rightarrow> u1 list \<Rightarrow> u1 list result" where
  "skip_nbytes n pos = (if n \<le> length pos then Inr (drop n pos) else Inl read_past_end)"

section \<open>Entries\<close>

datatype ConstantPoolTag = CONSTANT_UNUSED | CONSTANT_Utf8 | CONSTANT_Integer | CONSTANT_Float | CONSTANT_Long | CONSTANT_Double
  | CONSTANT_Class | CONSTANT_String | CONSTANT_Fieldref | CONSTANT_Methodref | CONSTANT_InterfaceMethodref | CONSTANT_NameAndType
  | CONSTANT_MethodHandle | CONSTANT_MethodType | CONSTANT_InvokeDynamic | CONSTANT_ClassName

text \<open>The tags that a class file may contain.\<close>

definition tag_of_u1 :: "u1 \<Rightarrow> ConstantPoolTag option" where
  "tag_of_u1 t = map_of [(7, CONSTANT_Class), (9, CONSTANT_Fieldref), (10, CONSTANT_Methodref), (11, CONSTANT_InterfaceMethodref),
     (8, CONSTANT_String), (3, CONSTANT_Integer), (4, CONSTANT_Float), (5, CONSTANT_Long), (6, CONSTANT_Double),
     (12, CONSTANT_NameAndType), (1, CONSTANT_Utf8), (15, CONSTANT_MethodHandle), (16, CONSTANT_MethodType),
     (18, CONSTANT_InvokeDynamic)] t"

datatype MethodHandleKind = REF_getField | REF_getStatic | REF_putField | REF_putStatic | REF_invokeVirtual | REF_invokeStatic
  | REF_invokeSpecial | REF_newInvokeSpecial | REF_invokeInterface

definition kind_of_u1 :: "u1 \<Rightarrow> MethodHandleKind option" where
  "kind_of_u1 k = map_of [(1, REF_getField), (2, REF_getStatic), (3, REF_putField), (4, REF_putStatic), (5, REF_invokeVirtual),
     (6, REF_invokeStatic), (7, REF_invokeSpecial), (8, REF_newInvokeSpecial), (9, REF_invokeInterface)] k"

text \<open>A field, method or interface method reference; its parsed descriptor is that of a field or a method.\<close>

record fmiref =
  fmi_classref :: nat
  fmi_name :: "u1 list"
  fmi_descriptor :: "u1 list"
  fmi_parseddesc :: "typedesc + methoddesc"

datatype cp_info =
    I_null
  | I_int s4
  | I_float u4
  | I_long "64 word"
  | I_double "64 word"
  | I_utf8 "u1 list"
  | I_nameandtype "u1 list" "u1 list"
  | I_classref nat
  | I_fmiref fmiref
  | I_methodtype "u1 list" "methoddesc option"
  | I_methodhandle MethodHandleKind fmiref
  | I_invokedynamic u2 "u1 list" "u1 list" methoddesc

text \<open>The constant pool of a class, and the entries to be resolved: index of the entry and what it refers to.\<close>

record cpool =
  cp_tags :: "ConstantPoolTag list"
  cp_infos :: "cp_info list"

record ForwardReferences =
  fwd_classes :: "(u2 \<times> u2) list"
  fwd_strings :: "(u2 \<times> u2) list"
  fwd_nameandtypes :: "(u2 \<times> u2 \<times> u2) list"
  fwd_fieldmethints :: "(u2 \<times> ConstantPoolTag \<times> u2 \<times> u2) list"
  fwd_methodhandles :: "(u2 \<times> u1 \<times> u2) list"
  fwd_methodtypes :: "(u2 \<times> u2) list"
  fwd_invokedynamics :: "(u2 \<times> u2 \<times> u2) list"

definition no_forward :: ForwardReferences where
  "no_forward = \<lparr> fwd_classes = [], fwd_strings = [], fwd_nameandtypes = [], fwd_fieldmethints = [], fwd_methodhandles = [],
     fwd_methodtypes = [], fwd_invokedynamics = [] \<rparr>"

definition set_entry :: "u2 \<Rightarrow> ConstantPoolTag \<Rightarrow> cp_info \<Rightarrow> cpool \<Rightarrow> cpool" where
  "set_entry i tag info cp = cp\<lparr> cp_tags := (cp_tags cp)[unat i := tag], cp_infos := (cp_infos cp)[unat i := info] \<rparr>"

definition class_getconstant :: "cpool \<Rightarrow> u2 \<Rightarrow> ConstantPoolTag \<Rightarrow> cp_info result" where
  "class_getconstant cp pos ctype =
     (if unat pos \<ge> length (cp_tags cp) \<or> cp_tags cp ! unat pos \<noteq> ctype then
        (if pos = 0 \<or> unat pos \<ge> length (cp_tags cp) then Inl (ClassFormatError ''Illegal constant pool index'')
         else Inl (ClassFormatError ''Illegal constant pool type''))
      else Inr (cp_infos cp ! unat pos))"

text \<open>Class file versions: major and minor number.\<close>

definition version_less :: "u2 \<times> u2 \<Rightarrow> u2 \<times> u2 \<Rightarrow> bool" where
  "version_less v w = (if fst v < fst w then True else if fst w < fst v then False else snd v < snd w)"

definition JDK_7 :: "u2 \<times> u2" where "JDK_7 = (51, 0)"

section \<open>The first pass\<close>

type_synonym pass_state = "u2 \<times> cpool \<times> ForwardReferences"

definition illegal :: "'a result" where "illegal = Inl (ClassFormatError ''Invalid constant pool entry'')"

text \<open>The cases of the switch, for the entry at \<open>idx\<close>; the result has the next index.\<close>

definition load_two_word :: "ConstantPoolTag \<Rightarrow> (64 word \<Rightarrow> cp_info) \<Rightarrow> u2 \<Rightarrow> pass_state \<Rightarrow> u1 list \<Rightarrow> (pass_state \<times> u1 list) result" where
  "load_two_word tag mk cpcount = (\<lambda>(idx, cp, fwd) pos.
     rbind (check_size 8 pos) (\<lambda>_. rbind (read_u8 pos) (\<lambda>(v, pos).
       let cp = set_entry idx tag (mk v) cp; idx = idx + 2
       in if idx > cpcount then illegal else Inr ((idx, cp, fwd), pos))))"

definition load_utf8 :: "bool \<Rightarrow> pass_state \<Rightarrow> u1 list \<Rightarrow> (pass_state \<times> u1 list) result" where
  "load_utf8 opt_verify = (\<lambda>(idx, cp, fwd) pos.
     rbind (check_size 2 pos) (\<lambda>_. rbind (read_u2 pos) (\<lambda>(len, pos).
       rbind (check_size (unat len) pos) (\<lambda>_.
         let text = take (unat len) pos;
             u = (case from_utf8 text of None \<Rightarrow> I_null | Some _ \<Rightarrow> I_utf8 text)
         in if opt_verify \<and> u = I_null then Inl (ClassFormatError ''Invalid UTF-8 string'')
            else rbind (skip_nbytes (unat len) pos) (\<lambda>pos. Inr ((idx + 1, set_entry idx CONSTANT_Utf8 u cp, fwd), pos))))))"

definition load_entry :: "bool \<Rightarrow> u2 \<times> u2 \<Rightarrow> u2 \<Rightarrow> pass_state \<Rightarrow> u1 list \<Rightarrow> (pass_state \<times> u1 list) result" where
  "load_entry opt_verify version cpcount = (\<lambda>(idx, cp, fwd) pos.
     rbind (check_size 1 pos) (\<lambda>_. rbind (read_u1 pos) (\<lambda>(t, pos).
       case tag_of_u1 t of
         None \<Rightarrow> Inl (ClassFormatError ''Illegal constant pool type'')
       | Some tag \<Rightarrow>
         if tag = CONSTANT_Class then
           rbind (check_size 2 pos) (\<lambda>_. rbind (read_u2 pos) (\<lambda>(name_index, pos).
             Inr ((idx + 1, cp, fwd\<lparr> fwd_classes := fwd_classes fwd @ [(idx, name_index)] \<rparr>), pos)))
         else if tag = CONSTANT_String then
           rbind (check_size 2 pos) (\<lambda>_. rbind (read_u2 pos) (\<lambda>(utf8_index, pos).
             Inr ((idx + 1, cp, fwd\<lparr> fwd_strings := fwd_strings fwd @ [(idx, utf8_index)] \<rparr>), pos)))
         else if tag = CONSTANT_NameAndType then
           rbind (check_size 4 pos) (\<lambda>_. rbind (read_u2 pos) (\<lambda>(name_index, pos). rbind (read_u2 pos) (\<lambda>(type_index, pos).
             Inr ((idx + 1, cp, fwd\<lparr> fwd_nameandtypes := fwd_nameandtypes fwd @ [(idx, name_index, type_index)] \<rparr>), pos))))
         else if tag \<in> {CONSTANT_Fieldref, CONSTANT_Methodref, CONSTANT_InterfaceMethodref} then
           rbind (check_size 4 pos) (\<lambda>_. rbind (read_u2 pos) (\<lambda>(class_index, pos). rbind (read_u2 pos) (\<lambda>(nameandtype_index, pos).
             Inr ((idx + 1, cp\<lparr> cp_tags := (cp_tags cp)[unat idx := tag] \<rparr>,
                   fwd\<lparr> fwd_fieldmethints := fwd_fieldmethints fwd @ [(idx, tag, class_index, nameandtype_index)] \<rparr>), pos))))
         else if tag = CONSTANT_Integer then
           rbind (check_size 4 pos) (\<lambda>_. rbind (read_u4 pos) (\<lambda>(v, pos). Inr ((idx + 1, set_entry idx CONSTANT_Integer (I_int v) cp, fwd), pos)))
         else if tag = CONSTANT_Float then
           rbind (check_size 4 pos) (\<lambda>_. rbind (read_u4 pos) (\<lambda>(v, pos). Inr ((idx + 1, set_entry idx CONSTANT_Float (I_float v) cp, fwd), pos)))
         else if tag = CONSTANT_Long then load_two_word CONSTANT_Long I_long cpcount (idx, cp, fwd) pos
         else if tag = CONSTANT_Double then load_two_word CONSTANT_Double I_double cpcount (idx, cp, fwd) pos
         else if tag = CONSTANT_Utf8 then load_utf8 opt_verify (idx, cp, fwd) pos
         else if version_less version JDK_7 then Inl (ClassFormatError ''Class file version does not support constant tag'')
         else if tag = CONSTANT_MethodHandle then
           rbind (check_size 3 pos) (\<lambda>_. rbind (read_u1 pos) (\<lambda>(reference_kind, pos). rbind (read_u2 pos) (\<lambda>(reference_index, pos).
             Inr ((idx + 1, cp, fwd\<lparr> fwd_methodhandles := fwd_methodhandles fwd @ [(idx, reference_kind, reference_index)] \<rparr>), pos))))
         else if tag = CONSTANT_MethodType then
           rbind (check_size 2 pos) (\<lambda>_. rbind (read_u2 pos) (\<lambda>(descriptor_index, pos).
             Inr ((idx + 1, cp, fwd\<lparr> fwd_methodtypes := (idx, descriptor_index) # fwd_methodtypes fwd \<rparr>), pos)))
         else
           rbind (check_size 4 pos) (\<lambda>_. rbind (read_u2 pos) (\<lambda>(bootstrap_method_attr_index, pos). rbind (read_u2 pos) (\<lambda>(name_and_type_index, pos).
             Inr ((idx + 1, cp, fwd\<lparr> fwd_invokedynamics := (idx, bootstrap_method_attr_index, name_and_type_index) # fwd_invokedynamics fwd \<rparr>), pos)))))))"

lemmas reads = check_size_def read_u1_def read_u2_def read_u4_def read_u8_def skip_nbytes_def

text \<open>How far the readers read.\<close>

lemma read_length:
  "read_u1 pos = Inr (a, rest) \<Longrightarrow> length pos = length rest + 1" "read_u2 pos = Inr (b, rest) \<Longrightarrow> length pos = length rest + 2"
  "read_u4 pos = Inr (c, rest) \<Longrightarrow> length pos = length rest + 4" "read_u8 pos = Inr (d, rest) \<Longrightarrow> length pos = length rest + 8"
  "skip_nbytes n pos = Inr rest \<Longrightarrow> length pos = length rest + n"
  by (auto simp: reads split: list.splits if_splits)

lemma list_ge: "Suc n \<le> length xs \<longleftrightarrow> (\<exists>y ys. xs = y # ys \<and> n \<le> length ys)"
  by (cases xs) auto

lemma read_enough:
  "1 \<le> length pos \<Longrightarrow> read_u1 pos \<noteq> Inl e" "2 \<le> length pos \<Longrightarrow> read_u2 pos \<noteq> Inl e"
  "4 \<le> length pos \<Longrightarrow> read_u4 pos \<noteq> Inl e" "8 \<le> length pos \<Longrightarrow> read_u8 pos \<noteq> Inl e" "n \<le> length pos \<Longrightarrow> skip_nbytes n pos \<noteq> Inl e"
  by (auto simp: reads numeral_eq_Suc list_ge)

lemma check_size_Inr: "check_size n pos = Inr u \<longleftrightarrow> n \<le> length pos"
  by (auto simp: check_size_def)

lemma check_size_Inl: "check_size n pos \<noteq> Inl read_past_end"
  by (simp add: check_size_def read_past_end_def)

text \<open>Code that stays inside the class file and leaves at most \<open>n\<close> bytes unread, fails only with a
  \<open>ClassFormatError\<close>, and otherwise establishes \<open>Q\<close>; with the rules that follow its structure.\<close>

definition reads_ok :: "nat \<Rightarrow> ('a \<Rightarrow> bool) \<Rightarrow> ('a \<times> u1 list) result \<Rightarrow> bool" where
  "reads_ok n Q m \<longleftrightarrow> (\<forall>e. m = Inl e \<longrightarrow> (\<exists>msg. e = ClassFormatError msg)) \<and> (\<forall>x rest. m = Inr (x, rest) \<longrightarrow> length rest \<le> n \<and> Q x)"

lemma reads_ok_Inr [cacao_inv]: "length rest \<le> n \<Longrightarrow> Q x \<Longrightarrow> reads_ok n Q (Inr (x, rest))"
  by (simp add: reads_ok_def)

lemma reads_ok_error [cacao_inv]: "reads_ok n Q (Inl (ClassFormatError m))"
  by (simp add: reads_ok_def)

lemma reads_ok_check [cacao_inv]: "(k \<le> length pos \<Longrightarrow> reads_ok n Q m) \<Longrightarrow> reads_ok n Q (rbind (check_size k pos) (\<lambda>_. m))"
  by (cases "k \<le> length pos") (auto simp: check_size_def reads_ok_def)

lemma reads_ok_read:
  assumes "\<And>e. m \<noteq> Inl e" "\<And>v rest. m = Inr (v, rest) \<Longrightarrow> reads_ok n Q (f v rest)"
  shows "reads_ok n Q (rbind m (\<lambda>(v, rest). f v rest))"
  using assms by (cases m) auto

lemma reads_ok_u1 [cacao_inv]:
  "1 \<le> length pos \<Longrightarrow> (\<And>v rest. length pos = length rest + 1 \<Longrightarrow> reads_ok n Q (f v rest)) \<Longrightarrow> reads_ok n Q (rbind (read_u1 pos) (\<lambda>(v, rest). f v rest))"
  using read_enough(1) read_length(1) by (intro reads_ok_read) blast+

lemma reads_ok_u2 [cacao_inv]:
  "2 \<le> length pos \<Longrightarrow> (\<And>v rest. length pos = length rest + 2 \<Longrightarrow> reads_ok n Q (f v rest)) \<Longrightarrow> reads_ok n Q (rbind (read_u2 pos) (\<lambda>(v, rest). f v rest))"
  using read_enough(2) read_length(2) by (intro reads_ok_read) blast+

lemma reads_ok_u4 [cacao_inv]:
  "4 \<le> length pos \<Longrightarrow> (\<And>v rest. length pos = length rest + 4 \<Longrightarrow> reads_ok n Q (f v rest)) \<Longrightarrow> reads_ok n Q (rbind (read_u4 pos) (\<lambda>(v, rest). f v rest))"
  using read_enough(3) read_length(3) by (intro reads_ok_read) blast+

lemma reads_ok_u8 [cacao_inv]:
  "8 \<le> length pos \<Longrightarrow> (\<And>v rest. length pos = length rest + 8 \<Longrightarrow> reads_ok n Q (f v rest)) \<Longrightarrow> reads_ok n Q (rbind (read_u8 pos) (\<lambda>(v, rest). f v rest))"
  using read_enough(4) read_length(4) by (intro reads_ok_read) blast+

lemma reads_ok_skip [cacao_inv]:
  "k \<le> length pos \<Longrightarrow> (\<And>rest. length pos = length rest + k \<Longrightarrow> reads_ok n Q (f rest)) \<Longrightarrow> reads_ok n Q (rbind (skip_nbytes k pos) f)"
  using read_enough(5) read_length(5) by (cases "skip_nbytes k pos") auto

lemma reads_ok_if [cacao_inv]: "(b \<Longrightarrow> reads_ok n Q x) \<Longrightarrow> (\<not> b \<Longrightarrow> reads_ok n Q y) \<Longrightarrow> reads_ok n Q (if b then x else y)"
  by simp

lemma reads_ok_option [cacao_inv]:
  "(m = None \<Longrightarrow> reads_ok n Q x) \<Longrightarrow> (\<And>t. m = Some t \<Longrightarrow> reads_ok n Q (f t)) \<Longrightarrow> reads_ok n Q (case m of None \<Rightarrow> x | Some t \<Rightarrow> f t)"
  by (cases m) auto

lemma reads_ok_mono: "reads_ok m Q x \<Longrightarrow> m \<le> n \<Longrightarrow> reads_ok n Q x"
  by (fastforce simp: reads_ok_def)

text \<open>The conditions under which the cases of the switch establish \<open>Q\<close>.\<close>

lemma two_word_reads:
  "(\<And>v. idx + 2 \<le> k \<Longrightarrow> Q (idx + 2, set_entry idx tag (mk v) cp, fwd)) \<Longrightarrow> reads_ok (length pos - 1) Q (load_two_word tag mk k (idx, cp, fwd) pos)"
  unfolding load_two_word_def illegal_def Let_def prod.case by (intro cacao_inv) simp_all

lemma utf8_reads:
  "(\<And>u. u = I_null \<or> (\<exists>text. u = I_utf8 text) \<Longrightarrow> Q (idx + 1, set_entry idx CONSTANT_Utf8 u cp, fwd)) \<Longrightarrow>
    reads_ok (length pos - 1) Q (load_utf8 v (idx, cp, fwd) pos)"
  unfolding load_utf8_def Let_def prod.case by (intro cacao_inv) (simp_all split: option.split)

lemma load_entry_reads:
  assumes "\<And>x. Q (idx + 1, cp, fwd\<lparr> fwd_classes := fwd_classes fwd @ [(idx, x)] \<rparr>)"
    "\<And>x. Q (idx + 1, cp, fwd\<lparr> fwd_strings := fwd_strings fwd @ [(idx, x)] \<rparr>)"
    "\<And>x. Q (idx + 1, cp, fwd\<lparr> fwd_nameandtypes := fwd_nameandtypes fwd @ [(idx, x)] \<rparr>)"
    "\<And>tag x. tag \<in> {CONSTANT_Fieldref, CONSTANT_Methodref, CONSTANT_InterfaceMethodref} \<Longrightarrow>
      Q (idx + 1, cp\<lparr> cp_tags := (cp_tags cp)[unat idx := tag] \<rparr>, fwd\<lparr> fwd_fieldmethints := fwd_fieldmethints fwd @ [(idx, tag, x)] \<rparr>)"
    "\<And>x. Q (idx + 1, cp, fwd\<lparr> fwd_methodhandles := fwd_methodhandles fwd @ [(idx, x)] \<rparr>)"
    "\<And>x. Q (idx + 1, cp, fwd\<lparr> fwd_methodtypes := (idx, x) # fwd_methodtypes fwd \<rparr>)"
    "\<And>x. Q (idx + 1, cp, fwd\<lparr> fwd_invokedynamics := (idx, x) # fwd_invokedynamics fwd \<rparr>)"
    "\<And>v. Q (idx + 1, set_entry idx CONSTANT_Integer (I_int v) cp, fwd)"
    "\<And>v. Q (idx + 1, set_entry idx CONSTANT_Float (I_float v) cp, fwd)"
    "\<And>v. idx + 2 \<le> k \<Longrightarrow> Q (idx + 2, set_entry idx CONSTANT_Long (I_long v) cp, fwd)"
    "\<And>v. idx + 2 \<le> k \<Longrightarrow> Q (idx + 2, set_entry idx CONSTANT_Double (I_double v) cp, fwd)"
    "\<And>u. u = I_null \<or> (\<exists>text. u = I_utf8 text) \<Longrightarrow> Q (idx + 1, set_entry idx CONSTANT_Utf8 u cp, fwd)"
  shows "reads_ok (length pos - 1) Q (load_entry v ver k (idx, cp, fwd) pos)"
  unfolding load_entry_def prod.case
  by (intro cacao_inv assms reads_ok_mono [OF two_word_reads] reads_ok_mono [OF utf8_reads]) simp_all

lemma load_entry_shorter: "load_entry v ver k st pos = Inr (st', rest) \<Longrightarrow> length rest < length pos"
proof -
  assume a: "load_entry v ver k st pos = Inr (st', rest)"
  obtain idx cp fwd where st: "st = (idx, cp, fwd)" by (cases st)
  have "pos \<noteq> []" using a by (auto simp: st load_entry_def check_size_def)
  moreover have "length rest \<le> length pos - 1"
    using load_entry_reads [of "\<lambda>_. True" idx cp fwd k pos v ver] a unfolding st reads_ok_def by blast
  ultimately show ?thesis by (cases pos) auto
qed

text \<open>The loop of the first pass.\<close>

function first_pass :: "bool \<Rightarrow> u2 \<times> u2 \<Rightarrow> u2 \<Rightarrow> pass_state \<Rightarrow> u1 list \<Rightarrow> (pass_state \<times> u1 list) result" where
  "first_pass opt_verify version cpcount st pos =
     (if fst st < cpcount then
        (case load_entry opt_verify version cpcount st pos of
           Inl e \<Rightarrow> Inl e
         | Inr (st, pos) \<Rightarrow> first_pass opt_verify version cpcount st pos)
      else Inr (st, pos))"
  by pat_completeness auto
termination
  by (relation "measure (\<lambda>(_, _, _, _, pos). length pos)") (auto dest: load_entry_shorter)

declare first_pass.simps [simp del]

section \<open>Resolving the entries\<close>

text \<open>Each loop over forward references stops at the first failure; it passes on the constant pool and the descriptor pool.\<close>

fun for_each :: "('a \<Rightarrow> cpool \<times> DescriptorPool \<Rightarrow> (cpool \<times> DescriptorPool) result) \<Rightarrow> 'a list \<Rightarrow> cpool \<times> DescriptorPool
    \<Rightarrow> (cpool \<times> DescriptorPool) result" where
  "for_each f [] s = Inr s"
| "for_each f (x # xs) s = rbind (f x s) (for_each f xs)"

text \<open>\<open>(utf*) class_getconstant(...)\<close> followed by the test for \<open>NULL\<close>.\<close>

definition get_utf8 :: "cpool \<Rightarrow> u2 \<Rightarrow> ConstantPoolTag \<Rightarrow> u1 list result" where
  "get_utf8 cp i tag = rbind (class_getconstant cp i tag) (\<lambda>info. case info of
     I_utf8 s \<Rightarrow> Inr s | I_null \<Rightarrow> Inl no_exception | _ \<Rightarrow> Inl type_confusion)"

definition get_nameandtype :: "cpool \<Rightarrow> u2 \<Rightarrow> (u1 list \<times> u1 list) result" where
  "get_nameandtype cp i = rbind (class_getconstant cp i CONSTANT_NameAndType) (\<lambda>info. case info of
     I_nameandtype n d \<Rightarrow> Inr (n, d) | I_null \<Rightarrow> Inl no_exception | _ \<Rightarrow> Inl type_confusion)"

text \<open>A call on the descriptor pool, whose state is lost when the class is given up.\<close>

definition on_pool :: "DescriptorPool \<times> 'a result \<Rightarrow> (DescriptorPool \<times> 'a) result" where
  "on_pool r = (case r of (pool, r) \<Rightarrow> rbind r (\<lambda>x. Inr (pool, x)))"

definition resolve_class :: "bool \<Rightarrow> u2 \<times> u2 \<Rightarrow> cpool \<times> DescriptorPool \<Rightarrow> (cpool \<times> DescriptorPool) result" where
  "resolve_class opt_verify = (\<lambda>(this_index, name_index) (cp, pool).
     rbind (get_utf8 cp name_index CONSTANT_Utf8) (\<lambda>name.
       if opt_verify \<and> \<not> valid_name_bytes name then Inl (ClassFormatError ''Class reference with invalid name'')
       else rbind (on_pool (add_class name pool)) (\<lambda>(pool, _).
         Inr (set_entry this_index CONSTANT_ClassName (I_utf8 name) cp, pool))))"

definition resolve_string :: "u2 \<times> u2 \<Rightarrow> cpool \<times> DescriptorPool \<Rightarrow> (cpool \<times> DescriptorPool) result" where
  "resolve_string = (\<lambda>(this_index, utf8_index) (cp, pool).
     rbind (get_utf8 cp utf8_index CONSTANT_Utf8) (\<lambda>text. Inr (set_entry this_index CONSTANT_String (I_utf8 text) cp, pool)))"

text \<open>The bytes of \<open><init>\<close> and \<open><clinit>\<close>.\<close>

definition utf8_init :: "u1 list" where "utf8_init = [0x3C, 0x69, 0x6E, 0x69, 0x74, 0x3E]"

definition utf8_clinit :: "u1 list" where "utf8_clinit = [0x3C, 0x63, 0x6C, 0x69, 0x6E, 0x69, 0x74, 0x3E]"

definition resolve_nameandtype :: "bool \<Rightarrow> u2 \<times> u2 \<times> u2 \<Rightarrow> cpool \<times> DescriptorPool \<Rightarrow> (cpool \<times> DescriptorPool) result" where
  "resolve_nameandtype opt_verify = (\<lambda>(this_index, name_index, type_index) (cp, pool).
     rbind (get_utf8 cp name_index CONSTANT_Utf8) (\<lambda>name. rbind (get_utf8 cp type_index CONSTANT_Utf8) (\<lambda>descriptor.
       if opt_verify \<and> \<not> valid_name_bytes name then Inl (ClassFormatError ''Illegal field or method name'')
       else if opt_verify \<and> (case name of [] \<Rightarrow> 0 | c # _ \<Rightarrow> c) = 0x3C \<and> name \<noteq> utf8_init
       then Inl (ClassFormatError ''Illegal reference to special method'')
       else Inr (set_entry this_index CONSTANT_NameAndType (I_nameandtype name descriptor) cp, pool))))"

definition resolve_fieldmethint :: "u2 \<times> ConstantPoolTag \<times> u2 \<times> u2 \<Rightarrow> cpool \<times> DescriptorPool \<Rightarrow> (cpool \<times> DescriptorPool) result" where
  "resolve_fieldmethint = (\<lambda>(this_index, tag, class_index, nameandtype_index) (cp, pool).
     rbind (get_nameandtype cp nameandtype_index) (\<lambda>(name, descriptor).
       if tag = CONSTANT_Fieldref then rbind (on_pool (add_field descriptor pool)) (\<lambda>(pool, _). Inr (cp, pool))
       else if tag = CONSTANT_Methodref \<or> tag = CONSTANT_InterfaceMethodref
       then rbind (on_pool (add_method descriptor pool)) (\<lambda>(pool, _). Inr (cp, pool))
       else Inl Assertion_failed))"

text \<open>The result of \<open>class_getconstant\<close> is not checked here: \<open>add_method\<close> asserts that it gets a string.\<close>

definition resolve_methodtype :: "u2 \<times> u2 \<Rightarrow> cpool \<times> DescriptorPool \<Rightarrow> (cpool \<times> DescriptorPool) result" where
  "resolve_methodtype = (\<lambda>(this_index, descriptor_index) (cp, pool).
     case class_getconstant cp descriptor_index CONSTANT_Utf8 of
       Inr (I_utf8 descriptor) \<Rightarrow> rbind (on_pool (add_method descriptor pool)) (\<lambda>(pool, _). Inr (cp, pool))
     | _ \<Rightarrow> Inl Assertion_failed)"

definition resolve_entries :: "bool \<Rightarrow> ForwardReferences \<Rightarrow> cpool \<times> DescriptorPool \<Rightarrow> (cpool \<times> DescriptorPool) result" where
  "resolve_entries opt_verify fwd s =
     rbind (for_each (resolve_class opt_verify) (fwd_classes fwd) s) (\<lambda>s.
     rbind (for_each resolve_string (fwd_strings fwd) s) (\<lambda>s.
     rbind (for_each (resolve_nameandtype opt_verify) (fwd_nameandtypes fwd) s) (\<lambda>s.
     rbind (for_each resolve_fieldmethint (fwd_fieldmethints fwd) s)
       (for_each resolve_methodtype (fwd_methodtypes fwd)))))"

definition empty_cpool :: "u2 \<Rightarrow> cpool" where
  "empty_cpool cpcount = \<lparr> cp_tags = replicate (unat cpcount) CONSTANT_UNUSED, cp_infos = replicate (unat cpcount) I_null \<rparr>"

definition load_constantpool :: "bool \<Rightarrow> u2 \<times> u2 \<Rightarrow> DescriptorPool \<Rightarrow> u1 list
    \<Rightarrow> ((cpool \<times> DescriptorPool \<times> ForwardReferences) \<times> u1 list) result" where
  "load_constantpool opt_verify version descpool pos =
     rbind (check_size 2 pos) (\<lambda>_. rbind (read_u2 pos) (\<lambda>(cpcount, pos).
       if cpcount < 1 then Inl (ClassFormatError ''Illegal constant pool size'')
       else rbind (first_pass opt_verify version cpcount (1, empty_cpool cpcount, no_forward) pos) (\<lambda>((idx, cp, fwd), pos).
         rbind (resolve_entries opt_verify fwd (cp, descpool)) (\<lambda>(cp, descpool). Inr ((cp, descpool, fwd), pos)))))"

section \<open>Completing the entries\<close>

text \<open>
  When fields and methods are loaded and the class references and parsed descriptors are allocated, the
  entries get their final form. A \<open>NULL\<close> that the code does not check for is \<open>null_deref\<close> or the failing assertion it
  leads to.
\<close>

text \<open>\<open>class_getconstant\<close> where a failure gives \<open>NULL\<close> and is not checked.\<close>

definition not_checked :: "'a result \<Rightarrow> vm_error \<Rightarrow> 'a result" where
  "not_checked r e = (case r of Inl e' \<Rightarrow> Inl (if e' = type_confusion then type_confusion else e) | Inr x \<Rightarrow> Inr x)"

definition link_class :: "u2 \<times> u2 \<Rightarrow> cpool \<times> DescriptorPool \<Rightarrow> (cpool \<times> DescriptorPool) result" where
  "link_class = (\<lambda>(this_index, name_index) (cp, pool).
     rbind (not_checked (get_utf8 cp this_index CONSTANT_ClassName) Assertion_failed) (\<lambda>name.
       rbind (on_pool (lookup_classref name pool)) (\<lambda>(pool, ref).
         Inr (set_entry this_index CONSTANT_Class (case ref of None \<Rightarrow> I_null | Some r \<Rightarrow> I_classref r) cp, pool))))"

text \<open>A descriptor that cannot be parsed gives \<open>NULL\<close> and a pending exception.\<close>

definition parse_method_or_null :: "u1 list \<Rightarrow> int \<Rightarrow> nat option \<Rightarrow> DescriptorPool \<Rightarrow> (DescriptorPool \<times> methoddesc option) result" where
  "parse_method_or_null desc mflags this pool = (case parse_method_descriptor desc mflags this pool of
     (pool, Inr md) \<Rightarrow> Inr (pool, Some md)
   | (pool, Inl (ClassFormatError m)) \<Rightarrow> Inr (pool\<lparr> dp_exception := Some (ClassFormatError m) \<rparr>, None)
   | (pool, Inl e) \<Rightarrow> Inl e)"

definition link_methodtype :: "u2 \<times> u2 \<Rightarrow> cpool \<times> DescriptorPool \<Rightarrow> (cpool \<times> DescriptorPool) result" where
  "link_methodtype = (\<lambda>(this_index, descriptor_index) (cp, pool).
     rbind (not_checked (get_utf8 cp descriptor_index CONSTANT_Utf8) null_deref) (\<lambda>descriptor.
       rbind (parse_method_or_null descriptor ACC_STATIC None pool) (\<lambda>(pool, parseddesc).
         Inr (set_entry this_index CONSTANT_MethodType (I_methodtype descriptor parseddesc) cp, pool))))"

definition link_invokedynamic :: "u2 \<times> u2 \<times> u2 \<Rightarrow> cpool \<times> DescriptorPool \<Rightarrow> (cpool \<times> DescriptorPool) result" where
  "link_invokedynamic = (\<lambda>(this_index, bootstrap_method_attr_index, name_and_type_index) (cp, pool).
     rbind (not_checked (get_nameandtype cp name_and_type_index) null_deref) (\<lambda>(name, desc).
       rbind (parse_method_or_null desc ACC_STATIC None pool) (\<lambda>(pool, parsed). case parsed of
         None \<Rightarrow> Inl null_deref
       | Some md \<Rightarrow> rbind (params_from_paramtypes ACC_STATIC md) (\<lambda>md.
           Inr (set_entry this_index CONSTANT_InvokeDynamic (I_invokedynamic bootstrap_method_attr_index name desc md) cp, pool)))))"

definition get_classref :: "cpool \<Rightarrow> u2 \<Rightarrow> nat result" where
  "get_classref cp i = rbind (class_getconstant cp i CONSTANT_Class) (\<lambda>info. case info of
     I_classref r \<Rightarrow> Inr r | I_null \<Rightarrow> Inl no_exception | _ \<Rightarrow> Inl type_confusion)"

text \<open>The switch over the kind of a reference.\<close>

definition parse_reference :: "ConstantPoolTag \<Rightarrow> u1 list \<Rightarrow> nat \<Rightarrow> DescriptorPool \<Rightarrow> (DescriptorPool \<times> (typedesc + methoddesc)) result" where
  "parse_reference tag descriptor classref pool =
     (if tag = CONSTANT_Fieldref then rbind (on_pool (parse_field_descriptor descriptor pool)) (\<lambda>(pool, fd). Inr (pool, Inl fd))
      else if tag = CONSTANT_Methodref \<or> tag = CONSTANT_InterfaceMethodref
      then rbind (on_pool (parse_method_descriptor descriptor ACC_UNDEF (Some classref) pool)) (\<lambda>(pool, md). Inr (pool, Inr md))
      else Inl Assertion_failed)"

definition link_fieldmethint :: "u2 \<times> ConstantPoolTag \<times> u2 \<times> u2 \<Rightarrow> cpool \<times> DescriptorPool \<Rightarrow> (cpool \<times> DescriptorPool) result" where
  "link_fieldmethint = (\<lambda>(this_index, tag, class_index, nameandtype_index) (cp, pool).
     rbind (not_checked (get_nameandtype cp nameandtype_index) null_deref) (\<lambda>(name, descriptor).
       rbind (get_classref cp class_index) (\<lambda>classref.
         rbind (parse_reference tag descriptor classref pool) (\<lambda>(pool, parseddesc).
           Inr (set_entry this_index tag (I_fmiref \<lparr> fmi_classref = classref, fmi_name = name, fmi_descriptor = descriptor,
                                                     fmi_parseddesc = parseddesc \<rparr>) cp, pool)))))"

definition get_fmiref :: "cpool \<Rightarrow> u2 \<Rightarrow> ConstantPoolTag \<Rightarrow> fmiref result" where
  "get_fmiref cp i tag = rbind (class_getconstant cp i tag) (\<lambda>info. case info of
     I_fmiref fmi \<Rightarrow> Inr fmi | I_null \<Rightarrow> Inl no_exception | _ \<Rightarrow> Inl type_confusion)"

text \<open>The switch over the kind of a method handle.\<close>

definition handle_target :: "MethodHandleKind \<Rightarrow> u2 \<Rightarrow> cpool \<Rightarrow> fmiref result" where
  "handle_target kind reference_index cp =
     (if kind \<in> {REF_getField, REF_getStatic, REF_putField, REF_putStatic} then get_fmiref cp reference_index CONSTANT_Fieldref
      else if kind \<in> {REF_invokeVirtual, REF_invokeStatic, REF_invokeSpecial} then
        rbind (get_fmiref cp reference_index CONSTANT_Methodref) (\<lambda>fmi.
          if fmi_name fmi = utf8_init \<or> fmi_name fmi = utf8_clinit then Inl (ClassFormatError ''Illegal method handle'') else Inr fmi)
      else if kind = REF_newInvokeSpecial then
        rbind (get_fmiref cp reference_index CONSTANT_Methodref) (\<lambda>fmi.
          if fmi_name fmi \<noteq> utf8_init then Inl (ClassFormatError ''Illegal method handle'') else Inr fmi)
      else rbind (get_fmiref cp reference_index CONSTANT_InterfaceMethodref) (\<lambda>fmi.
          if fmi_name fmi = utf8_init \<or> fmi_name fmi = utf8_clinit then Inl (ClassFormatError ''Illegal method handle'') else Inr fmi))"

definition link_methodhandle :: "u2 \<times> u1 \<times> u2 \<Rightarrow> cpool \<times> DescriptorPool \<Rightarrow> (cpool \<times> DescriptorPool) result" where
  "link_methodhandle = (\<lambda>(this_index, reference_kind, reference_index) (cp, pool).
     case kind_of_u1 reference_kind of
       None \<Rightarrow> Inl (ClassFormatError ''Illegal reference kind in method handle'')
     | Some kind \<Rightarrow>
         rbind (handle_target kind reference_index cp)
           (\<lambda>fmi. Inr (set_entry this_index CONSTANT_MethodHandle (I_methodhandle kind fmi) cp, pool)))"

text \<open>The loops of \<open>load_class_from_classbuffer_intern\<close> over the forward references, in their order. Between
  the two groups the super class and the interfaces are resolved and the descriptors of the fields and methods parsed.\<close>

definition link_classes_and_types :: "ForwardReferences \<Rightarrow> cpool \<times> DescriptorPool \<Rightarrow> (cpool \<times> DescriptorPool) result" where
  "link_classes_and_types fwd s =
     rbind (for_each link_class (fwd_classes fwd) s) (\<lambda>s.
     rbind (for_each link_methodtype (fwd_methodtypes fwd) s)
       (for_each link_invokedynamic (fwd_invokedynamics fwd)))"

definition link_references :: "ForwardReferences \<Rightarrow> cpool \<times> DescriptorPool \<Rightarrow> (cpool \<times> DescriptorPool) result" where
  "link_references fwd s =
     rbind (for_each link_fieldmethint (fwd_fieldmethints fwd) s) (for_each link_methodhandle (fwd_methodhandles fwd))"

end
