(* ===== verification/ConstantPoolProps.thy ===== *)
theory ConstantPoolProps
  imports ConstantPool DescriptorProps
begin

text \<open>
  What the loading of a constant pool promises: reads stay inside the class file, every entry holds the
  structure that its tag announces, and what was loaded can be completed, together with the descriptor pool.
\<close>

section \<open>Outcomes\<close>

text \<open>A routine fails only with errors in \<open>E\<close>, and otherwise establishes \<open>Q\<close>.\<close>

definition ends :: "(vm_error \<Rightarrow> bool) \<Rightarrow> ('a \<Rightarrow> bool) \<Rightarrow> 'a result \<Rightarrow> bool" where
  "ends E Q r \<longleftrightarrow> (case r of Inl e \<Rightarrow> E e | Inr x \<Rightarrow> Q x)"

lemma ends_simps [simp]: "ends E Q (Inl e) = E e" "ends E Q (Inr x) = Q x"
  by (simp_all add: ends_def)

lemma ends_rbind [simp]: "ends E Q (rbind m f) = ends E (\<lambda>x. ends E Q (f x)) m"
  by (cases m) simp_all

lemma ends_mono: "ends E Q m \<Longrightarrow> (\<And>e. E e \<Longrightarrow> E' e) \<Longrightarrow> (\<And>x. m = Inr x \<Longrightarrow> Q x \<Longrightarrow> Q' x) \<Longrightarrow> ends E' Q' m"
  by (cases m) simp_all

lemma ends_Inr: "ends E Q m \<Longrightarrow> m = Inr x \<Longrightarrow> Q x"
  by simp

text \<open>An invariant that says what holds of the elements still to come.\<close>

lemma for_each_ends:
  "(\<And>x xs s. I (x # xs) s \<Longrightarrow> ends E (I xs) (f x s)) \<Longrightarrow> I xs s \<Longrightarrow> ends E (I []) (for_each f xs s)"
proof (induction xs arbitrary: s)
  case (Cons x xs)
  then have "ends E (I xs) (f x s)" by blast
  then show ?case unfolding for_each.simps ends_rbind by (rule ends_mono) (use Cons in blast)+
qed simp

lemma first_pass_reads:
  assumes step: "\<And>st pos. Inv st \<Longrightarrow> fst st < k \<Longrightarrow> reads_ok (length pos - 1) Inv (load_entry v ver k st pos)"
  shows "Inv st \<Longrightarrow> reads_ok (length pos) (\<lambda>st. Inv st \<and> \<not> fst st < k) (first_pass v ver k st pos)"
proof (induction "length pos" arbitrary: st pos rule: less_induct)
  case less
  show ?case
  proof (cases "fst st < k")
    case True
    have here: "reads_ok (length pos - 1) Inv (load_entry v ver k st pos)" using step less.prems True .
    show ?thesis
    proof (cases "load_entry v ver k st pos")
      case (Inl e)
      then show ?thesis using here True by (subst first_pass.simps) (simp add: reads_ok_def)
    next
      case (Inr p)
      obtain st' rest where p: "p = (st', rest)" by (cases p)
      have "Inv st'" using here Inr p by (simp add: reads_ok_def)
      moreover have l: "length rest < length pos" using load_entry_shorter Inr p by blast
      ultimately have "reads_ok (length rest) (\<lambda>st. Inv st \<and> \<not> fst st < k) (first_pass v ver k st' rest)"
        using less.hyps by blast
      then show ?thesis using True Inr p reads_ok_mono l less_imp_le by (subst first_pass.simps) fastforce
    qed
  next
    case False
    then show ?thesis using less.prems by (subst first_pass.simps) (simp add: reads_ok_def)
  qed
qed

section \<open>Types of entries\<close>

definition fmi_tags :: "ConstantPoolTag set" where
  "fmi_tags = {CONSTANT_Fieldref, CONSTANT_Methodref, CONSTANT_InterfaceMethodref}"

text \<open>The structure that belongs to a tag. A string that is not valid UTF-8 is \<open>NULL\<close> unless classes are verified.\<close>

fun entry_ok :: "ConstantPoolTag \<Rightarrow> cp_info \<Rightarrow> bool" where
  "entry_ok CONSTANT_UNUSED info = (info = I_null)"
| "entry_ok CONSTANT_Utf8 info = (case info of I_null \<Rightarrow> True | I_utf8 _ \<Rightarrow> True | _ \<Rightarrow> False)"
| "entry_ok CONSTANT_Integer info = (case info of I_int _ \<Rightarrow> True | _ \<Rightarrow> False)"
| "entry_ok CONSTANT_Float info = (case info of I_float _ \<Rightarrow> True | _ \<Rightarrow> False)"
| "entry_ok CONSTANT_Long info = (case info of I_long _ \<Rightarrow> True | _ \<Rightarrow> False)"
| "entry_ok CONSTANT_Double info = (case info of I_double _ \<Rightarrow> True | _ \<Rightarrow> False)"
| "entry_ok CONSTANT_Class info = (case info of I_null \<Rightarrow> True | I_classref _ \<Rightarrow> True | _ \<Rightarrow> False)"
| "entry_ok CONSTANT_ClassName info = (case info of I_utf8 _ \<Rightarrow> True | _ \<Rightarrow> False)"
| "entry_ok CONSTANT_String info = (case info of I_utf8 _ \<Rightarrow> True | _ \<Rightarrow> False)"
| "entry_ok CONSTANT_NameAndType info = (case info of I_nameandtype _ _ \<Rightarrow> True | _ \<Rightarrow> False)"
| "entry_ok CONSTANT_Fieldref info = (case info of I_fmiref fmi \<Rightarrow> isl (fmi_parseddesc fmi) | _ \<Rightarrow> False)"
| "entry_ok CONSTANT_Methodref info = (case info of I_fmiref fmi \<Rightarrow> \<not> isl (fmi_parseddesc fmi) | _ \<Rightarrow> False)"
| "entry_ok CONSTANT_InterfaceMethodref info = (case info of I_fmiref fmi \<Rightarrow> \<not> isl (fmi_parseddesc fmi) | _ \<Rightarrow> False)"
| "entry_ok CONSTANT_MethodHandle info = (case info of I_methodhandle kind fmi \<Rightarrow>
     isl (fmi_parseddesc fmi) = (kind \<in> {REF_getField, REF_getStatic, REF_putField, REF_putStatic}) | _ \<Rightarrow> False)"
| "entry_ok CONSTANT_MethodType info = (case info of I_methodtype _ _ \<Rightarrow> True | _ \<Rightarrow> False)"
| "entry_ok CONSTANT_InvokeDynamic info = (case info of I_invokedynamic _ _ _ _ \<Rightarrow> True | _ \<Rightarrow> False)"

text \<open>The references at the indices \<open>P\<close> have their tag, but are not yet completed.\<close>

definition cp_ok :: "nat set \<Rightarrow> cpool \<Rightarrow> bool" where
  "cp_ok P cp \<longleftrightarrow> length (cp_infos cp) = length (cp_tags cp) \<and>
     (\<forall>i < length (cp_tags cp). cp_tags cp ! i \<in> fmi_tags \<and> i \<in> P \<or> entry_ok (cp_tags cp ! i) (cp_infos cp ! i))"

lemma nth_update: "j < length xs \<Longrightarrow> xs[i := x] ! j = (if i = j then x else xs ! j)"
  by (cases "i = j") auto

lemma cp_ok_set: "cp_ok P cp \<Longrightarrow> entry_ok tag info \<Longrightarrow> cp_ok P (set_entry i tag info cp)"
  by (auto simp: cp_ok_def set_entry_def nth_update)

lemma cp_ok_done: "cp_ok (insert (unat i) P) cp \<Longrightarrow> entry_ok tag info \<Longrightarrow> cp_ok P (set_entry i tag info cp)"
  by (auto simp: cp_ok_def set_entry_def nth_update)

lemma cp_ok_pending:
  "cp_ok P cp \<Longrightarrow> tag \<in> fmi_tags \<Longrightarrow> cp_ok (insert (unat i) P) (cp\<lparr> cp_tags := (cp_tags cp)[unat i := tag] \<rparr>)"
  by (auto simp: cp_ok_def nth_update)

lemma set_entry_length [simp]: "length (cp_tags (set_entry i tag info cp)) = length (cp_tags cp)"
  by (simp add: set_entry_def)

definition fwd_indices :: "ForwardReferences \<Rightarrow> u2 list" where
  "fwd_indices fwd = map fst (fwd_classes fwd) @ map fst (fwd_strings fwd) @ map fst (fwd_nameandtypes fwd) @
     map fst (fwd_fieldmethints fwd) @ map fst (fwd_methodhandles fwd) @ map fst (fwd_methodtypes fwd) @ map fst (fwd_invokedynamics fwd)"

definition pending :: "ForwardReferences \<Rightarrow> nat set" where
  "pending fwd = unat ` fst ` set (fwd_fieldmethints fwd)"

definition fmi_fwd_ok :: "ForwardReferences \<Rightarrow> bool" where
  "fmi_fwd_ok fwd \<longleftrightarrow> (\<forall>x \<in> set (fwd_fieldmethints fwd). fst (snd x) \<in> fmi_tags)"

definition pass_typed :: "nat \<Rightarrow> pass_state \<Rightarrow> bool" where
  "pass_typed n st = (case st of (idx, cp, fwd) \<Rightarrow> length (cp_tags cp) = n \<and> cp_ok (pending fwd) cp \<and> fmi_fwd_ok fwd \<and>
     (\<forall>i \<in> set (fwd_indices fwd). unat i < n))"

lemma load_entry_typed:
  assumes "pass_typed (unat k) st" "fst st < k"
  shows "reads_ok (length pos - 1) (pass_typed (unat k)) (load_entry v ver k st pos)"
proof -
  obtain idx cp fwd where st: "st = (idx, cp, fwd)" by (cases st)
  have "unat idx < unat k" using assms(2) by (simp add: st word_less_nat_alt)
  then show ?thesis
    using assms(1) unfolding st
    by (intro load_entry_reads)
       (auto simp: pass_typed_def pending_def fwd_indices_def fmi_fwd_ok_def cp_ok_pending [unfolded fmi_tags_def] fmi_tags_def intro!: cp_ok_set)
qed

section \<open>The errors of the descriptor pool\<close>

definition format_error :: "vm_error \<Rightarrow> bool" where
  "format_error e \<longleftrightarrow> (\<exists>m. e = ClassFormatError m)"

definition error_or_assert :: "vm_error \<Rightarrow> bool" where
  "error_or_assert e \<longleftrightarrow> format_error e \<or> e = Assertion_failed"

lemma format_error_simps [simp]: "format_error (ClassFormatError m)" "\<not> format_error Assertion_failed" "\<not> format_error (Vm_abort m)"
  by (simp_all add: format_error_def)

lemma throw_error_ends [simp]: "ends format_error Q (throw_error dt m)"
  by (simp add: throw_error_def)

lemma skip_classname_ends [simp]: "ends format_error (\<lambda>_. True) (skip_classname dt pos)"
proof (induction pos)
  case (Cons c pos)
  then show ?case by (auto elim!: ends_mono)
qed simp

lemma skip_brackets_ends [simp]: "ends format_error (\<lambda>_. True) (skip_brackets dt pos n)"
  by (induction pos arbitrary: n) simp_all

lemma parse_classname_ends [simp]: "ends format_error (\<lambda>_. True) (parse_classname dt pos)"
  unfolding parse_classname_def ends_rbind
  by (rule ends_mono [OF skip_classname_ends]) (auto split: option.split)

lemma ends_T: "ends E (\<lambda>_. True) m \<Longrightarrow> (\<And>x. Q x) \<Longrightarrow> ends E Q m"
  by (erule ends_mono) simp_all

lemma parse_arraytype_ends [simp]: "ends format_error (\<lambda>_. True) (parse_arraytype dt pos)"
  unfolding parse_arraytype_def ends_rbind Let_def
  by (rule ends_T [OF skip_brackets_ends]) (auto split: option.split intro!: ends_T [OF skip_classname_ends])

lemma parse_type_char_ends: "ends format_error (\<lambda>_. True) (parse_type_char flags dt c pos)"
  unfolding parse_type_char_def
  by (auto split: option.split intro!: ends_T [OF parse_classname_ends] ends_T [OF parse_arraytype_ends])

lemma parse_type_raw_ends: "ends format_error (\<lambda>_. True) (parse_type_raw flags dt pos)"
  unfolding parse_type_raw_def by (cases pos) (auto intro!: ends_T [OF parse_type_char_ends])

lemma raw_error: "parse_type_raw flags dt pos = Inl e \<Longrightarrow> format_error e"
  using parse_type_raw_ends [of flags dt pos] by simp

lemma rbind_Inl: "rbind m f = Inl e \<longleftrightarrow> m = Inl e \<or> (\<exists>x. m = Inr x \<and> f x = Inl e)"
  by (cases m) auto

lemma add_class_error: "add_class name pool = (pool', Inl e) \<Longrightarrow> format_error e"
  by (auto simp: add_class_def split: option.splits if_splits)

lemma check_type_error: "check_type flags dt pos pool = (pool', Inl e) \<Longrightarrow> format_error e"
  by (auto simp: check_type_def rbind_Inl raw_error split: sum.splits parse_result.splits prod.splits dest: add_class_error)

lemma add_field_error: "add_field d pool = (pool', Inl e) \<Longrightarrow> format_error e"
  by (auto simp: add_field_def check_field_descriptor_def split: option.splits prod.splits sum.splits dest: check_type_error)

lemma check_params_error: "check_params pos pool n = (pool', Inl e) \<Longrightarrow> format_error e"
proof (induction pos pool n rule: check_params.induct)
  case (1 pos pool n)
  show ?case
    using 1 unfolding check_params.simps [of pos pool n]
    by (auto simp: check_param_descriptor_def split: prod.splits bool.splits sum.splits dest: check_type_error)
qed

lemma start_param_list_error: "start_param_list d = Inl e \<Longrightarrow> format_error e"
  by (auto simp: start_param_list_def throw_error_def split: list.splits if_splits)

lemma add_method_error: "add_method d pool = (pool', Inl e) \<Longrightarrow> format_error e"
  by (auto simp: add_method_def check_return_descriptor_def split: sum.splits prod.splits if_splits
      dest: start_param_list_error check_params_error check_type_error)

lemma parse_typedesc_error: "parse_typedesc flags dt pos pool = (pool', Inl e) \<Longrightarrow> error_or_assert e"
  by (auto simp: parse_typedesc_def rbind_Inl raw_error error_or_assert_def lookup_classref_def
      split: sum.splits parse_result.splits prod.splits option.splits if_splits)

lemma parse_params_error: "parse_params pos pool n tds = (pool', Inl e) \<Longrightarrow> error_or_assert e"
proof (induction pos pool n tds rule: parse_params.induct)
  case (1 pos pool n tds)
  show ?case
    using 1 unfolding parse_params.simps [of pos pool n tds]
    by (auto split: prod.splits bool.splits sum.splits dest: parse_typedesc_error)
qed

lemma parse_method_error: "parse_method_descriptor d mflags this pool = (pool', Inl e) \<Longrightarrow> error_or_assert e"
  by (auto simp: parse_method_descriptor_def Let_def error_or_assert_def [of Assertion_failed] error_or_assert_def [of "ClassFormatError _"]
      split: sum.splits prod.splits if_splits list.splits
      dest: start_param_list_error [THEN error_or_assert_def [THEN iffD2, OF disjI1]] parse_params_error parse_typedesc_error)

lemma parse_field_error: "parse_field_descriptor d pool = (pool', Inl e) \<Longrightarrow> error_or_assert e"
  by (auto simp: parse_field_descriptor_def error_or_assert_def [of Assertion_failed]
      split: sum.splits prod.splits if_splits option.splits dest: parse_typedesc_error)

section \<open>Loading gives typed entries\<close>

definition regular :: "vm_error \<Rightarrow> bool" where
  "regular e \<longleftrightarrow> e \<noteq> read_past_end \<and> e \<noteq> type_confusion"

lemma regular_simps [simp]: "regular (ClassFormatError m)" "regular Assertion_failed" "regular null_deref" "regular no_exception"
  "regular (InternalError m)" "regular (Vm_abort ''no reserved parameter slot'')"
  by (simp_all add: regular_def read_past_end_def type_confusion_def null_deref_def no_exception_def)

lemma regular_error: "error_or_assert e \<Longrightarrow> regular e" "format_error e \<Longrightarrow> regular e"
  by (auto simp: error_or_assert_def format_error_def)

lemmas pool_errors = add_class_error [THEN regular_error(2)] add_field_error [THEN regular_error(2)] add_method_error [THEN regular_error(2)]
  parse_method_error [THEN regular_error(1)] parse_field_error [THEN regular_error(1)]

lemma class_getconstant_Inr:
  "class_getconstant cp i tag = Inr info \<longleftrightarrow> unat i < length (cp_tags cp) \<and> cp_tags cp ! unat i = tag \<and> cp_infos cp ! unat i = info"
  by (auto simp: class_getconstant_def)

lemma class_getconstant_Inl: "class_getconstant cp i tag = Inl e \<Longrightarrow> format_error e"
  by (auto simp: class_getconstant_def split: if_splits)

lemma getconstant_typed: "cp_ok P cp \<Longrightarrow> class_getconstant cp i tag = Inr info \<Longrightarrow> tag \<in> fmi_tags \<and> unat i \<in> P \<or> entry_ok tag info"
  by (auto simp: class_getconstant_Inr cp_ok_def)

lemma getconstant_ends:
  "cp_ok P cp \<Longrightarrow> tag \<notin> fmi_tags \<or> P = {} \<Longrightarrow>
    ends format_error (\<lambda>info. class_getconstant cp i tag = Inr info \<and> entry_ok tag info) (class_getconstant cp i tag)"
  by (cases "class_getconstant cp i tag") (auto dest: class_getconstant_Inl getconstant_typed)

lemma get_utf8_ends:
  assumes "cp_ok P cp" "tag = CONSTANT_Utf8 \<or> tag = CONSTANT_ClassName"
  shows "ends regular (\<lambda>u. class_getconstant cp i tag = Inr (I_utf8 u)) (get_utf8 cp i tag)"
  unfolding get_utf8_def ends_rbind
  by (rule ends_mono [OF getconstant_ends [OF assms(1)]]) (use assms(2) in \<open>auto simp: fmi_tags_def regular_error split: cp_info.splits\<close>)

lemma get_nameandtype_ends:
  assumes "cp_ok P cp"
  shows "ends regular (\<lambda>(n, d). class_getconstant cp i CONSTANT_NameAndType = Inr (I_nameandtype n d)) (get_nameandtype cp i)"
  unfolding get_nameandtype_def ends_rbind
  by (rule ends_mono [OF getconstant_ends [OF assms]]) (auto simp: fmi_tags_def regular_error split: cp_info.splits)

lemma get_classref_ends:
  assumes "cp_ok P cp"
  shows "ends regular (\<lambda>r. class_getconstant cp i CONSTANT_Class = Inr (I_classref r)) (get_classref cp i)"
  unfolding get_classref_def ends_rbind
  by (rule ends_mono [OF getconstant_ends [OF assms]]) (auto simp: fmi_tags_def regular_error split: cp_info.splits)

lemma get_fmiref_ends:
  assumes "cp_ok {} cp" "tag \<in> fmi_tags"
  shows "ends format_error (\<lambda>fmi. entry_ok tag (I_fmiref fmi)) (get_fmiref cp i tag)"
  unfolding get_fmiref_def ends_rbind
  by (rule ends_mono [OF getconstant_ends [OF assms(1)]]) (use assms(2) in \<open>auto simp: fmi_tags_def regular_error split: cp_info.splits\<close>)

lemma not_checked_ends: "ends regular Q m \<Longrightarrow> regular e \<Longrightarrow> ends regular Q (not_checked m e)"
  by (cases m) (auto simp: not_checked_def regular_def)

definition typed :: "nat set \<Rightarrow> nat \<Rightarrow> cpool \<times> DescriptorPool \<Rightarrow> bool" where
  "typed P n s \<longleftrightarrow> cp_ok P (fst s) \<and> length (cp_tags (fst s)) = n"

lemma typed_set: "typed P n (cp, pool) \<Longrightarrow> entry_ok tag info \<Longrightarrow> typed P n (set_entry i tag info cp, pool')"
  by (simp add: typed_def cp_ok_set)

lemma on_pool_ends:
  "(\<And>pool' e. r = (pool', Inl e) \<Longrightarrow> E e) \<Longrightarrow> (\<And>pool' x. r = (pool', Inr x) \<Longrightarrow> Q (pool', x)) \<Longrightarrow> ends E Q (on_pool r)"
  by (cases r; cases "snd r") (auto simp: on_pool_def)

lemma resolve_class_typed: "typed P n s \<Longrightarrow> ends regular (typed P n) (resolve_class v x s)"
proof -
  assume "typed P n s"
  moreover obtain cp pool i j where [simp]: "s = (cp, pool)" "x = (i, j)" by (cases s; cases x)
  ultimately have t: "typed P n (cp, pool)" "cp_ok P cp" by (simp_all add: typed_def)
  show ?thesis
    using t(1) unfolding \<open>s = _\<close> \<open>x = _\<close> resolve_class_def prod.case ends_rbind
    by (intro ends_mono [OF get_utf8_ends [OF t(2)]])
       (auto intro!: on_pool_ends typed_set dest: pool_errors)
qed

lemma resolve_string_typed: "typed P n s \<Longrightarrow> ends regular (typed P n) (resolve_string x s)"
proof -
  assume "typed P n s"
  moreover obtain cp pool i j where [simp]: "s = (cp, pool)" "x = (i, j)" by (cases s; cases x)
  ultimately have t: "typed P n (cp, pool)" "cp_ok P cp" by (simp_all add: typed_def)
  show ?thesis
    using t(1) unfolding \<open>s = _\<close> \<open>x = _\<close> resolve_string_def prod.case ends_rbind
    by (intro ends_mono [OF get_utf8_ends [OF t(2)]]) (auto intro!: typed_set)
qed

lemma resolve_nameandtype_typed: "typed P n s \<Longrightarrow> ends regular (typed P n) (resolve_nameandtype v x s)"
proof -
  assume "typed P n s"
  moreover obtain cp pool i j k where [simp]: "s = (cp, pool)" "x = (i, j, k)" by (cases s; cases x)
  ultimately have t: "typed P n (cp, pool)" "cp_ok P cp" by (simp_all add: typed_def)
  show ?thesis
    using t(1) unfolding \<open>s = _\<close> \<open>x = _\<close> resolve_nameandtype_def prod.case ends_rbind
    by (intro ends_mono [OF get_utf8_ends [OF t(2)]]) (auto intro!: typed_set)
qed

lemma resolve_fieldmethint_typed: "typed P n s \<Longrightarrow> ends regular (typed P n) (resolve_fieldmethint x s)"
proof -
  assume "typed P n s"
  moreover obtain cp pool i t j k where [simp]: "s = (cp, pool)" "x = (i, t, j, k)" by (cases s; cases x)
  ultimately have t: "cp_ok P cp" "length (cp_tags cp) = n" by (simp_all add: typed_def)
  show ?thesis
    unfolding \<open>s = _\<close> \<open>x = _\<close> resolve_fieldmethint_def prod.case ends_rbind
    by (intro ends_mono [OF get_nameandtype_ends [OF t(1)]])
       (auto simp: typed_def t intro!: on_pool_ends dest: pool_errors)
qed

lemma resolve_methodtype_typed: "typed P n s \<Longrightarrow> ends regular (typed P n) (resolve_methodtype x s)"
  by (cases s; cases x)
     (auto simp: resolve_methodtype_def typed_def split: sum.split cp_info.split intro!: on_pool_ends dest: pool_errors)

text \<open>Each loop over forward references keeps the entries typed.\<close>

lemma for_each_typed:
  "(\<And>x s. typed P n s \<Longrightarrow> ends regular (typed P n) (f x s)) \<Longrightarrow> typed P n s \<Longrightarrow> ends regular (typed P n) (for_each f xs s)"
  by (rule for_each_ends [where I = "\<lambda>_. typed P n"])

lemma resolve_entries_typed: "typed P n s \<Longrightarrow> ends regular (typed P n) (resolve_entries v fwd s)"
  unfolding resolve_entries_def ends_rbind
  by (intro ends_mono [OF for_each_typed [OF resolve_class_typed]] ends_mono [OF for_each_typed [OF resolve_string_typed]]
      ends_mono [OF for_each_typed [OF resolve_nameandtype_typed]] ends_mono [OF for_each_typed [OF resolve_fieldmethint_typed]]
      ends_mono [OF for_each_typed [OF resolve_methodtype_typed]])

definition loaded :: "(cpool \<times> DescriptorPool \<times> ForwardReferences) \<times> u1 list \<Rightarrow> bool" where
  "loaded r = (case r of ((cp, pool, fwd), rest) \<Rightarrow> cp_ok (pending fwd) cp \<and> fmi_fwd_ok fwd \<and>
     (\<forall>i \<in> set (fwd_indices fwd). unat i < length (cp_tags cp)))"

lemma first_pass_typed: "ends regular (\<lambda>r. pass_typed (unat k) (fst r)) (first_pass v ver k (1, empty_cpool k, no_forward) pos)"
proof -
  have "pass_typed (unat k) (1, empty_cpool k, no_forward)"
    by (simp add: pass_typed_def cp_ok_def no_forward_def pending_def fwd_indices_def fmi_fwd_ok_def empty_cpool_def)
  then have "reads_ok (length pos) (\<lambda>st. pass_typed (unat k) st \<and> \<not> fst st < k) (first_pass v ver k (1, empty_cpool k, no_forward) pos)"
    using first_pass_reads [where Inv = "pass_typed (unat k)" and k = k, OF load_entry_typed] by blast
  then show ?thesis by (cases "first_pass v ver k (1, empty_cpool k, no_forward) pos") (auto simp: reads_ok_def)
qed

lemma load_constantpool_typed: "ends regular loaded (load_constantpool v ver pool pos)"
proof (cases "2 \<le> length pos")
  case False
  then show ?thesis by (simp add: load_constantpool_def check_size_def)
next
  case True
  then obtain k rest where k: "read_u2 pos = Inr (k, rest)" using read_enough(2) by (metis old.sum.exhaust surj_pair)
  have "ends regular (\<lambda>s. loaded ((fst s, snd s, fwd), rest')) (resolve_entries v fwd (cp, pool))"
    if "pass_typed (unat k) (idx, cp, fwd)" for idx cp fwd rest'
  proof -
    have "typed (pending fwd) (unat k) (cp, pool)" using that by (simp add: pass_typed_def typed_def)
    then show ?thesis
      by (rule ends_mono [OF resolve_entries_typed]) (use that in \<open>auto simp: pass_typed_def typed_def loaded_def\<close>)
  qed
  then show ?thesis
    unfolding load_constantpool_def using True k
    by (auto simp: check_size_def case_prod_beta intro!: ends_mono [OF first_pass_typed])
qed

section \<open>Completing keeps the entries typed\<close>

lemma link_class_typed: "typed P n s \<Longrightarrow> ends regular (typed P n) (link_class x s)"
proof -
  assume "typed P n s"
  moreover obtain cp pool i j where [simp]: "s = (cp, pool)" "x = (i, j)" by (cases s; cases x)
  ultimately have t: "typed P n (cp, pool)" "cp_ok P cp" by (simp_all add: typed_def)
  show ?thesis
    using t(1) unfolding \<open>s = _\<close> \<open>x = _\<close> link_class_def prod.case ends_rbind
    by (intro ends_mono [OF not_checked_ends [OF get_utf8_ends [OF t(2)]]])
       (auto simp: lookup_classref_def split: option.split if_splits intro!: on_pool_ends typed_set)
qed

lemma parse_method_or_null_ends: "(\<And>pool' r. Q (pool', r)) \<Longrightarrow> ends regular Q (parse_method_or_null d mflags this pool)"
  by (cases "parse_method_descriptor d mflags this pool")
     (auto simp: parse_method_or_null_def split: sum.split vm_error.split dest: pool_errors)

lemma link_methodtype_typed: "typed P n s \<Longrightarrow> ends regular (typed P n) (link_methodtype x s)"
proof -
  assume "typed P n s"
  moreover obtain cp pool i j where [simp]: "s = (cp, pool)" "x = (i, j)" by (cases s; cases x)
  ultimately have t: "typed P n (cp, pool)" "cp_ok P cp" by (simp_all add: typed_def)
  show ?thesis
    using t(1) unfolding \<open>s = _\<close> \<open>x = _\<close> link_methodtype_def prod.case ends_rbind
    by (intro ends_mono [OF not_checked_ends [OF get_utf8_ends [OF t(2)]]]) (auto intro!: parse_method_or_null_ends typed_set)
qed

lemma link_invokedynamic_typed: "typed P n s \<Longrightarrow> ends regular (typed P n) (link_invokedynamic x s)"
proof -
  assume "typed P n s"
  moreover obtain cp pool i j k where [simp]: "s = (cp, pool)" "x = (i, j, k)" by (cases s; cases x)
  ultimately have t: "typed P n (cp, pool)" "cp_ok P cp" by (simp_all add: typed_def)
  have "ends regular (\<lambda>md. typed P n (set_entry i CONSTANT_InvokeDynamic (I_invokedynamic b name desc md) cp, pool')) (params_from_paramtypes m md)"
    for b name desc md pool' m
    using t(1) by (auto simp: params_from_paramtypes_def Let_def split: option.split intro!: typed_set)
  then show ?thesis
    unfolding \<open>s = _\<close> \<open>x = _\<close> link_invokedynamic_def prod.case ends_rbind
    by (intro ends_mono [OF not_checked_ends [OF get_nameandtype_ends [OF t(2)]]])
       (auto intro!: parse_method_or_null_ends split: option.split)
qed

lemma parse_reference_ends:
  "ends regular (\<lambda>(pool, parsed). isl parsed = (tag = CONSTANT_Fieldref)) (parse_reference tag d r pool)"
  by (auto simp: parse_reference_def intro!: on_pool_ends dest: pool_errors)

lemma link_fieldmethint_typed:
  assumes "typed (insert (unat i) P) n (cp, pool)" "tag \<in> fmi_tags"
  shows "ends regular (typed P n) (link_fieldmethint (i, tag, j, k) (cp, pool))"
proof -
  have t: "cp_ok (insert (unat i) P) cp" using assms(1) by (simp add: typed_def)
  have set: "typed P n (set_entry i tag (I_fmiref f) cp, pool')" if "isl (fmi_parseddesc f) = (tag = CONSTANT_Fieldref)" for f pool'
    using assms that by (auto simp: typed_def fmi_tags_def intro!: cp_ok_done)
  show ?thesis
    unfolding link_fieldmethint_def prod.case ends_rbind
    by (intro ends_mono [OF not_checked_ends [OF get_nameandtype_ends [OF t]]])
       (use set in \<open>auto intro!: ends_mono [OF get_classref_ends [OF t]] ends_mono [OF parse_reference_ends]\<close>)
qed

lemma handle_target_ends:
  "cp_ok {} cp \<Longrightarrow> ends format_error (\<lambda>fmi. entry_ok CONSTANT_MethodHandle (I_methodhandle kind fmi)) (handle_target kind i cp)"
  unfolding handle_target_def
  by (cases kind) (auto intro!: ends_mono [OF get_fmiref_ends] simp: fmi_tags_def)

lemma link_methodhandle_typed: "typed {} n s \<Longrightarrow> ends regular (typed {} n) (link_methodhandle x s)"
proof -
  assume "typed {} n s"
  moreover obtain cp pool i j k where [simp]: "s = (cp, pool)" "x = (i, j, k)" by (cases s; cases x)
  ultimately have t: "typed {} n (cp, pool)" "cp_ok {} cp" by (simp_all add: typed_def)
  show ?thesis
    using t(1) unfolding \<open>s = _\<close> \<open>x = _\<close> link_methodhandle_def prod.case
    by (cases "kind_of_u1 j") (auto intro!: ends_mono [OF handle_target_ends [OF t(2)]] typed_set simp: regular_error simp del: entry_ok.simps)
qed

lemma link_classes_and_types_typed: "typed P n s \<Longrightarrow> ends regular (typed P n) (link_classes_and_types fwd s)"
  unfolding link_classes_and_types_def ends_rbind
  by (intro ends_mono [OF for_each_typed [OF link_class_typed]] ends_mono [OF for_each_typed [OF link_methodtype_typed]]
      ends_mono [OF for_each_typed [OF link_invokedynamic_typed]])

lemma link_references_typed:
  assumes "typed (pending fwd) n s" "fmi_fwd_ok fwd"
  shows "ends regular (typed {} n) (link_references fwd s)"
proof -
  let ?I = "\<lambda>(xs :: (u2 \<times> ConstantPoolTag \<times> u2 \<times> u2) list) s. typed (unat ` fst ` set xs) n s \<and> (\<forall>x \<in> set xs. fst (snd x) \<in> fmi_tags)"
  have "ends regular (?I []) (for_each link_fieldmethint (fwd_fieldmethints fwd) s)"
  proof (rule for_each_ends)
    fix x xs s
    assume I: "?I (x # xs) s"
    obtain i tag j k cp pool where [simp]: "x = (i, tag, j, k)" "s = (cp, pool)" by (cases x; cases s)
    have "ends regular (typed (unat ` fst ` set xs) n) (link_fieldmethint (i, tag, j, k) (cp, pool))"
      using I by (intro link_fieldmethint_typed) simp_all
    then show "ends regular (?I xs) (link_fieldmethint x s)"
      using I by (auto elim!: ends_mono)
  qed (use assms in \<open>simp_all add: pending_def fmi_fwd_ok_def\<close>)
  then show ?thesis
    unfolding link_references_def ends_rbind
    by (rule ends_mono) (use for_each_typed [OF link_methodhandle_typed] in auto)
qed

lemma cp_ok_final: "cp_ok {} cp \<Longrightarrow> list_all2 entry_ok (cp_tags cp) (cp_infos cp)"
  by (auto simp: cp_ok_def list_all2_conv_all_nth)

text \<open>\<^bold>\<open>C39.\<close> Typing of the constant pool. For every class file, \<open>load_constantpool\<close> never reads
  beyond the end of the file; all the entries it postpones lie inside the constant pool; no entry is ever used as a structure of a
  different type, neither while loading nor while the entries are completed (with whatever descriptor pool);
  and when the class is loaded every entry holds the structure that belongs to its tag (a method reference has a
  parsed method descriptor, a method handle of a field kind a field reference, and so on), even if the index wrapped around.\<close>

theorem constantpool_typed:
  "ends regular (\<lambda>((cp, descpool, fwd), rest).
       set (map unat (fwd_indices fwd)) \<subseteq> {..<length (cp_tags cp)} \<and>
       (\<forall>pool. ends regular (\<lambda>(cp, _). \<forall>pool. ends regular (\<lambda>(cp, _). list_all2 entry_ok (cp_tags cp) (cp_infos cp))
           (link_references fwd (cp, pool)))
         (link_classes_and_types fwd (cp, pool))))
     (load_constantpool opt_verify version descpool bytes)"
  by (rule ends_mono [OF load_constantpool_typed])
     (auto simp: loaded_def typed_def cp_ok_final intro!: ends_mono [OF link_classes_and_types_typed] ends_mono [OF link_references_typed])

text \<open>A class file with a class, a field reference and a method handle for reading the field.\<close>

definition example_pool :: "u1 list" where
  "example_pool = [0, 8, 1, 0, 1, 0x41, 7, 0, 1, 1, 0, 1, 0x66, 1, 0, 1, 0x49, 12, 0, 3, 0, 4, 9, 0, 2, 0, 5, 15, 1, 0, 6]"

definition example_run :: "(cpool \<times> DescriptorPool) result" where
  "example_run = rbind (load_constantpool True JDK_7 DescriptorPool_new example_pool) (\<lambda>((cp, pool, fwd), rest).
     rbind (link_classes_and_types fwd (cp, prepare pool)) (link_references fwd))"

theorem constantpool_typed_witness:
  "\<exists>cp pool. example_run = Inr (cp, pool) \<and> list_all2 entry_ok (cp_tags cp) (cp_infos cp) \<and> cp_tags cp ! 7 = CONSTANT_MethodHandle"
proof -
  have "\<not> isl example_run \<and> cp_tags (fst (projr example_run)) ! 7 = CONSTANT_MethodHandle" by code_simp
  then obtain cp pool where run: "example_run = Inr (cp, pool)" "cp_tags cp ! 7 = CONSTANT_MethodHandle"
    by (metis fst_conv surj_pair sum.collapse(2))
  have "ends regular (\<lambda>(cp, _). list_all2 entry_ok (cp_tags cp) (cp_infos cp)) example_run"
    unfolding example_run_def ends_rbind
    by (rule ends_mono [OF constantpool_typed], simp, clarsimp, drule spec, erule ends_mono, auto)
  then show ?thesis using run(2) unfolding run(1) by simp
qed

section \<open>Where the code fails\<close>

text \<open>A two-word entry at index 65534 of a pool with 65535 entries: the index wraps around to 0 and the test for the end of the
  pool passes.\<close>

lemma long_at_end_wraps:
  "\<exists>x. load_entry v ver 65535 (65534, cp, fwd) (5 # b0 # b1 # b2 # b3 # b4 # b5 # b6 # b7 # rest) =
    Inr ((0, set_entry 65534 CONSTANT_Long (I_long x) cp, fwd), rest)"
  by (simp add: load_entry_def reads tag_of_u1_def load_two_word_def Let_def) blast

text \<open>A method type whose descriptor is missing.\<close>

lemma methodtype_not_checked:
  "class_getconstant cp d CONSTANT_Utf8 = Inl e \<Longrightarrow> resolve_methodtype (i, d) (cp, pool) = Inl Assertion_failed"
  by (simp add: resolve_methodtype_def)

text \<open>A class with a field reference and an \<open>invokedynamic\<close> call site: more memory is handed out than was allocated.\<close>

definition invokedynamic_pool :: "u1 list" where
  "invokedynamic_pool = [0, 10, 1, 0, 1, 0x41, 7, 0, 1, 1, 0, 1, 0x66, 1, 0, 1, 0x49, 12, 0, 3, 0, 4, 9, 0, 2, 0, 5,
     1, 0, 4, 0x28, 0x49, 0x29, 0x56, 12, 0, 3, 0, 7, 18, 0, 0, 0, 8]"

lemma invokedynamic_overflows:
  "case rbind (load_constantpool True JDK_7 DescriptorPool_new invokedynamic_pool) (\<lambda>((cp, pool, fwd), rest).
       link_classes_and_types fwd (cp, prepare pool)) of
     Inl e \<Rightarrow> False
   | Inr (cp, pool) \<Rightarrow> dp_descriptors_next pool > dp_descriptorsize pool"
  by code_simp

end
