(* ===== verification/ConstantPoolLink.thy ===== *)
theory ConstantPoolLink
  imports ConstantPoolProps
begin

text \<open>
  A constant pool that was loaded can be completed: the entries that refer to others find what they refer to, and
  the descriptor pool has room for every descriptor. This composes the constant pool with the descriptor pool,
  across the loading of fields and methods, which add descriptors of their own.
\<close>

section \<open>What the loops write\<close>

text \<open>Only entries at the indices \<open>A\<close> differ.\<close>

definition frame :: "u2 set \<Rightarrow> cpool \<Rightarrow> cpool \<Rightarrow> bool" where
  "frame A cp cp' \<longleftrightarrow> length (cp_tags cp') = length (cp_tags cp) \<and>
     (\<forall>i. i \<notin> A \<longrightarrow> cp_tags cp' ! unat i = cp_tags cp ! unat i \<and> cp_infos cp' ! unat i = cp_infos cp ! unat i)"

lemma frame_refl [simp]: "frame A cp cp"
  by (simp add: frame_def)

lemma frame_trans: "frame A p q \<Longrightarrow> frame B q r \<Longrightarrow> frame (A \<union> B) p r"
  by (simp add: frame_def)

lemma frame_mono: "frame A p q \<Longrightarrow> A \<subseteq> B \<Longrightarrow> frame B p q"
  unfolding frame_def by blast

lemma frame_set: "frame {i} cp (set_entry i tag info cp)"
  by (simp add: frame_def set_entry_def word_unat_eq_iff)

lemma set_entry_other: "j \<noteq> i \<Longrightarrow> cp_tags (set_entry i tag info cp) ! unat j = cp_tags cp ! unat j"
  by (simp add: set_entry_def word_unat_eq_iff)

lemma frame_tag: "frame A cp cp' \<Longrightarrow> i \<notin> A \<Longrightarrow> cp_tags cp' ! unat i = cp_tags cp ! unat i"
  by (simp add: frame_def)

lemma disjoint_image: "A \<inter> fst ` B = {} \<Longrightarrow> x \<in> B \<Longrightarrow> fst x \<notin> A"
  by blast

lemma frame_getconstant: "frame A cp cp' \<Longrightarrow> i \<notin> A \<Longrightarrow> class_getconstant cp' i tag = class_getconstant cp i tag"
  by (simp add: frame_def class_getconstant_def)

lemma for_each_frame:
  assumes "\<And>x s s'. f x s = Inr s' \<Longrightarrow> frame {fst x} (fst s) (fst s')"
  shows "for_each f xs s = Inr s' \<Longrightarrow> frame (fst ` set xs) (fst s) (fst s')"
proof (induction xs arbitrary: s)
  case (Cons x xs)
  then obtain s1 where s1: "f x s = Inr s1" "for_each f xs s1 = Inr s'" by (auto simp: rbind_Inr)
  show ?case using frame_trans [OF assms [OF s1(1)] Cons.IH [OF s1(2)]] by simp
qed simp

lemma resolve_class_frame: "resolve_class v x s = Inr s' \<Longrightarrow> frame {fst x} (fst s) (fst s')"
  by (auto simp: resolve_class_def rbind_Inr frame_set split: prod.splits if_splits)

lemma resolve_string_frame: "resolve_string x s = Inr s' \<Longrightarrow> frame {fst x} (fst s) (fst s')"
  by (auto simp: resolve_string_def rbind_Inr frame_set split: prod.splits)

lemma resolve_nameandtype_frame: "resolve_nameandtype v x s = Inr s' \<Longrightarrow> frame {fst x} (fst s) (fst s')"
  by (auto simp: resolve_nameandtype_def rbind_Inr frame_set split: prod.splits if_splits)

lemma resolve_fieldmethint_same: "resolve_fieldmethint x s = Inr s' \<Longrightarrow> fst s' = fst s"
  by (auto simp: resolve_fieldmethint_def rbind_Inr split: prod.splits if_splits)

lemma resolve_methodtype_same: "resolve_methodtype x s = Inr s' \<Longrightarrow> fst s' = fst s"
  by (auto simp: resolve_methodtype_def rbind_Inr split: prod.splits sum.splits cp_info.splits)

section \<open>The first pass without wrap-around\<close>

text \<open>Entries that are filled in later, other than references.\<close>

definition unset_indices :: "ForwardReferences \<Rightarrow> u2 set" where
  "unset_indices fwd = fst ` set (fwd_classes fwd) \<union> fst ` set (fwd_strings fwd) \<union> fst ` set (fwd_nameandtypes fwd) \<union>
     fst ` set (fwd_methodhandles fwd) \<union> fst ` set (fwd_methodtypes fwd) \<union> fst ` set (fwd_invokedynamics fwd)"

definition unset_ok :: "nat \<Rightarrow> nat \<Rightarrow> ConstantPoolTag list \<Rightarrow> ForwardReferences \<Rightarrow> bool" where
  "unset_ok n m tags fwd \<longleftrightarrow> (\<forall>i \<in> unset_indices fwd. tags ! unat i = CONSTANT_UNUSED) \<and> (\<forall>j. m \<le> j \<and> j < n \<longrightarrow> tags ! j = CONSTANT_UNUSED) \<and>
     (\<forall>x \<in> set (fwd_fieldmethints fwd). fst (snd x) \<in> fmi_tags \<and> tags ! unat (fst x) \<in> fmi_tags)"

definition pass_sep :: "nat \<Rightarrow> pass_state \<Rightarrow> bool" where
  "pass_sep n st = (case st of (idx, cp, fwd) \<Rightarrow> length (cp_tags cp) = n \<and> unat idx \<le> n \<and> distinct (fwd_indices fwd) \<and>
     (\<forall>i \<in> set (fwd_indices fwd). unat i < unat idx) \<and> unset_ok n (unat idx) (cp_tags cp) fwd \<and> CONSTANT_Class \<notin> set (cp_tags cp))"

lemma unat_next: "unat (idx :: u2) < n \<Longrightarrow> n < 65535 \<Longrightarrow> unat (idx + 1) = unat idx + 1 \<and> unat (idx + 2) = unat idx + 2"
  by (simp add: unat_word_ariths)

lemma indices_subset: "unset_indices fwd \<subseteq> set (fwd_indices fwd)" "fst ` set (fwd_fieldmethints fwd) \<subseteq> set (fwd_indices fwd)"
  by (auto simp: unset_indices_def fwd_indices_def)

lemma pass_sep_unset:
  assumes sep: "pass_sep n (idx, cp, fwd)" and n: "unat idx < n" "n < 65535"
    and fwd: "distinct (fwd_indices fwd) \<Longrightarrow> idx \<notin> set (fwd_indices fwd) \<Longrightarrow> distinct (fwd_indices fwd')"
    "set (fwd_indices fwd') = insert idx (set (fwd_indices fwd))" "unset_indices fwd' = insert idx (unset_indices fwd)"
    "fwd_fieldmethints fwd' = fwd_fieldmethints fwd"
  shows "pass_sep n (idx + 1, cp, fwd')"
proof -
  have ok: "unset_ok n (unat idx) (cp_tags cp) fwd" using sep by (simp add: pass_sep_def)
  have "unset_ok n (unat idx + 1) (cp_tags cp) fwd'"
    using ok n(1) unfolding unset_ok_def fwd(3,4) by simp
  moreover have "idx \<notin> set (fwd_indices fwd)" using sep by (auto simp: pass_sep_def)
  ultimately show ?thesis
    using sep n(1) fwd(1) unat_next [OF n] unfolding pass_sep_def prod.case fwd(2) by (simp add: less_SucI)
qed

text \<open>Writing the tag at \<open>idx\<close> does not disturb the postponed entries.\<close>

lemma unset_ok_write:
  assumes "unset_ok n m tags fwd" "\<forall>i \<in> set (fwd_indices fwd). unat i < m" "m < m'"
  shows "unset_ok n m' (tags[m := tag]) fwd"
proof -
  have "tags[m := tag] ! unat i = tags ! unat i" if "i \<in> set (fwd_indices fwd)" for i using that assms(2) by auto
  then show ?thesis
    using assms(1,3) indices_subset [of fwd] unfolding unset_ok_def by (simp add: subset_iff)
qed

lemma no_class_write: "CONSTANT_Class \<notin> set tags \<Longrightarrow> tag \<noteq> CONSTANT_Class \<Longrightarrow> CONSTANT_Class \<notin> set (tags[m := tag])"
  using set_update_subset_insert [of tags m tag] by auto

lemma pass_sep_fmi:
  assumes sep: "pass_sep n (idx, cp, fwd)" and n: "unat idx < n" "n < 65535" and tag: "tag \<in> fmi_tags"
  shows "pass_sep n (idx + 1, cp\<lparr> cp_tags := (cp_tags cp)[unat idx := tag] \<rparr>,
    fwd\<lparr> fwd_fieldmethints := fwd_fieldmethints fwd @ [(idx, tag, x)] \<rparr>)" (is "pass_sep n (_, ?cp, ?fwd)")
proof -
  have "unset_ok n (unat idx + 1) ((cp_tags cp)[unat idx := tag]) fwd"
    using sep by (intro unset_ok_write) (auto simp: pass_sep_def)
  then have "unset_ok n (unat idx + 1) (cp_tags ?cp) ?fwd"
    using tag sep n(1) by (simp add: unset_ok_def unset_indices_def pass_sep_def)
  moreover have "CONSTANT_Class \<notin> set (cp_tags ?cp)" using sep tag no_class_write [of "cp_tags cp" tag] by (auto simp: pass_sep_def fmi_tags_def)
  moreover have "idx \<notin> set (fwd_indices fwd)" using sep by (auto simp: pass_sep_def)
  then have "distinct (fwd_indices fwd) \<Longrightarrow> distinct (fwd_indices ?fwd)" "set (fwd_indices ?fwd) = insert idx (set (fwd_indices fwd))"
    by (auto simp: fwd_indices_def)
  ultimately show ?thesis
    using sep n(1) unat_next [OF n] by (simp add: pass_sep_def less_SucI)
qed

lemma pass_sep_set:
  assumes sep: "pass_sep n (idx, cp, fwd)" and n: "unat idx < n" "n < 65535" and idx': "idx' = idx + 1 \<or> idx' = idx + 2" "unat idx' \<le> n"
    and tag: "tag \<noteq> CONSTANT_Class"
  shows "pass_sep n (idx', set_entry idx tag info cp, fwd)"
proof -
  have less: "unat idx < unat idx'" using unat_next [OF n] idx'(1) by auto
  then have "unset_ok n (unat idx') ((cp_tags cp)[unat idx := tag]) fwd"
    using sep by (intro unset_ok_write) (auto simp: pass_sep_def)
  moreover have "CONSTANT_Class \<notin> set ((cp_tags cp)[unat idx := tag])" using sep tag by (simp add: pass_sep_def no_class_write)
  ultimately show ?thesis
    using sep less idx'(2) by (auto simp: pass_sep_def set_entry_def)
qed

lemma load_entry_sep:
  assumes "pass_sep (unat k) st" "fst st < k" "k < 65535"
  shows "reads_ok (length pos - 1) (pass_sep (unat k)) (load_entry v ver k st pos)"
proof -
  obtain idx cp fwd where st: "st = (idx, cp, fwd)" by (cases st)
  have k: "unat idx < unat k" "unat k < 65535" using assms(2,3) by (simp_all add: st word_less_nat_alt)
  have one: "unat (idx + 1) \<le> unat k" using unat_next [OF k] k by simp
  note sep = assms(1) [unfolded st]
  show ?thesis
    unfolding st
    apply (rule load_entry_reads)
    apply (rule pass_sep_unset [OF sep k]; auto simp: fwd_indices_def unset_indices_def)+
    apply (simp add: pass_sep_fmi [OF sep k] fmi_tags_def)
    apply (rule pass_sep_unset [OF sep k]; auto simp: fwd_indices_def unset_indices_def)+
    apply (rule pass_sep_set [OF sep k]; simp add: one word_le_nat_alt)+
    done
qed

lemma first_pass_sep:
  assumes "first_pass v ver k (1, empty_cpool k, no_forward) pos = Inr (st, rest)" "k \<noteq> 0" "k < 65535"
  shows "pass_sep (unat k) st"
proof -
  have "unat (1 :: u2) \<le> unat k" using assms(2) by (simp add: Suc_le_eq unat_gt_0)
  then have "pass_sep (unat k) (1, empty_cpool k, no_forward)"
    by (simp add: pass_sep_def empty_cpool_def no_forward_def fwd_indices_def unset_ok_def unset_indices_def)
  from first_pass_reads [where Inv = "pass_sep (unat k)" and k = k, OF load_entry_sep this] show ?thesis
    using assms(1,3) unfolding reads_ok_def by blast
qed

section \<open>Resolving finds the classes and descriptors\<close>

lemma getconstant_set:
  "unat i < length (cp_tags cp) \<Longrightarrow> length (cp_infos cp) = length (cp_tags cp) \<Longrightarrow> class_getconstant (set_entry i tag info cp) i tag = Inr info"
  by (simp add: class_getconstant_Inr set_entry_def)

lemma on_pool_Inr: "on_pool r = Inr (pool, x) \<longleftrightarrow> r = (pool, Inr x)"
  by (cases r) (auto simp: on_pool_def rbind_Inr)

lemma resolve_class_effect:
  assumes "resolve_class v x (cp, pool) = Inr (cp', pool')" "unat (fst x) < length (cp_tags cp)" "length (cp_infos cp) = length (cp_tags cp)"
  obtains name where "class_getconstant cp' (fst x) CONSTANT_ClassName = Inr (I_utf8 name)" "name \<in> known pool'"
    "add_class name pool = (pool', Inr ())" "length (cp_infos cp') = length (cp_infos cp)"
proof -
  obtain name where "on_pool (add_class name pool) = Inr (pool', ())" "cp' = set_entry (fst x) CONSTANT_ClassName (I_utf8 name) cp"
    using assms(1) by (auto simp: resolve_class_def rbind_Inr split: prod.splits if_splits)
  then show ?thesis
    using that [of name] getconstant_set assms(2,3) add_class_ok [of name pool pool' "Inr ()"] by (simp add: on_pool_Inr set_entry_def)
qed

lemma resolve_classes:
  "for_each (resolve_class v) xs (cp, pool) = Inr (cp', pool') \<Longrightarrow> distinct (map fst xs) \<Longrightarrow> pool_ok fs ms pool \<Longrightarrow>
    \<forall>x \<in> set xs. unat (fst x) < length (cp_tags cp) \<Longrightarrow> length (cp_infos cp) = length (cp_tags cp) \<Longrightarrow>
    pool_ok fs ms pool' \<and> known pool \<subseteq> known pool' \<and> 
      (\<forall>x \<in> set xs. \<exists>name \<in> known pool'. class_getconstant cp' (fst x) CONSTANT_ClassName = Inr (I_utf8 name))"
proof (induction xs arbitrary: cp pool)
  case (Cons x xs)
  obtain cp1 pool1 where 1: "resolve_class v x (cp, pool) = Inr (cp1, pool1)" "for_each (resolve_class v) xs (cp1, pool1) = Inr (cp', pool')"
    using Cons.prems(1) by (auto simp: rbind_Inr)
  obtain name where name: "class_getconstant cp1 (fst x) CONSTANT_ClassName = Inr (I_utf8 name)" "name \<in> known pool1"
      "add_class name pool = (pool1, Inr ())" "length (cp_infos cp1) = length (cp_infos cp)"
    using resolve_class_effect [OF 1(1)] Cons.prems(4,5) by auto
  have ext: "extends pool pool1 0" using add_class_ok [OF name(3)] by simp
  have len: "length (cp_tags cp1) = length (cp_tags cp)" using resolve_class_frame [OF 1(1)] by (simp add: frame_def)
  have ih: "pool_ok fs ms pool' \<and> known pool1 \<subseteq> known pool' \<and>
      (\<forall>x \<in> set xs. \<exists>name \<in> known pool'. class_getconstant cp' (fst x) CONSTANT_ClassName = Inr (I_utf8 name))"
    using Cons.IH [OF 1(2)] Cons.prems(2,4,5) pool_ok_extends [OF Cons.prems(3) ext] len name(4) by simp
  have "frame (fst ` set xs) cp1 cp'" using for_each_frame [OF resolve_class_frame 1(2)] by simp
  then have "class_getconstant cp' (fst x) CONSTANT_ClassName = Inr (I_utf8 name)"
    using frame_getconstant [of "fst ` set xs" cp1 cp' "fst x"] name(1) Cons.prems(2) by simp
  then show ?case using ih name(2) extends_fields(8) [OF ext] by auto
qed simp

text \<open>The loops that fill in other entries do not touch the descriptor pool.\<close>

lemma for_each_pool: "(\<And>x s s'. f x s = Inr s' \<Longrightarrow> snd s' = snd s) \<Longrightarrow> for_each f xs s = Inr s' \<Longrightarrow> snd s' = snd s"
  by (induction xs arbitrary: s) (fastforce simp: rbind_Inr)+

lemma resolve_string_pool: "resolve_string x s = Inr s' \<Longrightarrow> snd s' = snd s"
  by (auto simp: resolve_string_def rbind_Inr split: prod.splits)

lemma resolve_nameandtype_pool: "resolve_nameandtype v x s = Inr s' \<Longrightarrow> snd s' = snd s"
  by (auto simp: resolve_nameandtype_def rbind_Inr split: prod.splits if_splits)

section \<open>The descriptors that were added\<close>

definition nat_desc :: "cpool \<Rightarrow> u2 \<Rightarrow> u1 list" where
  "nat_desc cp i = (case class_getconstant cp i CONSTANT_NameAndType of Inr (I_nameandtype n d) \<Rightarrow> d | _ \<Rightarrow> [])"

definition utf8_text :: "cpool \<Rightarrow> u2 \<Rightarrow> u1 list" where
  "utf8_text cp i = (case class_getconstant cp i CONSTANT_Utf8 of Inr (I_utf8 d) \<Rightarrow> d | _ \<Rightarrow> [])"

definition has_nat :: "cpool \<Rightarrow> u2 \<Rightarrow> bool" where
  "has_nat cp i \<longleftrightarrow> (\<exists>n d. class_getconstant cp i CONSTANT_NameAndType = Inr (I_nameandtype n d))"

definition has_utf8 :: "cpool \<Rightarrow> u2 \<Rightarrow> bool" where
  "has_utf8 cp i \<longleftrightarrow> (\<exists>d. class_getconstant cp i CONSTANT_Utf8 = Inr (I_utf8 d))"

definition field_descs :: "cpool \<Rightarrow> (u2 \<times> ConstantPoolTag \<times> u2 \<times> u2) list \<Rightarrow> u1 list set" where
  "field_descs cp xs = {nat_desc cp n | i c n. (i, CONSTANT_Fieldref, c, n) \<in> set xs}"

definition method_descs :: "cpool \<Rightarrow> (u2 \<times> ConstantPoolTag \<times> u2 \<times> u2) list \<Rightarrow> u1 list list" where
  "method_descs cp xs = map (\<lambda>(i, t, c, n). nat_desc cp n) (filter (\<lambda>(i, t, c, n). t \<noteq> CONSTANT_Fieldref) xs)"

definition type_descs :: "cpool \<Rightarrow> (u2 \<times> u2) list \<Rightarrow> u1 list list" where
  "type_descs cp xs = map (\<lambda>(i, d). utf8_text cp d) xs"

lemma get_nameandtype_Inr:
  "get_nameandtype cp i = Inr (n, d) \<longleftrightarrow> class_getconstant cp i CONSTANT_NameAndType = Inr (I_nameandtype n d)"
  by (cases "class_getconstant cp i CONSTANT_NameAndType"; cases "projr (class_getconstant cp i CONSTANT_NameAndType)")
     (auto simp: get_nameandtype_def)

lemma get_utf8_Inr: "get_utf8 cp i tag = Inr u \<longleftrightarrow> class_getconstant cp i tag = Inr (I_utf8 u)"
  by (cases "class_getconstant cp i tag"; cases "projr (class_getconstant cp i tag)") (auto simp: get_utf8_def)

lemma resolve_fieldmethint_effect:
  assumes "resolve_fieldmethint (i, t, c, n) (cp, pool) = Inr (cp', pool')" "pool_ok fs ms pool"
  shows "cp' = cp \<and> has_nat cp n \<and> known pool \<subseteq> known pool' \<and>
    pool_ok (field_descs cp [(i, t, c, n)] \<union> fs) (method_descs cp [(i, t, c, n)] @ ms) pool'"
proof -
  obtain nm d where nd: "class_getconstant cp n CONSTANT_NameAndType = Inr (I_nameandtype nm d)"
      and rest: "(if t = CONSTANT_Fieldref then rbind (on_pool (add_field d pool)) (\<lambda>(pool, _). Inr (cp, pool))
        else if t = CONSTANT_Methodref \<or> t = CONSTANT_InterfaceMethodref then rbind (on_pool (add_method d pool)) (\<lambda>(pool, _). Inr (cp, pool))
        else Inl Assertion_failed) = Inr (cp', pool')"
    using assms(1) unfolding resolve_fieldmethint_def prod.case rbind_Inr [of "get_nameandtype _ _"] by (auto simp only: get_nameandtype_Inr prod.case)
  have run: "cp' = cp" "t = CONSTANT_Fieldref \<and> add_field d pool = (pool', Inr ()) \<or>
        t \<noteq> CONSTANT_Fieldref \<and> (\<exists>k. add_method d pool = (pool', Inr k))"
    using rest by (auto simp: rbind_Inr on_pool_Inr split: if_splits)
  have "nat_desc cp n = d" "has_nat cp n" using nd by (simp_all add: nat_desc_def has_nat_def)
  note d = this
  from run(2) show ?thesis
  proof
    assume a: "t = CONSTANT_Fieldref \<and> add_field d pool = (pool', Inr ())"
    then have "field_descs cp [(i, t, c, n)] = {d}" "method_descs cp [(i, t, c, n)] = []" using d by (simp_all add: field_descs_def method_descs_def)
    then show ?thesis using a run(1) d(2) add_field_ok [OF assms(2)] add_field_known [of d pool pool'] by simp
  next
    assume a: "t \<noteq> CONSTANT_Fieldref \<and> (\<exists>k. add_method d pool = (pool', Inr k))"
    then have "field_descs cp [(i, t, c, n)] = {}" "method_descs cp [(i, t, c, n)] = [d]" using d by (auto simp: field_descs_def method_descs_def)
    then show ?thesis using a run(1) d(2) add_method_ok [OF assms(2)] add_method_known by fastforce
  qed
qed


lemma descs_Cons:
  "field_descs cp (x # xs) = field_descs cp [x] \<union> field_descs cp xs" "method_descs cp (x # xs) = method_descs cp [x] @ method_descs cp xs"
  by (auto simp: field_descs_def method_descs_def)

lemma method_descs_rev: "rev (method_descs cp [x]) = method_descs cp [x]"
  by (simp add: method_descs_def split: prod.split)

lemma resolve_fieldmethints:
  "for_each resolve_fieldmethint xs (cp, pool) = Inr (cp', pool') \<Longrightarrow> pool_ok fs ms pool \<Longrightarrow>
    cp' = cp \<and> known pool \<subseteq> known pool' \<and> (\<forall>(i, t, c, n) \<in> set xs. has_nat cp n) \<and>
    pool_ok (field_descs cp xs \<union> fs) (rev (method_descs cp xs) @ ms) pool'"
proof (induction xs arbitrary: pool fs ms)
  case Nil
  then show ?case by (simp add: field_descs_def method_descs_def)
next
  case (Cons x xs)
  obtain i t c n where x: "x = (i, t, c, n)" by (cases x)
  obtain cp1 pool1 where 1: "resolve_fieldmethint x (cp, pool) = Inr (cp1, pool1)" "for_each resolve_fieldmethint xs (cp1, pool1) = Inr (cp', pool')"
    using Cons.prems(1) by (auto simp: rbind_Inr)
  have e: "cp1 = cp" "has_nat cp n" "known pool \<subseteq> known pool1" "pool_ok (field_descs cp [x] \<union> fs) (method_descs cp [x] @ ms) pool1"
    using resolve_fieldmethint_effect [OF 1(1) [unfolded x] Cons.prems(2)] x by simp_all
  note ih = Cons.IH [OF 1(2) [unfolded e(1)] e(4)]
  have "field_descs cp xs \<union> (field_descs cp [x] \<union> fs) = field_descs cp (x # xs) \<union> fs"
      "rev (method_descs cp xs) @ method_descs cp [x] @ ms = rev (method_descs cp (x # xs)) @ ms"
    by (auto simp: descs_Cons [of cp x xs] method_descs_rev)
  then show ?case using ih e x by (simp only: list.set ball_simps) auto
qed

lemma resolve_methodtypes:
  "for_each resolve_methodtype xs (cp, pool) = Inr (cp', pool') \<Longrightarrow> pool_ok fs ms pool \<Longrightarrow>
    cp' = cp \<and> known pool \<subseteq> known pool' \<and> (\<forall>(i, d) \<in> set xs. has_utf8 cp d) \<and> pool_ok fs (rev (type_descs cp xs) @ ms) pool'"
proof (induction xs arbitrary: pool ms)
  case Nil
  then show ?case by (simp add: type_descs_def)
next
  case (Cons x xs)
  obtain i d where x: "x = (i, d)" by (cases x)
  obtain cp1 pool1 where 1: "resolve_methodtype x (cp, pool) = Inr (cp1, pool1)" "for_each resolve_methodtype xs (cp1, pool1) = Inr (cp', pool')"
    using Cons.prems(1) by (auto simp: rbind_Inr)
  obtain u k where u: "class_getconstant cp d CONSTANT_Utf8 = Inr (I_utf8 u)" "add_method u pool = (pool1, Inr k)" "cp1 = cp"
    using 1(1) by (auto simp: x resolve_methodtype_def rbind_Inr on_pool_Inr split: sum.splits cp_info.splits)
  have e: "utf8_text cp d = u" "has_utf8 cp d" using u(1) by (simp_all add: utf8_text_def has_utf8_def)
  have ok: "pool_ok fs (u # ms) pool1" using add_method_ok [OF Cons.prems(2) u(2)] by simp
  show ?case using Cons.IH [OF 1(2) [unfolded u(3)] ok] add_method_known [OF u(2)] e x by (auto simp: type_descs_def)
qed

section \<open>What loading leaves behind\<close>

definition class_named :: "cpool \<Rightarrow> DescriptorPool \<Rightarrow> u2 \<Rightarrow> bool" where
  "class_named cp pool i \<longleftrightarrow> (\<exists>name \<in> known pool. class_getconstant cp i CONSTANT_ClassName = Inr (I_utf8 name))"

definition loaded_sep :: "cpool \<Rightarrow> DescriptorPool \<Rightarrow> ForwardReferences \<Rightarrow> bool" where
  "loaded_sep cp pool fwd \<longleftrightarrow> distinct (fwd_indices fwd) \<and> (\<forall>x \<in> set (fwd_classes fwd). class_named cp pool (fst x)) \<and>
     (\<forall>x \<in> set (fwd_methodtypes fwd). cp_tags cp ! unat (fst x) = CONSTANT_UNUSED) \<and>
     (\<forall>x \<in> set (fwd_fieldmethints fwd). cp_tags cp ! unat (fst x) \<in> fmi_tags) \<and>
     (\<forall>(i, t, c, n) \<in> set (fwd_fieldmethints fwd). has_nat cp n) \<and> (\<forall>(i, d) \<in> set (fwd_methodtypes fwd). has_utf8 cp d) \<and>
     CONSTANT_Class \<notin> set (cp_tags cp) \<and>
     pool_ok (field_descs cp (fwd_fieldmethints fwd)) (rev (type_descs cp (fwd_methodtypes fwd)) @ rev (method_descs cp (fwd_fieldmethints fwd))) pool"

lemma for_each_inv: "(\<And>x s s'. f x s = Inr s' \<Longrightarrow> I s \<Longrightarrow> I s') \<Longrightarrow> for_each f xs s = Inr s' \<Longrightarrow> I s \<Longrightarrow> I s'"
  by (induction xs arbitrary: s) (fastforce simp: rbind_Inr)+

definition no_class :: "cpool \<times> DescriptorPool \<Rightarrow> bool" where
  "no_class s \<longleftrightarrow> CONSTANT_Class \<notin> set (cp_tags (fst s))"

lemma no_class_set: "no_class (cp, pool) \<Longrightarrow> tag \<noteq> CONSTANT_Class \<Longrightarrow> no_class (set_entry i tag info cp, pool')"
  by (simp add: no_class_def set_entry_def no_class_write)

lemma resolve_no_class:
  "resolve_class v x s = Inr s' \<Longrightarrow> no_class s \<Longrightarrow> no_class s'" "resolve_string y s = Inr s' \<Longrightarrow> no_class s \<Longrightarrow> no_class s'"
  "resolve_nameandtype v z s = Inr s' \<Longrightarrow> no_class s \<Longrightarrow> no_class s'"
  by (auto simp: resolve_class_def resolve_string_def resolve_nameandtype_def rbind_Inr no_class_set split: prod.splits if_splits)

lemma load_constantpool_Inr:
  assumes "load_constantpool v ver pool bytes = Inr ((cp, pool', fwd), rest)"
  obtains k pos idx cp0 where "k \<noteq> 0" "first_pass v ver k (1, empty_cpool k, no_forward) pos = Inr ((idx, cp0, fwd), rest)"
    "resolve_entries v fwd (cp0, pool) = Inr (cp, pool')"
  using assms unfolding load_constantpool_def by (auto simp: rbind_Inr not_less split: if_splits)

lemma resolve_entries_Inr:
  assumes "resolve_entries v fwd (cp0, pool0) = Inr (cp, pool)"
  obtains cp1 pool1 cp2 pool2 where "for_each (resolve_class v) (fwd_classes fwd) (cp0, pool0) = Inr (cp1, pool1)"
    "for_each resolve_string (fwd_strings fwd) (cp1, pool1) = Inr (cp2, pool1)"
    "for_each (resolve_nameandtype v) (fwd_nameandtypes fwd) (cp2, pool1) = Inr (cp, pool1)"
    "for_each resolve_fieldmethint (fwd_fieldmethints fwd) (cp, pool1) = Inr (cp, pool2)"
    "for_each resolve_methodtype (fwd_methodtypes fwd) (cp, pool2) = Inr (cp, pool)"
proof -
  obtain s1 s2 s3 s4 where s: "for_each (resolve_class v) (fwd_classes fwd) (cp0, pool0) = Inr s1"
      "for_each resolve_string (fwd_strings fwd) s1 = Inr s2" "for_each (resolve_nameandtype v) (fwd_nameandtypes fwd) s2 = Inr s3"
      "for_each resolve_fieldmethint (fwd_fieldmethints fwd) s3 = Inr s4" "for_each resolve_methodtype (fwd_methodtypes fwd) s4 = Inr (cp, pool)"
    using assms by (auto simp: resolve_entries_def rbind_Inr)
  have p: "snd s2 = snd s1" "snd s3 = snd s2"
    using for_each_pool [OF resolve_string_pool s(2)] for_each_pool [OF resolve_nameandtype_pool s(3)] by simp_all
  have c: "fst s4 = cp" "fst s3 = fst s4"
    using for_each_inv [where I = "\<lambda>t. fst t = fst s4", OF _ s(5)] for_each_inv [where I = "\<lambda>t. fst t = fst s3", OF _ s(4)]
      resolve_methodtype_same resolve_fieldmethint_same by fastforce+
  show ?thesis
    by (rule that [of "fst s1" "snd s1" "fst s2" "snd s4"]) (use s p c in \<open>metis prod.collapse\<close>)+
qed

lemma frame_disjoint:
  assumes "frame A cp0 cp1" "frame B cp1 cp2" "frame C cp2 cp3" "i \<notin> A" "i \<notin> B" "i \<notin> C"
  shows "cp_tags cp3 ! unat i = cp_tags cp0 ! unat i"
  using assms by (simp add: frame_def)

lemma resolve_entries_sep:
  assumes sep: "pass_sep n (idx, cp0, fwd)" and len: "length (cp_infos cp0) = length (cp_tags cp0)"
    and run: "resolve_entries v fwd (cp0, DescriptorPool_new) = Inr (cp, pool)"
  shows "loaded_sep cp pool fwd"
proof (rule resolve_entries_Inr [OF run])
  fix cp1 pool1 cp2 pool2
  assume c: "for_each (resolve_class v) (fwd_classes fwd) (cp0, DescriptorPool_new) = Inr (cp1, pool1)"
    and st: "for_each resolve_string (fwd_strings fwd) (cp1, pool1) = Inr (cp2, pool1)"
    and nt: "for_each (resolve_nameandtype v) (fwd_nameandtypes fwd) (cp2, pool1) = Inr (cp, pool1)"
    and fm: "for_each resolve_fieldmethint (fwd_fieldmethints fwd) (cp, pool1) = Inr (cp, pool2)"
    and mt: "for_each resolve_methodtype (fwd_methodtypes fwd) (cp, pool2) = Inr (cp, pool)"
  have d: "distinct (fwd_indices fwd)" and u: "unset_ok n (unat idx) (cp_tags cp0) fwd" and nc: "no_class (cp0, DescriptorPool_new)"
      and lt: "\<forall>i \<in> set (fwd_indices fwd). unat i < length (cp_tags cp0)"
    using sep by (auto simp: pass_sep_def no_class_def)
  have f: "frame (fst ` set (fwd_classes fwd)) cp0 cp1" "frame (fst ` set (fwd_strings fwd)) cp1 cp2" "frame (fst ` set (fwd_nameandtypes fwd)) cp2 cp"
    using for_each_frame [OF resolve_class_frame c] for_each_frame [OF resolve_string_frame st] for_each_frame [OF resolve_nameandtype_frame nt] by simp_all
  have cls: "pool_ok {} [] pool1" "\<forall>x \<in> set (fwd_classes fwd). \<exists>name \<in> known pool1. class_getconstant cp1 (fst x) CONSTANT_ClassName = Inr (I_utf8 name)"
    using resolve_classes [OF c _ pool_ok_new] d lt len by (auto simp: fwd_indices_def)
  have r: "known pool1 \<subseteq> known pool2" "\<forall>(i, t, c, n) \<in> set (fwd_fieldmethints fwd). has_nat cp n"
      "pool_ok (field_descs cp (fwd_fieldmethints fwd)) (rev (method_descs cp (fwd_fieldmethints fwd))) pool2"
    using resolve_fieldmethints [OF fm cls(1)] by simp_all
  note m = resolve_methodtypes [OF mt r(3)]
  have "class_named cp pool (fst x)" if "x \<in> set (fwd_classes fwd)" for x
  proof -
    have "fst x \<notin> fst ` set (fwd_strings fwd)" "fst x \<notin> fst ` set (fwd_nameandtypes fwd)"
      using d that unfolding fwd_indices_def by (auto dest: imageI [of _ _ fst])
    then have "class_getconstant cp (fst x) CONSTANT_ClassName = class_getconstant cp1 (fst x) CONSTANT_ClassName"
      using frame_getconstant f(2,3) by simp
    then show ?thesis using cls(2) that r(1) m unfolding class_named_def by fastforce
  qed
  moreover have "cp_tags cp ! unat i = cp_tags cp0 ! unat i"
    if "i \<in> set (map fst (fwd_fieldmethints fwd) @ map fst (fwd_methodtypes fwd))" for i
    by (rule frame_disjoint [OF f]) (use d that in \<open>auto simp: fwd_indices_def\<close>)
  moreover have "no_class (cp1, pool1)" by (rule for_each_inv [where I = no_class, OF _ c nc]) (rule resolve_no_class(1))
  then have "no_class (cp2, pool1)" by (rule for_each_inv [where I = no_class, OF _ st, rotated]) (rule resolve_no_class(2))
  then have "no_class (cp, pool1)" by (rule for_each_inv [where I = no_class, OF _ nt, rotated]) (rule resolve_no_class(3))
  ultimately show ?thesis
    using d u r(2) m unfolding loaded_sep_def unset_ok_def unset_indices_def no_class_def by simp
qed

lemma load_constantpool_sep:
  assumes load: "load_constantpool v ver DescriptorPool_new bytes = Inr ((cp, pool, fwd), rest)" and n: "length (cp_tags cp) < 65535"
  shows "loaded_sep cp pool fwd \<and> cp_ok (pending fwd) cp \<and> fmi_fwd_ok fwd"
proof (rule load_constantpool_Inr [OF load])
  fix k pos idx cp0
  assume k: "k \<noteq> 0" and fp: "first_pass v ver k (1, empty_cpool k, no_forward) pos = Inr ((idx, cp0, fwd), rest)"
    and re: "resolve_entries v fwd (cp0, DescriptorPool_new) = Inr (cp, pool)"
  have t: "pass_typed (unat k) (idx, cp0, fwd)" using ends_Inr [OF first_pass_typed fp] by simp
  then have "typed (pending fwd) (unat k) (cp0, DescriptorPool_new)" by (simp add: typed_def pass_typed_def)
  then have "length (cp_tags cp) = unat k" using ends_Inr [OF resolve_entries_typed re, of "pending fwd" "unat k"] by (simp add: typed_def)
  then have "k < 65535" using n by (simp add: word_less_nat_alt)
  from first_pass_sep [OF fp k this] have "pass_sep (unat k) (idx, cp0, fwd)" .
  moreover have "length (cp_infos cp0) = length (cp_tags cp0)" using t by (simp add: pass_typed_def cp_ok_def)
  ultimately have "loaded_sep cp pool fwd" using re by (rule resolve_entries_sep)
  moreover have "loaded ((cp, pool, fwd), rest)" using ends_Inr [OF load_constantpool_typed load] .
  ultimately show ?thesis by (simp add: loaded_def)
qed

section \<open>Completing the entries\<close>

text \<open>Names and strings stay.\<close>

definition keeps :: "cpool \<Rightarrow> cpool \<Rightarrow> bool" where
  "keeps cp cp' \<longleftrightarrow> (\<forall>i n d. class_getconstant cp i CONSTANT_NameAndType = Inr (I_nameandtype n d) \<longrightarrow>
       class_getconstant cp' i CONSTANT_NameAndType = Inr (I_nameandtype n d)) \<and>
     (\<forall>i u. class_getconstant cp i CONSTANT_Utf8 = Inr (I_utf8 u) \<longrightarrow> class_getconstant cp' i CONSTANT_Utf8 = Inr (I_utf8 u))"

lemma keeps_refl [simp]: "keeps cp cp"
  by (simp add: keeps_def)

lemma keeps_trans: "keeps p q \<Longrightarrow> keeps q r \<Longrightarrow> keeps p r"
  by (simp add: keeps_def)

lemma keeps_set:
  assumes "cp_tags cp ! unat i \<noteq> CONSTANT_NameAndType" "cp_tags cp ! unat i \<noteq> CONSTANT_Utf8"
  shows "keeps cp (set_entry i tag info cp)"
proof -
  have "class_getconstant (set_entry i tag info cp) j t = class_getconstant cp j t" if "class_getconstant cp j t = Inr x"
      "t = CONSTANT_NameAndType \<or> t = CONSTANT_Utf8" for j t x
  proof -
    have "j \<noteq> i" using that assms by (auto simp: class_getconstant_Inr)
    then show ?thesis using frame_getconstant [OF frame_set] by simp
  qed
  then show ?thesis unfolding keeps_def by metis
qed

lemma keeps_has:
  assumes "keeps cp cp'"
  shows "has_nat cp i \<Longrightarrow> has_nat cp' i" "has_nat cp i \<Longrightarrow> nat_desc cp' i = nat_desc cp i"
    "has_utf8 cp i \<Longrightarrow> has_utf8 cp' i" "has_utf8 cp i \<Longrightarrow> utf8_text cp' i = utf8_text cp i"
  using assms by (auto simp: keeps_def has_nat_def has_utf8_def nat_desc_def utf8_text_def)

text \<open>Every class entry has its reference.\<close>

definition classes_ok :: "cpool \<Rightarrow> bool" where
  "classes_ok cp \<longleftrightarrow> length (cp_infos cp) = length (cp_tags cp) \<and>
     (\<forall>i < length (cp_tags cp). cp_tags cp ! i = CONSTANT_Class \<longrightarrow> (\<exists>r. cp_infos cp ! i = I_classref r))"

lemma classes_ok_set: "classes_ok cp \<Longrightarrow> tag = CONSTANT_Class \<longrightarrow> (\<exists>r. info = I_classref r) \<Longrightarrow> classes_ok (set_entry i tag info cp)"
  by (auto simp: classes_ok_def set_entry_def nth_update)

lemma link_class_runs:
  assumes "class_named cp pool i" "dp_classrefs pool \<noteq> None"
  obtains r where "link_class (i, j) (cp, pool) = Inr (set_entry i CONSTANT_Class (I_classref r) cp, pool)"
    "cp_tags cp ! unat i = CONSTANT_ClassName"
proof -
  obtain name where n: "name \<in> known pool" "class_getconstant cp i CONSTANT_ClassName = Inr (I_utf8 name)"
    using assms(1) by (auto simp: class_named_def)
  obtain r where "map_of (dp_classrefhash pool) name = Some r" using n(1) by (auto simp: known_iff)
  then have "lookup_classref name pool = (pool, Inr (Some (unat r)))" using assms(2) by (simp add: lookup_classref_def)
  then have "link_class (i, j) (cp, pool) = Inr (set_entry i CONSTANT_Class (I_classref (unat r)) cp, pool)"
    using get_utf8_Inr [THEN iffD2, OF n(2)] by (simp add: link_class_def not_checked_def on_pool_def)
  then show ?thesis using that n(2) by (simp add: class_getconstant_Inr)
qed

lemma link_classes:
  "distinct (map fst xs) \<Longrightarrow> \<forall>x \<in> set xs. class_named cp pool (fst x) \<Longrightarrow> dp_classrefs pool \<noteq> None \<Longrightarrow> classes_ok cp \<Longrightarrow>
    \<exists>cp'. for_each link_class xs (cp, pool) = Inr (cp', pool) \<and> frame (fst ` set xs) cp cp' \<and> keeps cp cp' \<and> classes_ok cp'"
proof (induction xs arbitrary: cp)
  case (Cons x xs)
  obtain i j where x: "x = (i, j)" by (cases x)
  obtain r where r: "link_class (i, j) (cp, pool) = Inr (set_entry i CONSTANT_Class (I_classref r) cp, pool)"
      "cp_tags cp ! unat i = CONSTANT_ClassName"
    using link_class_runs Cons.prems(2,3) x by (metis fst_conv list.set_intros(1))
  let ?cp = "set_entry i CONSTANT_Class (I_classref r) cp"
  have "class_named ?cp pool (fst y)" if "y \<in> set xs" for y
  proof -
    have "fst y \<notin> {i}" using Cons.prems(1) that x by auto
    then show ?thesis using Cons.prems(2) that frame_getconstant [OF frame_set] by (simp add: class_named_def)
  qed
  moreover have "classes_ok ?cp" using Cons.prems(4) by (rule classes_ok_set) simp
  ultimately obtain cp' where cp': "for_each link_class xs (?cp, pool) = Inr (cp', pool)" "frame (fst ` set xs) ?cp cp'" "keeps ?cp cp'" "classes_ok cp'"
    using Cons.IH [of ?cp] Cons.prems(1,3) by auto
  have "keeps cp cp'" using keeps_trans [OF keeps_set cp'(3)] r(2) by simp
  moreover have "frame (fst ` set (x # xs)) cp cp'" using frame_trans [OF frame_set cp'(2)] x by simp
  ultimately show ?case using r(1) cp'(1,4) x by simp
qed simp

lemma link_methodtypes:
  "distinct (map fst xs) \<Longrightarrow> \<forall>x \<in> set xs. cp_tags cp ! unat (fst x) = CONSTANT_UNUSED \<Longrightarrow> \<forall>(i, d) \<in> set xs. has_utf8 cp d \<Longrightarrow>
    classes_ok cp \<Longrightarrow> mset (type_descs cp xs) \<subseteq># ms \<Longrightarrow> parsing_ok fs ms pool \<Longrightarrow>
    \<exists>cp' pool'. for_each link_methodtype xs (cp, pool) = Inr (cp', pool') \<and> frame (fst ` set xs) cp cp' \<and> keeps cp cp' \<and> classes_ok cp' \<and>
      parsing_ok fs (ms - mset (type_descs cp xs)) pool' \<and> dp_descriptorsize pool' = dp_descriptorsize pool"
proof (induction xs arbitrary: cp pool ms)
  case Nil
  then show ?case by (simp add: type_descs_def)
next
  case (Cons x xs)
  obtain i d where x: "x = (i, d)" by (cases x)
  obtain u where u: "class_getconstant cp d CONSTANT_Utf8 = Inr (I_utf8 u)" "utf8_text cp d = u"
    using Cons.prems(3) x by (auto simp: has_utf8_def utf8_text_def)
  have descs: "mset (type_descs cp (x # xs)) = add_mset u (mset (type_descs cp xs))" by (simp add: type_descs_def x u(2))
  have mem: "u \<in># ms" using Cons.prems(5) descs by (simp add: insert_subset_eq_iff)
  obtain pool1 md where 1: "parse_method_descriptor u ACC_STATIC None pool = (pool1, Inr md)" "parsing_ok fs (ms - {#u#}) pool1"
      "dp_descriptorsize pool1 = dp_descriptorsize pool"
    using parse_method_step [OF Cons.prems(6) mem] by blast
  let ?cp = "set_entry i CONSTANT_MethodType (I_methodtype u (Some md)) cp"
  have run: "link_methodtype x (cp, pool) = Inr (?cp, pool1)"
    using get_utf8_Inr [THEN iffD2, OF u(1)] 1(1) by (simp add: x link_methodtype_def not_checked_def parse_method_or_null_def)
  have k: "keeps cp ?cp" using Cons.prems(2) x by (intro keeps_set) simp_all
  have t: "type_descs ?cp xs = type_descs cp xs" using Cons.prems(3) keeps_has(4) [OF k] by (auto simp: type_descs_def)
  have "fst y \<noteq> i" if "y \<in> set xs" for y using Cons.prems(1) that x by auto
  then have tags: "\<forall>y \<in> set xs. cp_tags ?cp ! unat (fst y) = CONSTANT_UNUSED" using Cons.prems(2) by (simp add: set_entry_other)
  have has: "\<forall>(i, d) \<in> set xs. has_utf8 ?cp d" using Cons.prems(3) keeps_has(3) [OF k] by auto
  have c: "classes_ok ?cp" using Cons.prems(4) by (rule classes_ok_set) simp
  have sub: "mset (type_descs ?cp xs) \<subseteq># ms - {#u#}" using Cons.prems(5) descs t by (simp add: insert_subset_eq_iff)
  obtain cp' pool' where 2: "for_each link_methodtype xs (?cp, pool1) = Inr (cp', pool')" "frame (fst ` set xs) ?cp cp'" "keeps ?cp cp'"
      "classes_ok cp'" "parsing_ok fs (ms - {#u#} - mset (type_descs ?cp xs)) pool'" "dp_descriptorsize pool' = dp_descriptorsize pool1"
    using Cons.IH [OF _ tags has c sub 1(2)] Cons.prems(1) by auto
  have "frame (fst ` set (x # xs)) cp cp'" using frame_trans [OF frame_set 2(2)] x by simp
  moreover have "ms - {#u#} - mset (type_descs ?cp xs) = ms - mset (type_descs cp (x # xs))" by (simp add: descs t diff_diff_add_mset)
  ultimately show ?case using run 2 1(3) keeps_trans [OF k 2(3)] by auto
qed

lemma parse_reference_runs:
  assumes ok: "parsing_ok fs ms pool" and "t = CONSTANT_Fieldref \<Longrightarrow> d \<in> fs" "t \<noteq> CONSTANT_Fieldref \<Longrightarrow> d \<in># ms" "t \<in> fmi_tags"
  obtains pool' p where "parse_reference t d r pool = Inr (pool', p)" "isl p = (t = CONSTANT_Fieldref)"
    "parsing_ok fs (if t = CONSTANT_Fieldref then ms else ms - {#d#}) pool'" "dp_descriptorsize pool' = dp_descriptorsize pool"
proof (cases "t = CONSTANT_Fieldref")
  case True
  then obtain pool' td where "parse_field_descriptor d pool = (pool', Inr td)" "parsing_ok fs ms pool'" "dp_descriptorsize pool' = dp_descriptorsize pool"
    using parse_field_step [OF ok] assms(2) by blast
  then show ?thesis using that [of pool' "Inl td"] True by (simp add: parse_reference_def on_pool_def)
next
  case False
  then obtain pool' md where "parse_method_descriptor d ACC_UNDEF (Some r) pool = (pool', Inr md)" "parsing_ok fs (ms - {#d#}) pool'"
      "dp_descriptorsize pool' = dp_descriptorsize pool"
    using parse_method_step [OF ok] assms(3) by blast
  then show ?thesis using that [of pool' "Inr md"] False assms(4) by (simp add: parse_reference_def on_pool_def fmi_tags_def)
qed

lemma get_classref_format: "classes_ok cp \<Longrightarrow> ends format_error (\<lambda>_. True) (get_classref cp i)"
proof (cases "class_getconstant cp i CONSTANT_Class")
  case (Inl e)
  then show ?thesis using class_getconstant_Inl by (simp add: get_classref_def)
next
  case (Inr info)
  assume "classes_ok cp"
  then obtain r where "info = I_classref r" using Inr by (auto simp: class_getconstant_Inr classes_ok_def)
  then show ?thesis using Inr by (simp add: get_classref_def)
qed

text \<open>What holds before the references \<open>xs\<close> are completed; \<open>cp0\<close> is the pool before the first of them.\<close>

definition linking :: "cpool \<Rightarrow> u1 list set \<Rightarrow> nat \<Rightarrow> (u2 \<times> ConstantPoolTag \<times> u2 \<times> u2) list \<Rightarrow> cpool \<times> DescriptorPool \<Rightarrow> bool" where
  "linking cp0 fs sz xs s = (case s of (cp, pool) \<Rightarrow> keeps cp0 cp \<and> classes_ok cp \<and> cp_ok (unat ` fst ` set xs) cp \<and> distinct (map fst xs) \<and>
     (\<forall>(i, t, c, n) \<in> set xs. t \<in> fmi_tags \<and> cp_tags cp ! unat i \<in> fmi_tags \<and> has_nat cp0 n) \<and> field_descs cp0 xs \<subseteq> fs \<and>
     dp_descriptorsize pool = sz \<and> (\<exists>ms. mset (method_descs cp0 xs) \<subseteq># ms \<and> parsing_ok fs ms pool))"

lemma link_fieldmethint_runs:
  assumes "linking cp0 fs sz (x # xs) s"
  shows "ends format_error (linking cp0 fs sz xs) (link_fieldmethint x s)"
proof -
  obtain i t c n cp pool where x: "x = (i, t, c, n)" and s: "s = (cp, pool)" by (cases x; cases s)
  have l: "keeps cp0 cp" "classes_ok cp" "cp_ok (insert (unat i) (unat ` fst ` set xs)) cp" "t \<in> fmi_tags" "cp_tags cp ! unat i \<in> fmi_tags"
      "has_nat cp0 n" "field_descs cp0 (x # xs) \<subseteq> fs" "dp_descriptorsize pool = sz" "i \<notin> fst ` set xs" "distinct (map fst xs)"
    using assms by (simp_all add: linking_def x s)
  obtain ms where ms: "mset (method_descs cp0 (x # xs)) \<subseteq># ms" "parsing_ok fs ms pool" using assms by (auto simp: linking_def s)
  obtain nm d where nd: "class_getconstant cp0 n CONSTANT_NameAndType = Inr (I_nameandtype nm d)" using l(6) by (auto simp: has_nat_def)
  then have nd': "get_nameandtype cp n = Inr (nm, d)" "nat_desc cp0 n = d"
    using l(1) by (auto simp: keeps_def get_nameandtype_Inr nat_desc_def)
  have "t = CONSTANT_Fieldref \<Longrightarrow> d \<in> fs" using l(7) nd'(2) x by (auto simp: field_descs_def)
  moreover have md: "method_descs cp0 (x # xs) = (if t = CONSTANT_Fieldref then [] else [d]) @ method_descs cp0 xs"
    by (simp add: method_descs_def x nd'(2))
  then have "t \<noteq> CONSTANT_Fieldref \<Longrightarrow> d \<in># ms" using ms(1) by (simp add: insert_subset_eq_iff)
  ultimately have step: "\<exists>pool' p. parse_reference t d r pool = Inr (pool', p) \<and> isl p = (t = CONSTANT_Fieldref) \<and>
      parsing_ok fs (if t = CONSTANT_Fieldref then ms else ms - {#d#}) pool' \<and> dp_descriptorsize pool' = dp_descriptorsize pool" for r
    by (rule parse_reference_runs [OF ms(2), where t = t and d = d and r = r]) (use l(4) in auto)
  have sub: "mset (method_descs cp0 xs) \<subseteq># (if t = CONSTANT_Fieldref then ms else ms - {#d#})"
    using ms(1) by (cases "t = CONSTANT_Fieldref") (simp_all add: md insert_subset_eq_iff)
  have all: "\<forall>(j, t, c, n) \<in> set xs. t \<in> fmi_tags \<and> cp_tags cp ! unat j \<in> fmi_tags \<and> has_nat cp0 n"
    using assms by (simp add: linking_def x s)
  have fin: "linking cp0 fs sz xs (set_entry i t (I_fmiref f) cp, pool')"
    if f: "isl (fmi_parseddesc f) = (t = CONSTANT_Fieldref)" and pool': "parsing_ok fs (if t = CONSTANT_Fieldref then ms else ms - {#d#}) pool'"
      "dp_descriptorsize pool' = dp_descriptorsize pool" for f pool'
  proof -
    let ?cp = "set_entry i t (I_fmiref f) cp"
    have "keeps cp0 ?cp" using keeps_trans [OF l(1) keeps_set] l(5) by (auto simp: fmi_tags_def)
    moreover have "classes_ok ?cp" using l(2,4) by (intro classes_ok_set) (auto simp: fmi_tags_def)
    moreover have "cp_ok (unat ` fst ` set xs) ?cp" using l(3,4) f by (auto simp: fmi_tags_def intro!: cp_ok_done)
    moreover have "cp_tags ?cp ! unat j = cp_tags cp ! unat j" if "(j, y) \<in> set xs" for j y
      using that l(9) by (intro set_entry_other) force
    then have "\<forall>(j, t, c, n) \<in> set xs. t \<in> fmi_tags \<and> cp_tags ?cp ! unat j \<in> fmi_tags \<and> has_nat cp0 n" using all by auto
    moreover have "field_descs cp0 xs \<subseteq> fs" using l(7) descs_Cons(1) by blast
    ultimately show ?thesis using pool' l(8,10) sub unfolding linking_def prod.case by blast
  qed
  have "ends format_error (\<lambda>(pool', p). linking cp0 fs sz xs (set_entry i t (I_fmiref \<lparr> fmi_classref = r, fmi_name = nm,
      fmi_descriptor = d, fmi_parseddesc = p \<rparr>) cp, pool')) (parse_reference t d r pool)" for r
  proof -
    obtain pool' p where p: "parse_reference t d r pool = Inr (pool', p)" "isl p = (t = CONSTANT_Fieldref)"
        "parsing_ok fs (if t = CONSTANT_Fieldref then ms else ms - {#d#}) pool'" "dp_descriptorsize pool' = dp_descriptorsize pool"
      using step by blast
    show ?thesis unfolding p(1) using p(2) by (simp add: fin [OF _ p(3,4)])
  qed
  then show ?thesis
    unfolding x s link_fieldmethint_def prod.case ends_rbind not_checked_def nd'(1)
    by (auto simp: case_prod_unfold intro!: ends_mono [OF get_classref_format [OF l(2)]])
qed

lemma link_methodhandles:
  assumes "cp_ok {} cp"
  shows "ends format_error (\<lambda>s. cp_ok {} (fst s) \<and> snd s = pool) (for_each link_methodhandle xs (cp, pool))"
proof (rule for_each_ends [where I = "\<lambda>_ s. cp_ok {} (fst s) \<and> snd s = pool"])
  fix x :: "u2 \<times> u1 \<times> u2" and s :: "cpool \<times> DescriptorPool"
  assume "cp_ok {} (fst s) \<and> snd s = pool"
  moreover obtain i k j cp pool1 where "x = (i, k, j)" "s = (cp, pool1)" by (cases x; cases s)
  ultimately show "ends format_error (\<lambda>s. cp_ok {} (fst s) \<and> snd s = pool) (link_methodhandle x s)"
    by (cases "kind_of_u1 k") (auto simp: link_methodhandle_def intro!: ends_mono [OF handle_target_ends] cp_ok_set simp del: entry_ok.simps)
qed (use assms in simp)

lemma link_references_runs:
  assumes "linking cp0 fs sz (fwd_fieldmethints fwd) s"
  shows "ends format_error (\<lambda>(cp, pool). list_all2 entry_ok (cp_tags cp) (cp_infos cp) \<and> dp_exception pool = None \<and>
    dp_descriptors_next pool \<le> dp_descriptorsize pool \<and> dp_descriptorsize pool = sz) (link_references fwd s)"
proof -
  have "ends format_error (linking cp0 fs sz []) (for_each link_fieldmethint (fwd_fieldmethints fwd) s)"
    using link_fieldmethint_runs assms by (rule for_each_ends)
  then show ?thesis
    unfolding link_references_def ends_rbind
  proof (rule ends_mono)
    fix s
    assume l: "linking cp0 fs sz [] s"
    obtain cp pool where s: "s = (cp, pool)" by (cases s)
    have "cp_ok {} cp" "dp_descriptorsize pool = sz" "dp_exception pool = None \<and> dp_descriptors_next pool \<le> dp_descriptorsize pool"
      using l parsing_ok_fits by (auto simp: linking_def s)
    then show "ends format_error (\<lambda>(cp, pool). list_all2 entry_ok (cp_tags cp) (cp_infos cp) \<and> dp_exception pool = None \<and>
        dp_descriptors_next pool \<le> dp_descriptorsize pool \<and> dp_descriptorsize pool = sz) (for_each link_methodhandle (fwd_methodhandles fwd) s)"
      unfolding s by (auto intro!: ends_mono [OF link_methodhandles] simp: cp_ok_final)
  qed
qed

text \<open>The first group of loops, for a class without \<open>invokedynamic\<close>.\<close>

lemma link_classes_and_types_runs:
  assumes l: "loaded_sep cp pool fwd" "cp_ok (pending fwd) cp" and indy: "fwd_invokedynamics fwd = []"
    and known: "known pool \<subseteq> known pool1" "dp_classrefs pool1 \<noteq> None"
    and ms: "mset (type_descs cp (fwd_methodtypes fwd)) \<subseteq># ms" "parsing_ok fs ms pool1"
  obtains cp2 pool2 where "link_classes_and_types fwd (cp, pool1) = Inr (cp2, pool2)" "keeps cp cp2" "classes_ok cp2"
    "\<forall>x \<in> set (fwd_fieldmethints fwd). cp_tags cp2 ! unat (fst x) \<in> fmi_tags" "cp_ok (pending fwd) cp2"
    "parsing_ok fs (ms - mset (type_descs cp (fwd_methodtypes fwd))) pool2" "dp_descriptorsize pool2 = dp_descriptorsize pool1"
proof -
  note sep = l(1) [unfolded loaded_sep_def]
  have d: "distinct (map fst (fwd_classes fwd))" "distinct (map fst (fwd_methodtypes fwd))"
      "fst ` set (fwd_classes fwd) \<inter> fst ` set (fwd_methodtypes fwd) = {}"
      "(fst ` set (fwd_classes fwd) \<union> fst ` set (fwd_methodtypes fwd)) \<inter> fst ` set (fwd_fieldmethints fwd) = {}"
    using sep by (auto simp: fwd_indices_def)
  have named: "\<forall>x \<in> set (fwd_classes fwd). class_named cp pool1 (fst x)"
    using sep known(1) unfolding class_named_def by blast
  have "classes_ok cp" using sep l(2) by (auto simp: classes_ok_def cp_ok_def in_set_conv_nth)
  then obtain cp1 where 1: "for_each link_class (fwd_classes fwd) (cp, pool1) = Inr (cp1, pool1)" "frame (fst ` set (fwd_classes fwd)) cp cp1"
      "keeps cp cp1" "classes_ok cp1"
    using link_classes [OF d(1) named known(2)] by blast
  have tags: "\<forall>x \<in> set (fwd_methodtypes fwd). cp_tags cp1 ! unat (fst x) = CONSTANT_UNUSED"
    using sep frame_tag [OF 1(2)] d(3) by (simp add: disjoint_image)
  have has: "\<forall>(i, d) \<in> set (fwd_methodtypes fwd). has_utf8 cp1 d" using sep keeps_has(3) [OF 1(3)] by auto
  have t: "type_descs cp1 (fwd_methodtypes fwd) = type_descs cp (fwd_methodtypes fwd)"
    using sep keeps_has(4) [OF 1(3)] by (auto simp: type_descs_def)
  obtain cp2 pool2 where 2: "for_each link_methodtype (fwd_methodtypes fwd) (cp1, pool1) = Inr (cp2, pool2)"
      "frame (fst ` set (fwd_methodtypes fwd)) cp1 cp2" "keeps cp1 cp2" "classes_ok cp2"
      "parsing_ok fs (ms - mset (type_descs cp (fwd_methodtypes fwd))) pool2" "dp_descriptorsize pool2 = dp_descriptorsize pool1"
    using link_methodtypes [OF d(2) tags has 1(4) _ ms(2)] ms(1) unfolding t by blast
  have run: "link_classes_and_types fwd (cp, pool1) = Inr (cp2, pool2)" using 1(1) 2(1) indy by (simp add: link_classes_and_types_def)
  have "cp_ok (pending fwd) cp2"
    using ends_Inr [OF link_classes_and_types_typed run, of "pending fwd" "length (cp_tags cp)"] l(2) by (simp add: typed_def)
  moreover have "cp_tags cp2 ! unat (fst x) = cp_tags cp ! unat (fst x)" if "x \<in> set (fwd_fieldmethints fwd)" for x
    using frame_tag [OF frame_trans [OF 1(2) 2(2)]] disjoint_image [OF d(4) that] by simp
  then have "\<forall>x \<in> set (fwd_fieldmethints fwd). cp_tags cp2 ! unat (fst x) \<in> fmi_tags" using sep by simp
  ultimately show ?thesis using that run keeps_trans [OF 1(3) 2(3)] 2(4,5,6) by blast
qed

lemma prepare_known: "known (prepare pool) = known pool" "dp_classrefs (prepare pool) \<noteq> None"
  by (simp_all add: known_def prepare_fields create_classrefs_fields(2))

text \<open>\<^bold>\<open>C40.\<close> Loading and linking fit together: when \<open>load_constantpool\<close> has accepted the constant pool of a class file with fewer
  than 65535 entries and without \<open>invokedynamic\<close> call sites, and the fields and methods of the class have added their
  descriptors, then, once the class references and the memory for parsed descriptors are allocated, completing the classes and method
  types succeeds, the descriptors of the fields and methods can be parsed, and completing the references can only fail with a
  \<open>ClassFormatError\<close> (a reference to an entry of the wrong kind, an illegal method handle): no assertion fails, nothing that is
  \<open>NULL\<close> is used, no class reference is missing, the memory of the parsed descriptors suffices, and every entry is typed.\<close>

theorem constantpool_links:
  assumes load: "load_constantpool opt_verify version DescriptorPool_new bytes = Inr ((cp, pool, fwd), rest)"
    and small: "length (cp_tags cp) < 65535" and indy: "fwd_invokedynamics fwd = []"
    and add: "add_all ops pool = Inr pool1"
    and xs: "parse_fields xs \<subseteq> added_fields ops" "mset (parse_methods xs) \<subseteq># mset (added_methods ops)"
  shows "\<exists>cp2 pool2 pool3 ps. link_classes_and_types fwd (cp, prepare pool1) = Inr (cp2, pool2) \<and> parse_all xs pool2 = (pool3, Inr ps) \<and>
    ends format_error (\<lambda>(cp, pool). list_all2 entry_ok (cp_tags cp) (cp_infos cp) \<and> dp_exception pool = None \<and>
        dp_descriptors_next pool \<le> dp_descriptorsize pool \<and> dp_descriptorsize pool = dp_descriptorsize (prepare pool1))
      (link_references fwd (cp2, pool3))"
proof -
  let ?T = "type_descs cp (fwd_methodtypes fwd)" and ?F = "field_descs cp (fwd_fieldmethints fwd)" and ?M = "method_descs cp (fwd_fieldmethints fwd)"
  let ?fs = "added_fields ops \<union> ?F" and ?A = "mset (added_methods ops)"
  have l: "loaded_sep cp pool fwd" "cp_ok (pending fwd) cp" "fmi_fwd_ok fwd" using load_constantpool_sep [OF load small] by simp_all
  have "pool_ok ?fs (rev (added_methods ops) @ rev ?T @ rev ?M) pool1" using add_all_ok [OF _ add] l(1) by (simp add: loaded_sep_def)
  from prepare_ok [OF this] have ok: "parsing_ok ?fs (?A + mset ?T + mset ?M) (prepare pool1)" by (simp add: add.assoc)
  have known: "known pool \<subseteq> known (prepare pool1)" using add_all_known [OF add] prepare_known by simp
  obtain cp2 pool2 where 2: "link_classes_and_types fwd (cp, prepare pool1) = Inr (cp2, pool2)" "keeps cp cp2" "classes_ok cp2"
      "\<forall>x \<in> set (fwd_fieldmethints fwd). cp_tags cp2 ! unat (fst x) \<in> fmi_tags" "cp_ok (pending fwd) cp2"
      "parsing_ok ?fs (?A + mset ?T + mset ?M - mset ?T) pool2" "dp_descriptorsize pool2 = dp_descriptorsize (prepare pool1)"
    by (rule link_classes_and_types_runs [OF l(1,2) indy known prepare_known(2) _ ok]) simp_all
  have "?A + mset ?T + mset ?M - mset ?T = ?A + mset ?M" by (simp add: add.commute add.left_commute)
  with 2(6) have ok2: "parsing_ok ?fs (?A + mset ?M) pool2" by simp
  have pf: "parse_fields xs \<subseteq> ?fs" using xs(1) by blast
  have pm: "mset (parse_methods xs) \<subseteq># ?A + mset ?M" using xs(2) by (simp add: subset_mset.add_increasing2)
  obtain pool3 ps where 3: "parse_all xs pool2 = (pool3, Inr ps)" "dp_descriptorsize pool3 = dp_descriptorsize pool2"
      "parsing_ok ?fs (?A + mset ?M - mset (parse_methods xs)) pool3"
    using parse_all_ok [OF ok2 pf pm] by blast
  have "mset ?M \<subseteq># ?A + mset ?M - mset (parse_methods xs)" 
    using xs(2) by (auto simp: mset_subset_eq_exists_conv add.assoc)
  moreover have "\<forall>(i, t, c, n) \<in> set (fwd_fieldmethints fwd). t \<in> fmi_tags \<and> cp_tags cp2 ! unat i \<in> fmi_tags \<and> has_nat cp n"
    using l(1,3) 2(4) by (force simp: loaded_sep_def fmi_fwd_ok_def)
  moreover have "distinct (map fst (fwd_fieldmethints fwd))" using l(1) by (simp add: loaded_sep_def fwd_indices_def)
  ultimately have "linking cp ?fs (dp_descriptorsize (prepare pool1)) (fwd_fieldmethints fwd) (cp2, pool3)"
    using 2(2,3,5,7) 3(2,3) unfolding linking_def pending_def by auto
  from link_references_runs [OF this] show ?thesis using 2(1) 3(1) by auto
qed

text \<open>The example class file, whose class also has a method that takes and returns nothing.\<close>

theorem constantpool_links_witness:
  "\<exists>cp pool fwd rest pool1 cp2 pool2 pool3 ps. load_constantpool True JDK_7 DescriptorPool_new example_pool = Inr ((cp, pool, fwd), rest) \<and>
    add_all [Add_method [ch_open, ch_close, ch_V]] pool = Inr pool1 \<and>
    link_classes_and_types fwd (cp, prepare pool1) = Inr (cp2, pool2) \<and> parse_all [Parse_method [ch_open, ch_close, ch_V] ACC_STATIC None] pool2 = (pool3, Inr ps) \<and>
    ends format_error (\<lambda>(cp, pool). dp_descriptors_next pool \<le> dp_descriptorsize pool) (link_references fwd (cp2, pool3))"
proof -
  let ?r = "load_constantpool True JDK_7 DescriptorPool_new example_pool"
  have "\<not> isl ?r \<and> fwd_invokedynamics (snd (snd (fst (projr ?r)))) = [] \<and> length (cp_tags (fst (fst (projr ?r)))) = 8 \<and>
      \<not> isl (add_all [Add_method [ch_open, ch_close, ch_V]] (fst (snd (fst (projr ?r)))))" by code_simp
  then obtain cp pool fwd rest pool1 where r: "?r = Inr ((cp, pool, fwd), rest)" "fwd_invokedynamics fwd = []" "length (cp_tags cp) = 8"
      "add_all [Add_method [ch_open, ch_close, ch_V]] pool = Inr pool1"
    by (metis fst_conv snd_conv sum.collapse(2) surj_pair)
  have "\<exists>cp2 pool2 pool3 ps. link_classes_and_types fwd (cp, prepare pool1) = Inr (cp2, pool2) \<and>
      parse_all [Parse_method [ch_open, ch_close, ch_V] ACC_STATIC None] pool2 = (pool3, Inr ps) \<and>
      ends format_error (\<lambda>(cp, pool). list_all2 entry_ok (cp_tags cp) (cp_infos cp) \<and> dp_exception pool = None \<and>
        dp_descriptors_next pool \<le> dp_descriptorsize pool \<and> dp_descriptorsize pool = dp_descriptorsize (prepare pool1))
      (link_references fwd (cp2, pool3))"
    using r(3) by (intro constantpool_links [OF r(1) _ r(2,4)]) (simp_all add: parse_fields_def parse_methods_def added_methods_def)
  then show ?thesis using r(1,4) by (fastforce elim!: ends_mono)
qed

end
