(* ===== verification/Spec2Isabelle.thy ===== *)
theory Spec2Isabelle
  imports Prelude Lockword MonitorProps ClassCache MethodTree HashMap Utf8Props Interning DescriptorProps ThreadList DumpMemory ConstantPoolLink
begin

text \<open>
  A verification development for the core data structures of the Java virtual machine CACAO. The
  sources are C++ under \<^verbatim>\<open>src/src/\<close>; file names below are relative to that directory.

  \<^bold>\<open>The parts of the program and how they interact.\<close> Every object header carries a lockword, which
  is either a thin lock (thread index and recursion count) or a pointer to a lock record; monitors
  (\<^verbatim>\<open>threads/lock.cpp\<close>) work on lockwords, find lock records through a hash table and threads through
  the thread list. Class names, strings and descriptors are interned UTF-8 strings: the intern table
  is made of open-addressing hash tables, so equality of strings is equality of pointers. The loader
  records which class a loader has resolved a name to in the class cache, together with the loading
  constraints between loaders, and keeps the descriptors of a class in a descriptor pool. The JIT
  compiler finds the method a program counter belongs to in an AVL tree of code ranges.

  \<^bold>\<open>Theories.\<close> Each opens with a description of its representation choices.

  \<^item> \<open>Prelude\<close>: the C integer types at their width, errors as values (\<open>vm_error\<close>, \<open>result\<close>, \<open>rbind\<close>),
    the fact collections \<open>cacao_simps\<close> and \<open>cacao_inv\<close>, and generic facts on lists.
  \<^item> \<open>Lockword\<close> (\<^verbatim>\<open>threads/lockword.hpp\<close>): the bit fields of a lockword, one function per method, on 64-bit words.
  \<^item> \<open>KeyedTable\<close>: the locales \<open>keyed_table\<close> and \<open>keyed_table_update\<close>, the contract of a chained hash table whose
    entries carry their key; interpreted in \<open>LockTable\<close> (\<open>lht\<close>) and \<open>ClassNames\<close> (\<open>ccn\<close>).
  \<^item> \<open>LockTable\<close>, \<open>Monitor\<close>, \<open>MonitorInv\<close>, \<open>MonitorSafety\<close>, \<open>MonitorProps\<close> (\<^verbatim>\<open>threads/lock.cpp\<close>,
    \<^verbatim>\<open>threads/posix/thread-posix.cpp\<close>): the table of lock records; every monitor routine cut into atomic steps at its
    unsynchronised memory accesses, with a step relation over all interleavings of all threads; the
    invariant; the proof that every step keeps it, never fails, and is a step of an abstract monitor
    that knows only owners, recursion depths and waiting threads; the properties C1 to C9 (mutual
    exclusion, refinement, freedom from failure, no lost contender of a thin lock, outcome of the calls,
    recursion overflow).
  \<^item> \<open>ClassNames\<close>, \<open>ClassCache\<close> (\<^verbatim>\<open>vm/classcache.cpp\<close>, \<^verbatim>\<open>toolbox/hashtable.cpp\<close>): the two levels of the
    class cache; C10 to C13 show that loading constraints are enforced, that a resolution never changes,
    what storing a class returns, and the invariants of the cache.
  \<^item> \<open>Avl\<close>, \<open>MethodTree\<close> (\<^verbatim>\<open>toolbox/avl.cpp\<close>, \<^verbatim>\<open>vm/jit/methodtree.cpp\<close>): the locale \<open>avl_order\<close> is the contract between
    the tree and a comparator, interpreted on the comparator of code ranges (\<open>mt\<close>); C14 to C16 show
    that a lookup returns the range that contains the address, that the tree stays balanced and that
    overlapping insertion aborts.
  \<^item> \<open>Probing\<close>, \<open>HashTable\<close>, \<open>HashMap\<close> (\<^verbatim>\<open>toolbox/hashtable.hpp\<close>, \<^verbatim>\<open>toolbox/util.hpp\<close>): the open-addressing table
    with its perturbed probe sequence; C17 to C20 show that it refines a finite map, that a probe
    reaches every slot, that \<open>next_power_of_two\<close> is right up to 2 to the 63, and what iteration visits.
  \<^item> \<open>Utf8\<close>, \<open>Utf8Props\<close> (\<^verbatim>\<open>vm/utf8.cpp\<close>, \<^verbatim>\<open>toolbox/utf_utils.hpp\<close> and its transforms): decoder, encoder, hashing and
    the construction of strings; C21 to C25 show the round trip, the agreement of both ways to construct
    a string, which texts are accepted, and where the character replacements of class names fail.
  \<^item> \<open>Interning\<close> (\<^verbatim>\<open>toolbox/intern_table.hpp\<close>): the locales \<open>internable\<close> and \<open>string_builder\<close>, interpreted for
    both kinds of builders (\<open>i8\<close>, \<open>i16\<close>); C26 shows when two calls return the same string:
    exactly for the same bytes, and for the same code units when UTF-8 text is in shortest form.
  \<^item> \<open>Descriptor\<close>, \<open>DescriptorProps\<close> (\<^verbatim>\<open>vm/descriptor.cpp\<close>): the descriptor parser and pool; C27 to C33 show what the
    parser accepts, that a pool hands out no more memory than it has, that class references resolve (and
    when they do not), and that parameters filled in late agree with those known early.
  \<^item> \<open>ThreadList\<close> (\<^verbatim>\<open>threads/threadlist.cpp\<close>, \<^verbatim>\<open>threads/thread.cpp\<close>): thread indices, the lists of threads and the life of a
    thread object as a step relation; C34 and C35 show that indices and thin lock words are unique and that
    lookup by index is right; the counters visible to Java agree with the list.
  \<^item> \<open>DumpMemory\<close> (\<^verbatim>\<open>mm/dumpmemory.cpp\<close>): the areas and blocks of scratch memory; C36 to C38 show that pieces handed out are aligned
    and disjoint, what closing an area restores, and that reallocation copies and disturbs nothing. What the
    C library promises of a new block is the hypothesis \<open>good_addr\<close>.
  \<^item> \<open>ConstantPool\<close>, \<open>ConstantPoolProps\<close>, \<open>ConstantPoolLink\<close> (\<^verbatim>\<open>vm/loader.cpp\<close>, \<^verbatim>\<open>vm/suck.hpp\<close>, \<^verbatim>\<open>vm/class.cpp\<close>): the reader of class files, the loading of a constant pool
    (first pass over the bytes, then the entries that refer to others) and the completion of its entries
    with the descriptor pool; C39 shows that reads stay inside the file and that every entry has the type its tag announces,
    C40 that what was loaded can be completed, together with the descriptor pool.

  \<^bold>\<open>Bounds and fuel.\<close> Words keep their width wherever the source computes with bits or can
  overflow: lockwords (the recursion count has 8 bits, a thread index 22 bits before the sign bit is
  reached), hashes, probe positions, \<open>next_power_of_two\<close>, UTF code units and bytes, class indices (16
  bits), the sizes and totals of dump memory (\<^verbatim>\<open>size_t\<close>). Other sizes and counters are natural numbers or
  integers. For the hash table of strings the theorems carry a bound under which nothing wraps. No theorem
  bounds the following, so the results hold as long as they do not wrap: the recursion count
  of a lock record (32-bit \<^verbatim>\<open>int\<close>), the size and the number of entries of the table of lock records and
  of the class cache (\<^verbatim>\<open>u4\<close>), the counters of threads (\<^verbatim>\<open>int32_t\<close>). The reader of class files is the one of builds
  with the verifier; in other builds its size checks are empty. The probe loops of the hash table have fuel \<open>13 + capacity\<close>: after 13 steps
  the perturbation is used up and the rest is a generator of full period, so the fuel suffices
  whenever a slot is empty, which the table guarantees; the theorems of \<open>HashMap\<close> show that no
  operation runs out of fuel for up to 2 to the 40 operations. All other loops are structural or have a
  termination proof.

  \<^bold>\<open>Not modelled.\<close> The loader, linker and resolver beyond the class cache, the descriptors and the constant pool (they
  depend on the layout of classes in memory and on files); the compiler passes, code generators, the
  second stage compiler and inlining (tens of thousands of lines of machine-dependent code over an
  intermediate representation); the garbage collector (third-party code under \<^verbatim>\<open>mm/boehm-gc\<close>); JNI, JVMTI and the
  native methods (glue); assignment of argument registers (\<open>md_param_alloc\<close>, one per architecture); debug
  output and statistics.
\<close>

end
